(* ===== verification/Prelude.thy ===== *)
theory Prelude
  imports Main "HOL-Library.Word" "HOL-Library.AList" "HOL-Library.Multiset"
    "HOL-Library.Signed_Division"
begin

text \<open>
  Shared ground of the NetSentinel development: the machine types of the C++ sources, the
  arithmetic of \<open>size_t\<close> with its wrap-around written out, checked reads of raw memory, the
  pieces of \<open>snprintf\<close> that the sources use, \<open>std::unordered_map\<close> as an association list with
  distinct keys (behind the locale \<open>unordered_map\<close>), and generic lemmas on sorted windows.
\<close>

section \<open>Machine types\<close>

type_synonym u8 = "8 word"
type_synonym u16 = "16 word"
type_synonym u32 = "32 word"
type_synonym u64 = "64 word"

text \<open>
  \<open>size_t\<close> is a natural number below \<open>2 ^ 64\<close>; its operations reduce modulo \<open>2 ^ 64\<close>, as the
  64-bit targets of the build do. Where the code guards an operation, the lemmas below turn it
  into plain arithmetic.
\<close>

type_synonym size_t = nat

definition size_modulus :: nat where
  "size_modulus = 18446744073709551616"

definition size_add :: "size_t \<Rightarrow> size_t \<Rightarrow> size_t" where
  "size_add a b = (a + b) mod size_modulus"

definition size_sub :: "size_t \<Rightarrow> size_t \<Rightarrow> size_t" where
  "size_sub a b = (a + size_modulus - b) mod size_modulus"

definition size_mul :: "size_t \<Rightarrow> size_t \<Rightarrow> size_t" where
  "size_mul a b = (a * b) mod size_modulus"

named_theorems size_arith \<open>size_t operations that stay inside the type\<close>
named_theorems printf_length \<open>length bounds of printed text\<close>

lemma size_add_exact [size_arith]: "a + b < size_modulus \<Longrightarrow> size_add a b = a + b"
  by (simp add: size_add_def)

lemma size_sub_exact [size_arith]:
  "b \<le> a \<Longrightarrow> a < size_modulus \<Longrightarrow> size_sub a b = a - b"
  by (simp add: size_sub_def add.commute [of a] mod_add_self1 flip: Nat.add_diff_assoc)

lemma size_mul_exact [size_arith]: "a * b < size_modulus \<Longrightarrow> size_mul a b = a * b"
  by (simp add: size_mul_def)

lemma unat_u32_bound [simp]: "unat (w :: u32) < 4294967296"
  by (rule order_less_le_trans [OF unsigned_less]) simp

lemma unat_u16_bound [simp]: "unat (w :: u16) < 65536"
  by (rule order_less_le_trans [OF unsigned_less]) simp

lemma unat_u8_bound [simp]: "unat (w :: u8) < 256"
  by (rule order_less_le_trans [OF unsigned_less]) simp

section \<open>Raw memory\<close>

text \<open>
  A read through a pointer into a buffer either stays inside the buffer or is undefined
  behaviour, which the model makes the value \<open>Inl OutOfBounds\<close>. \<open>overlay\<close> is the cast of
  \<open>data + off\<close> to a pointer to a packed struct of \<open>sz\<close> bytes, all of which must exist.
\<close>

datatype mem_error = OutOfBounds

definition overlay :: "u8 list \<Rightarrow> size_t \<Rightarrow> size_t \<Rightarrow> mem_error + u8 list" where
  "overlay buf off sz =
     (if off + sz \<le> length buf then Inr (take sz (drop off buf)) else Inl OutOfBounds)"

definition and_then :: "'e + 'a \<Rightarrow> ('a \<Rightarrow> 'e + 'b) \<Rightarrow> 'e + 'b" where
  "and_then m f = (case m of Inl e \<Rightarrow> Inl e | Inr a \<Rightarrow> f a)"

lemma and_then_simps [simp]: "and_then (Inl e) f = Inl e" "and_then (Inr a) f = f a"
  by (simp_all add: and_then_def)

lemma and_then_Inr_iff: "and_then m f = Inr b \<longleftrightarrow> (\<exists>a. m = Inr a \<and> f a = Inr b)"
  by (cases m) auto

lemma overlay_ok [simp]: "off + sz \<le> length buf \<Longrightarrow> overlay buf off sz = Inr (take sz (drop off buf))"
  by (simp add: overlay_def)

lemma overlay_Inr_iff:
  "overlay buf off sz = Inr bs \<longleftrightarrow> off + sz \<le> length buf \<and> bs = take sz (drop off buf)"
  by (auto simp: overlay_def)

section \<open>Formatted output\<close>

text \<open>\<open>%u\<close>, \<open>%zu\<close>: decimal digits without leading zeros; \<open>%lld\<close>: the same with a sign.\<close>

definition digit_char :: "nat \<Rightarrow> char" where
  "digit_char d = char_of (48 + d)"

fun dec_nat :: "nat \<Rightarrow> string" where
  "dec_nat n = (if n < 10 then [digit_char n] else dec_nat (n div 10) @ [digit_char (n mod 10)])"

declare dec_nat.simps [simp del]

definition dec_int :: "int \<Rightarrow> string" where
  "dec_int i = (if i < 0 then CHR ''-'' # dec_nat (nat (- i)) else dec_nat (nat i))"

definition hex_char :: "nat \<Rightarrow> char" where
  "hex_char d = (if d < 10 then char_of (48 + d) else char_of (87 + d))"

text \<open>\<open>%02x\<close> of a byte; \<open>%-21s\<close>: left-justified in a field; \<open>snprintf\<close> with buffer size \<open>n\<close>.\<close>

definition hex2 :: "u8 \<Rightarrow> string" where
  "hex2 b = [hex_char (unat b div 16), hex_char (unat b mod 16)]"

definition pad_right :: "nat \<Rightarrow> string \<Rightarrow> string" where
  "pad_right n s = s @ replicate (n - length s) (CHR '' '')"

definition snprintf :: "nat \<Rightarrow> string \<Rightarrow> string" where
  "snprintf n s = take (n - 1) s"

lemma snprintf_fits: "length s < n \<Longrightarrow> snprintf n s = s"
  by (simp add: snprintf_def)

lemma length_snprintf [printf_length]: "0 < n \<Longrightarrow> length (snprintf n s) < n"
  by (auto simp: snprintf_def)

lemma dec_nat_nonempty [simp]: "dec_nat n \<noteq> []"
  by (subst dec_nat.simps) simp

lemma length_dec_nat_Suc: "n < 10 ^ Suc k \<Longrightarrow> length (dec_nat n) \<le> Suc k"
proof (induction k arbitrary: n)
  case 0
  then show ?case by (subst dec_nat.simps) simp
next
  case (Suc k)
  have "n div 10 < 10 ^ Suc k"
    using Suc.prems by (simp add: less_mult_imp_div_less)
  then have "length (dec_nat (n div 10)) \<le> Suc k" by (rule Suc.IH)
  then show ?case by (subst dec_nat.simps) simp
qed

lemma length_dec_nat [printf_length]: "n < 10 ^ k \<Longrightarrow> 0 < k \<Longrightarrow> length (dec_nat n) \<le> k"
  using length_dec_nat_Suc [of n "k - 1"] by simp

lemma length_dec_int [printf_length]:
  "\<bar>i\<bar> < 10 ^ k \<Longrightarrow> 0 < k \<Longrightarrow> length (dec_int i) \<le> Suc k"
proof -
  assume "\<bar>i\<bar> < 10 ^ k" and k: "0 < k"
  then have "nat \<bar>i\<bar> < 10 ^ k" by (simp add: nat_less_iff)
  then have "length (dec_nat (nat \<bar>i\<bar>)) \<le> k" using k by (rule length_dec_nat)
  then show ?thesis by (auto simp: dec_int_def)
qed

text \<open>Decimal text read back: what \<open>dec_nat\<close> prints determines the number.\<close>

definition digit_value :: "char \<Rightarrow> nat" where
  "digit_value c = of_char c - 48"

definition is_digit :: "char \<Rightarrow> bool" where
  "is_digit c \<longleftrightarrow> 48 \<le> (of_char c :: nat) \<and> (of_char c :: nat) \<le> 57"

definition dec_value :: "string \<Rightarrow> nat" where
  "dec_value s = foldl (\<lambda>acc c. 10 * acc + digit_value c) 0 s"

lemma of_char_digit_char: "d < 10 \<Longrightarrow> of_char (digit_char d) = 48 + d"
  by (simp add: digit_char_def)

lemma digit_value_digit_char [simp]: "d < 10 \<Longrightarrow> digit_value (digit_char d) = d"
  by (simp add: digit_value_def of_char_digit_char)

lemma is_digit_digit_char [simp]: "d < 10 \<Longrightarrow> is_digit (digit_char d)"
  by (simp add: is_digit_def of_char_digit_char)

lemma dec_value_dec_nat [simp]: "dec_value (dec_nat n) = n"
proof (induction n rule: dec_nat.induct)
  case (1 n)
  then show ?case by (cases "n < 10") (auto simp: dec_nat.simps [of n] dec_value_def)
qed

lemma dec_nat_digits: "list_all is_digit (dec_nat n)"
proof (induction n rule: dec_nat.induct)
  case (1 n)
  then show ?case by (cases "n < 10") (auto simp: dec_nat.simps [of n])
qed

lemma dec_nat_inj: "dec_nat m = dec_nat n \<longleftrightarrow> m = n"
  by (metis dec_value_dec_nat)

section \<open>Association lists as std::unordered_map\<close>

text \<open>
  The contract of the hash maps the code uses: \<open>find\<close>, \<open>operator[]\<close>/assignment, \<open>erase\<close> and
  \<open>size\<close>, over an abstraction to a finite map. The lemmas of the clients are proved from it.
\<close>

locale unordered_map =
  fixes lookup :: "'m \<Rightarrow> 'k \<Rightarrow> 'v option"
    and assign :: "'k \<Rightarrow> 'v \<Rightarrow> 'm \<Rightarrow> 'm"
    and erase :: "'k \<Rightarrow> 'm \<Rightarrow> 'm"
    and msize :: "'m \<Rightarrow> nat"
    and minv :: "'m \<Rightarrow> bool"
  assumes lookup_assign: "lookup (assign k v m) = (lookup m)(k \<mapsto> v)"
    and lookup_erase: "minv m \<Longrightarrow> lookup (erase k m) = (lookup m)(k := None)"
    and minv_assign: "minv m \<Longrightarrow> minv (assign k v m)"
    and minv_erase: "minv m \<Longrightarrow> minv (erase k m)"
    and msize_card: "minv m \<Longrightarrow> msize m = card (dom (lookup m))"
    and finite_dom: "finite (dom (lookup m))"
begin

lemma msize_assign_new: "minv m \<Longrightarrow> lookup m k = None \<Longrightarrow> msize (assign k v m) = Suc (msize m)"
  by (simp add: msize_card minv_assign lookup_assign finite_dom domIff)

lemma msize_assign_old: "minv m \<Longrightarrow> lookup m k \<noteq> None \<Longrightarrow> msize (assign k v m) = msize m"
  by (simp add: msize_card minv_assign lookup_assign finite_dom domIff insert_absorb)

lemma msize_assign_le: "minv m \<Longrightarrow> msize (assign k v m) \<le> Suc (msize m)"
  by (cases "lookup m k") (simp_all add: msize_assign_new msize_assign_old)

lemma msize_erase_le: "minv m \<Longrightarrow> msize (erase k m) \<le> msize m"
  by (auto simp: msize_card minv_erase lookup_erase finite_dom intro!: card_mono)

end

definition map_ok :: "('k \<times> 'v) list \<Rightarrow> bool" where
  "map_ok m \<longleftrightarrow> distinct (map fst m)"

lemma map_ok_Nil [simp]: "map_ok []"
  by (simp add: map_ok_def)

interpretation hmap: unordered_map map_of AList.update AList.delete length map_ok
proof unfold_locales
  show "map_of (AList.update k v m) = (map_of m)(k \<mapsto> v)" for k :: 'a and v :: 'b and m
    by (rule update_conv')
  show "map_of (AList.delete k m) = (map_of m)(k := None)" for k :: 'a and m :: "('a \<times> 'b) list"
    by (rule delete_conv')
  show "map_ok m \<Longrightarrow> map_ok (AList.update k v m)" for k :: 'a and v :: 'b and m
    by (simp add: map_ok_def distinct_update)
  show "map_ok m \<Longrightarrow> map_ok (AList.delete k m)" for k :: 'a and m :: "('a \<times> 'b) list"
    by (simp add: map_ok_def distinct_delete)
  show "map_ok m \<Longrightarrow> length m = card (dom (map_of m))" for m :: "('a \<times> 'b) list"
    by (metis distinct_card dom_map_of_conv_image_fst length_map list.set_map map_ok_def)
  show "finite (dom (map_of m))" for m :: "('a \<times> 'b) list"
    by (rule finite_dom_map_of)
qed

section \<open>Sums over slots\<close>

text \<open>Overwriting one slot of a list exchanges its contribution to a sum.\<close>

lemma sum_list_map_update:
  "i < length xs \<Longrightarrow> sum_list (map f (xs[i := x])) + f (xs ! i) = sum_list (map f xs) + f x"
  for f :: "'a \<Rightarrow> 'b :: comm_monoid_add"
proof (induction xs arbitrary: i)
  case (Cons y ys)
  then show ?case by (cases i) (simp_all add: ac_simps)
qed simp

lemma sum_over_classes: "(\<Sum>t \<in> UNIV. length (filter (\<lambda>x. f x = t) xs)) = length xs"
  for f :: "'a \<Rightarrow> 't::finite"
proof (induction xs)
  case (Cons x xs)
  have "length (filter (\<lambda>x. f x = t) (x # xs)) = (if f x = t then 1 else 0) + length (filter (\<lambda>x. f x = t) xs)" for t
    by simp
  then show ?case using Cons by (simp only: sum.distrib) simp
qed simp

section \<open>Executions\<close>

text \<open>The states a step relation leads to, and the invariants that hold in all of them.\<close>

inductive reaches :: "('s \<Rightarrow> 's \<Rightarrow> bool) \<Rightarrow> 's \<Rightarrow> 's \<Rightarrow> bool" for next_step s0 where
  start: "reaches next_step s0 s0"
| step: "reaches next_step s0 s \<Longrightarrow> next_step s t \<Longrightarrow> reaches next_step s0 t"

lemma reaches_once: "next_step s t \<Longrightarrow> reaches next_step s t"
  by (blast intro: reaches.intros)

lemma reaches_trans:
  assumes "reaches next_step s t" "reaches next_step t u"
  shows "reaches next_step s u"
  using assms(2,1) by (induction rule: reaches.induct) (auto intro: reaches.step)

locale step_invariant =
  fixes next_step :: "'s \<Rightarrow> 's \<Rightarrow> bool" and inv :: "'s \<Rightarrow> bool"
  assumes keeps: "next_step s t \<Longrightarrow> inv s \<Longrightarrow> inv t"
begin

lemma everywhere: "reaches next_step s0 s \<Longrightarrow> inv s0 \<Longrightarrow> inv s"
  by (induction rule: reaches.induct) (auto intro: keeps)

end

section \<open>Time-ordered windows\<close>

text \<open>
  The FIFO of a sliding window drops expired entries from the front only. On entries in time
  order this is the same as filtering.
\<close>

lemma dropWhile_eq_filter_sorted:
  "sorted (map fst xs) \<Longrightarrow> dropWhile (\<lambda>x. fst x < c) xs = filter (\<lambda>x. c \<le> fst x) xs"
  for c :: int
proof (induction xs)
  case Nil
  then show ?case by simp
next
  case (Cons x xs)
  then show ?case
    by (cases "fst x < c") (auto simp: not_less intro!: filter_True [symmetric])
qed

lemma sorted_fst_filter: "sorted (map fst xs) \<Longrightarrow> sorted (map fst (filter P xs))"
  by (induction xs) auto

lemma sorted_fst_snoc:
  "sorted (map fst (xs @ [x])) \<longleftrightarrow> sorted (map fst xs) \<and> (\<forall>y \<in> set xs. fst y \<le> fst x)"
  by (auto simp: sorted_append)

lemma filter_filter_ge:
  "c \<le> d \<Longrightarrow> filter (\<lambda>x. (d :: int) \<le> fst x) (filter (\<lambda>x. c \<le> fst x) xs)
     = filter (\<lambda>x. d \<le> fst x) xs"
  by (auto intro: filter_cong)

end
