(* ===== verification/Headers.thy ===== *)
theory Headers
  imports Prelude
begin

text \<open>
  The wire-format headers of \<open>include/netsentinel/headers.hpp\<close>. A packed struct overlaid on
  captured bytes is a record; its multi-byte fields hold what a little-endian host loads (x86
  and Apple Silicon, the platforms the project names), and \<open>ntohs\<close>/\<open>ntohl\<close> swap them. Encoders
  in network byte order, the specification of the wire format, are inverse to the overlays.
\<close>

unbundle bit_operations_syntax

section \<open>Loads and byte order\<close>

definition load16 :: "u8 \<Rightarrow> u8 \<Rightarrow> u16" where
  "load16 b0 b1 = ucast b0 OR push_bit 8 (ucast b1)"

definition load32 :: "u8 \<Rightarrow> u8 \<Rightarrow> u8 \<Rightarrow> u8 \<Rightarrow> u32" where
  "load32 b0 b1 b2 b3 = ucast b0 OR push_bit 8 (ucast b1) OR push_bit 16 (ucast b2)
     OR push_bit 24 (ucast b3)"

text \<open>Network byte order, most significant byte first.\<close>

definition be16 :: "u8 \<Rightarrow> u8 \<Rightarrow> u16" where
  "be16 b0 b1 = push_bit 8 (ucast b0) OR ucast b1"

definition be32 :: "u8 \<Rightarrow> u8 \<Rightarrow> u8 \<Rightarrow> u8 \<Rightarrow> u32" where
  "be32 b0 b1 b2 b3 = push_bit 24 (ucast b0) OR push_bit 16 (ucast b1)
     OR push_bit 8 (ucast b2) OR ucast b3"

text \<open>
  \<open>ntohs\<close> and \<open>ntohl\<close> on a little-endian host: the bytes of the word in memory, lowest first,
  read again in network order.
\<close>

definition ntohs :: "u16 \<Rightarrow> u16" where
  "ntohs w = be16 (ucast w) (ucast (drop_bit 8 w))"

definition ntohl :: "u32 \<Rightarrow> u32" where
  "ntohl w = be32 (ucast w) (ucast (drop_bit 8 w)) (ucast (drop_bit 16 w)) (ucast (drop_bit 24 w))"

definition enc16 :: "u16 \<Rightarrow> u8 list" where
  "enc16 w = [ucast (drop_bit 8 w), ucast w]"

definition enc32 :: "u32 \<Rightarrow> u8 list" where
  "enc32 w = [ucast (drop_bit 24 w), ucast (drop_bit 16 w), ucast (drop_bit 8 w), ucast w]"

lemma length_enc16 [simp]: "length (enc16 w) = 2"
  by (simp add: enc16_def)

lemma length_enc32 [simp]: "length (enc32 w) = 4"
  by (simp add: enc32_def)

lemma bit_u8_beyond: "8 \<le> n \<Longrightarrow> \<not> bit (b :: u8) n"
  using bit_imp_le_length by fastforce

lemma load16_bytes: "ucast (load16 b0 b1) = b0" "ucast (drop_bit 8 (load16 b0 b1)) = b1"
  by (rule bit_eqI; auto simp: load16_def bit_simps bit_u8_beyond)+

lemma load32_bytes:
  "ucast (load32 b0 b1 b2 b3) = b0" "ucast (drop_bit 8 (load32 b0 b1 b2 b3)) = b1"
  "ucast (drop_bit 16 (load32 b0 b1 b2 b3)) = b2" "ucast (drop_bit 24 (load32 b0 b1 b2 b3)) = b3"
  by (rule bit_eqI; auto simp: load32_def bit_simps bit_u8_beyond)+

lemma ntohs_load16 [simp]: "ntohs (load16 b0 b1) = be16 b0 b1"
  by (simp add: ntohs_def load16_bytes)

lemma ntohl_load32 [simp]: "ntohl (load32 b0 b1 b2 b3) = be32 b0 b1 b2 b3"
  by (simp add: ntohl_def load32_bytes)

lemma be16_bytes [simp]: "be16 (ucast (drop_bit 8 w)) (ucast w) = w"
  by (rule bit_eqI) (auto simp: be16_def bit_simps not_le)

lemma be32_bytes [simp]:
  "be32 (ucast (drop_bit 24 w)) (ucast (drop_bit 16 w)) (ucast (drop_bit 8 w)) (ucast w) = w"
proof (rule bit_eqI)
  fix n :: nat
  consider "n < 8" | "8 \<le> n \<and> n < 16" | "16 \<le> n \<and> n < 24" | "24 \<le> n"
    by linarith
  then show "bit (be32 (ucast (drop_bit 24 w)) (ucast (drop_bit 16 w)) (ucast (drop_bit 8 w))
      (ucast w)) n = bit w n"
    by cases (auto simp: be32_def bit_simps dest: bit_imp_le_length)
qed

section \<open>Packed structs\<close>

record EthernetHeader =
  eth_dst_mac :: "u8 list"
  eth_src_mac :: "u8 list"
  eth_ethertype :: u16

definition ETHERTYPE_IPV4 :: u16 where "ETHERTYPE_IPV4 = 0x0800"
definition ETHERTYPE_IPV6 :: u16 where "ETHERTYPE_IPV6 = 0x86DD"
definition ETHERTYPE_ARP :: u16 where "ETHERTYPE_ARP = 0x0806"

definition sizeof_EthernetHeader :: size_t where "sizeof_EthernetHeader = 14"

definition ethernet_at :: "u8 list \<Rightarrow> EthernetHeader" where
  "ethernet_at bs = \<lparr>eth_dst_mac = take 6 bs, eth_src_mac = take 6 (drop 6 bs),
     eth_ethertype = load16 (bs ! 12) (bs ! 13)\<rparr>"

record IPv4Header =
  version_ihl :: u8
  dscp_ecn :: u8
  total_length :: u16
  identification :: u16
  flags_fragment_offset :: u16
  ip_ttl :: u8
  protocol :: u8
  header_checksum :: u16
  src_addr :: u32
  dst_addr :: u32

definition sizeof_IPv4Header :: size_t where "sizeof_IPv4Header = 20"

definition ipv4_at :: "u8 list \<Rightarrow> IPv4Header" where
  "ipv4_at bs = \<lparr>version_ihl = bs ! 0, dscp_ecn = bs ! 1, total_length = load16 (bs ! 2) (bs ! 3),
     identification = load16 (bs ! 4) (bs ! 5), flags_fragment_offset = load16 (bs ! 6) (bs ! 7),
     ip_ttl = bs ! 8, protocol = bs ! 9, header_checksum = load16 (bs ! 10) (bs ! 11),
     src_addr = load32 (bs ! 12) (bs ! 13) (bs ! 14) (bs ! 15),
     dst_addr = load32 (bs ! 16) (bs ! 17) (bs ! 18) (bs ! 19)\<rparr>"

definition ip_version :: "IPv4Header \<Rightarrow> u8" where
  "ip_version h = drop_bit 4 (version_ihl h)"

definition ihl_words :: "IPv4Header \<Rightarrow> u8" where
  "ihl_words h = version_ihl h AND 0x0F"

definition ip_header_bytes :: "IPv4Header \<Rightarrow> size_t" where
  "ip_header_bytes h = size_mul (unat (ihl_words h)) 4"

definition IPPROTO_ICMP :: u8 where "IPPROTO_ICMP = 1"
definition IPPROTO_TCP :: u8 where "IPPROTO_TCP = 6"
definition IPPROTO_UDP :: u8 where "IPPROTO_UDP = 17"

definition kTcpFlagFin :: u8 where "kTcpFlagFin = 0x01"
definition kTcpFlagSyn :: u8 where "kTcpFlagSyn = 0x02"
definition kTcpFlagRst :: u8 where "kTcpFlagRst = 0x04"
definition kTcpFlagPsh :: u8 where "kTcpFlagPsh = 0x08"
definition kTcpFlagAck :: u8 where "kTcpFlagAck = 0x10"
definition kTcpFlagUrg :: u8 where "kTcpFlagUrg = 0x20"

lemmas ip_protocol_defs = IPPROTO_ICMP_def IPPROTO_TCP_def IPPROTO_UDP_def
lemmas tcp_flag_defs = kTcpFlagFin_def kTcpFlagSyn_def kTcpFlagRst_def kTcpFlagPsh_def
  kTcpFlagAck_def kTcpFlagUrg_def

record TCPHeader =
  tcp_src_port :: u16
  tcp_dst_port :: u16
  seq_num :: u32
  ack_num :: u32
  data_offset_reserved :: u8
  tcp_hdr_flags :: u8
  window_size :: u16
  tcp_checksum :: u16
  urgent_pointer :: u16

definition sizeof_TCPHeader :: size_t where "sizeof_TCPHeader = 20"

definition tcp_at :: "u8 list \<Rightarrow> TCPHeader" where
  "tcp_at bs = \<lparr>tcp_src_port = load16 (bs ! 0) (bs ! 1), tcp_dst_port = load16 (bs ! 2) (bs ! 3),
     seq_num = load32 (bs ! 4) (bs ! 5) (bs ! 6) (bs ! 7),
     ack_num = load32 (bs ! 8) (bs ! 9) (bs ! 10) (bs ! 11),
     data_offset_reserved = bs ! 12, tcp_hdr_flags = bs ! 13,
     window_size = load16 (bs ! 14) (bs ! 15), tcp_checksum = load16 (bs ! 16) (bs ! 17),
     urgent_pointer = load16 (bs ! 18) (bs ! 19)\<rparr>"

definition data_offset_words :: "TCPHeader \<Rightarrow> u8" where
  "data_offset_words h = drop_bit 4 (data_offset_reserved h)"

definition tcp_header_bytes :: "TCPHeader \<Rightarrow> size_t" where
  "tcp_header_bytes h = size_mul (unat (data_offset_words h)) 4"

text \<open>The accessors of single flags.\<close>

definition tcp_flag :: "u8 \<Rightarrow> TCPHeader \<Rightarrow> bool" where
  "tcp_flag f h \<longleftrightarrow> tcp_hdr_flags h AND f \<noteq> 0"

definition tcp_fin :: "TCPHeader \<Rightarrow> bool" where "tcp_fin = tcp_flag kTcpFlagFin"
definition tcp_syn :: "TCPHeader \<Rightarrow> bool" where "tcp_syn = tcp_flag kTcpFlagSyn"
definition tcp_rst :: "TCPHeader \<Rightarrow> bool" where "tcp_rst = tcp_flag kTcpFlagRst"
definition tcp_psh :: "TCPHeader \<Rightarrow> bool" where "tcp_psh = tcp_flag kTcpFlagPsh"
definition tcp_ack :: "TCPHeader \<Rightarrow> bool" where "tcp_ack = tcp_flag kTcpFlagAck"
definition tcp_urg :: "TCPHeader \<Rightarrow> bool" where "tcp_urg = tcp_flag kTcpFlagUrg"

record UDPHeader =
  udp_src_port :: u16
  udp_dst_port :: u16
  udp_length :: u16
  udp_checksum :: u16

definition sizeof_UDPHeader :: size_t where "sizeof_UDPHeader = 8"

definition udp_at :: "u8 list \<Rightarrow> UDPHeader" where
  "udp_at bs = \<lparr>udp_src_port = load16 (bs ! 0) (bs ! 1), udp_dst_port = load16 (bs ! 2) (bs ! 3),
     udp_length = load16 (bs ! 4) (bs ! 5), udp_checksum = load16 (bs ! 6) (bs ! 7)\<rparr>"

lemmas sizeof_defs = sizeof_EthernetHeader_def sizeof_IPv4Header_def sizeof_TCPHeader_def
  sizeof_UDPHeader_def

text \<open>Header lengths come from four-bit fields, so they are at most 60 bytes.\<close>

lemma nibble_bounds: "unat (b AND 15 :: u8) < 16" "unat (drop_bit 4 b :: u8) < 16"
proof -
  have "unat (b AND 15) \<le> unat (15 :: u8)"
    by (rule word_and_le1 [THEN word_le_nat_alt [THEN iffD1]])
  then show "unat (b AND 15) < 16" by simp
  show "unat (drop_bit 4 b) < 16"
    by (simp add: drop_bit_eq_div unat_div less_mult_imp_div_less)
qed

lemma ip_header_bytes_eq: "ip_header_bytes h = 4 * unat (ihl_words h)"
  using nibble_bounds(1) [of "version_ihl h"]
  by (simp add: ip_header_bytes_def ihl_words_def size_arith size_modulus_def)

lemma tcp_header_bytes_eq: "tcp_header_bytes h = 4 * unat (data_offset_words h)"
  using nibble_bounds(2) [of "data_offset_reserved h"]
  by (simp add: tcp_header_bytes_def data_offset_words_def size_arith size_modulus_def)

lemma ip_header_bytes_le: "ip_header_bytes h \<le> 60"
  using nibble_bounds(1) [of "version_ihl h"] by (simp add: ip_header_bytes_eq ihl_words_def)

lemma tcp_header_bytes_le: "tcp_header_bytes h \<le> 60"
  using nibble_bounds(2) [of "data_offset_reserved h"]
  by (simp add: tcp_header_bytes_eq data_offset_words_def)

end
