(* ===== verification/Packet.thy ===== *)
theory Packet
  imports Headers
begin

text \<open>
  The decoded packet of \<open>include/netsentinel/packet.hpp\<close> and the printers of
  \<open>src/capture/packet.cpp\<close>. The printers write into fixed buffers with \<open>snprintf\<close>; the lemmas
  show that nothing is cut off and that an address can be read back from its text.
\<close>

unbundle bit_operations_syntax

section \<open>Data\<close>

datatype Transport = kUnknown | kTCP | kUDP | kICMP

record timeval =
  tv_sec :: int
  tv_usec :: int

text \<open>
  \<open>payload\<close> is a pointer into the captured frame: \<open>None\<close> is the null pointer, \<open>Some off\<close> is
  \<open>data + off\<close>.
\<close>

record ParsedPacket =
  timestamp :: timeval
  capture_length :: u32
  wire_length :: u32
  src_mac :: "u8 list"
  dst_mac :: "u8 list"
  has_ip :: bool
  src_ip :: u32
  dst_ip :: u32
  ttl :: u8
  ip_protocol :: u8
  transport :: Transport
  src_port :: u16
  dst_port :: u16
  tcp_flags :: u8
  payload :: "size_t option"
  payload_length :: size_t

definition default_packet :: ParsedPacket where
  "default_packet = \<lparr>timestamp = \<lparr>tv_sec = 0, tv_usec = 0\<rparr>, capture_length = 0, wire_length = 0,
     src_mac = replicate 6 0, dst_mac = replicate 6 0, has_ip = False, src_ip = 0, dst_ip = 0,
     ttl = 0, ip_protocol = 0, transport = kUnknown, src_port = 0, dst_port = 0, tcp_flags = 0,
     payload = None, payload_length = 0\<rparr>"

section \<open>Printers\<close>

definition mac_to_string :: "u8 list \<Rightarrow> string" where
  "mac_to_string mac = snprintf 18 (hex2 (mac ! 0) @ '':'' @ hex2 (mac ! 1) @ '':'' @
     hex2 (mac ! 2) @ '':'' @ hex2 (mac ! 3) @ '':'' @ hex2 (mac ! 4) @ '':'' @ hex2 (mac ! 5))"

definition octet :: "nat \<Rightarrow> u32 \<Rightarrow> nat" where
  "octet k ip = unat (drop_bit k ip AND 0xFF)"

definition ipv4_to_string :: "u32 \<Rightarrow> string" where
  "ipv4_to_string ip = snprintf 16 (dec_nat (octet 24 ip) @ ''.'' @ dec_nat (octet 16 ip) @ ''.'' @
     dec_nat (octet 8 ip) @ ''.'' @ dec_nat (octet 0 ip))"

fun transport_to_string :: "Transport \<Rightarrow> string" where
  "transport_to_string kTCP = ''TCP''"
| "transport_to_string kUDP = ''UDP''"
| "transport_to_string kICMP = ''ICMP''"
| "transport_to_string kUnknown = ''?''"

definition flag_set :: "u8 \<Rightarrow> u8 \<Rightarrow> bool" where
  "flag_set flags f \<longleftrightarrow> flags AND f \<noteq> 0"

definition tcp_flags_to_string :: "u8 \<Rightarrow> string" where
  "tcp_flags_to_string flags =
     (let s = (if flag_set flags kTcpFlagSyn then ''S'' else []) @
              (if flag_set flags kTcpFlagAck then ''A'' else []) @
              (if flag_set flags kTcpFlagFin then ''F'' else []) @
              (if flag_set flags kTcpFlagRst then ''R'' else []) @
              (if flag_set flags kTcpFlagPsh then ''P'' else []) @
              (if flag_set flags kTcpFlagUrg then ''U'' else [])
      in if s = [] then ''-'' else s)"

section \<open>What the printers show\<close>

text \<open>The printed letters are the flags of the header.\<close>

lemma printed_flags:
  "CHR ''S'' \<in> set (tcp_flags_to_string (tcp_hdr_flags h)) \<longleftrightarrow> tcp_syn h"
  "CHR ''A'' \<in> set (tcp_flags_to_string (tcp_hdr_flags h)) \<longleftrightarrow> tcp_ack h"
  "CHR ''F'' \<in> set (tcp_flags_to_string (tcp_hdr_flags h)) \<longleftrightarrow> tcp_fin h"
  "CHR ''R'' \<in> set (tcp_flags_to_string (tcp_hdr_flags h)) \<longleftrightarrow> tcp_rst h"
  "CHR ''P'' \<in> set (tcp_flags_to_string (tcp_hdr_flags h)) \<longleftrightarrow> tcp_psh h"
  "CHR ''U'' \<in> set (tcp_flags_to_string (tcp_hdr_flags h)) \<longleftrightarrow> tcp_urg h"
  by (auto simp: tcp_flags_to_string_def flag_set_def tcp_flag_def tcp_syn_def tcp_ack_def tcp_fin_def tcp_rst_def
      tcp_psh_def tcp_urg_def Let_def)

lemma octet_bound: "octet k ip < 256"
proof -
  have "unat (drop_bit k ip AND 255) \<le> unat (255 :: u32)"
    by (rule word_and_le1 [THEN word_le_nat_alt [THEN iffD1]])
  then show ?thesis by (simp add: octet_def)
qed

lemma length_dec_octet: "length (dec_nat (octet k ip)) \<le> 3"
  by (rule length_dec_nat) (use octet_bound [of k ip] in simp_all)

lemma ipv4_to_string_eq:
  "ipv4_to_string ip = dec_nat (octet 24 ip) @ ''.'' @ dec_nat (octet 16 ip) @ ''.'' @
     dec_nat (octet 8 ip) @ ''.'' @ dec_nat (octet 0 ip)"
  using length_dec_octet [of 24 ip] length_dec_octet [of 16 ip] length_dec_octet [of 8 ip]
    length_dec_octet [of 0 ip]
  by (simp add: ipv4_to_string_def snprintf_fits)

lemma length_ipv4_to_string [printf_length]: "length (ipv4_to_string ip) \<le> 15"
  using length_dec_octet [of 24 ip] length_dec_octet [of 16 ip] length_dec_octet [of 8 ip]
    length_dec_octet [of 0 ip]
  by (simp add: ipv4_to_string_eq)

lemma octets_determine:
  assumes "octet 24 a = octet 24 b" "octet 16 a = octet 16 b" "octet 8 a = octet 8 b"
    "octet 0 a = octet 0 b"
  shows "a = b"
proof (rule bit_word_eqI)
  fix n :: nat
  assume n: "n < LENGTH(32)"
  have oct: "octet k a = octet k b \<Longrightarrow> k \<le> n \<Longrightarrow> n < k + 8 \<Longrightarrow> bit a n = bit b n" for k
  proof -
    assume "octet k a = octet k b" and k: "k \<le> n" "n < k + 8"
    then have "drop_bit k a AND 255 = drop_bit k b AND 255"
      by (simp only: octet_def unsigned_word_eqI)
    then have "bit (drop_bit k a AND 255) (n - k) = bit (drop_bit k b AND 255) (n - k)" by simp
    moreover have "(255 :: u32) = mask 8" by (simp add: mask_eq_exp_minus_1)
    then have "bit (255 :: u32) (n - k)" using k n by (simp only: bit_mask_iff) auto
    ultimately show ?thesis using k by (simp add: bit_simps)
  qed
  consider "n < 8" | "8 \<le> n \<and> n < 16" | "16 \<le> n \<and> n < 24" | "24 \<le> n \<and> n < 32"
    using n by fastforce
  then show "bit a n = bit b n" by cases (use oct assms in \<open>auto\<close>)
qed

lemma split_at_sep:
  "c \<notin> set xs \<Longrightarrow> c \<notin> set ys \<Longrightarrow> xs @ c # r = ys @ c # s \<longleftrightarrow> xs = ys \<and> r = s"
proof (induction xs arbitrary: ys)
  case Nil
  then show ?case by (cases ys) auto
next
  case (Cons x xs)
  then show ?case by (cases ys) auto
qed

lemma dot_notin_dec_nat: "CHR ''.'' \<notin> set (dec_nat n)"
  using dec_nat_digits [of n] by (auto simp: list_all_iff is_digit_def)

lemma ipv4_to_string_inj: "ipv4_to_string a = ipv4_to_string b \<longleftrightarrow> a = b"
proof
  assume "ipv4_to_string a = ipv4_to_string b"
  then have "octet 24 a = octet 24 b" "octet 16 a = octet 16 b" "octet 8 a = octet 8 b"
      "octet 0 a = octet 0 b"
    by (auto simp: ipv4_to_string_eq split_at_sep dot_notin_dec_nat dec_nat_inj)
  then show "a = b" by (rule octets_determine)
qed simp

lemma hex_char_inj: "a < 16 \<Longrightarrow> b < 16 \<Longrightarrow> hex_char a = hex_char b \<longleftrightarrow> a = b"
proof -
  assume "a < 16" "b < 16"
  then have "of_char (hex_char a) = (if a < 10 then 48 + a else 87 + a)"
      "of_char (hex_char b) = (if b < 10 then 48 + b else 87 + b)"
    by (simp_all add: hex_char_def)
  then have "(if a < 10 then 48 + a else 87 + a) = (if b < 10 then 48 + b else 87 + b)"
    if "hex_char a = hex_char b" using that by simp
  then show ?thesis using \<open>a < 16\<close> \<open>b < 16\<close> by (auto split: if_splits)
qed

lemma hex2_inj: "hex2 a = hex2 b \<longleftrightarrow> a = b"
proof
  assume "hex2 a = hex2 b"
  then have "unat a div 16 = unat b div 16" "unat a mod 16 = unat b mod 16"
    by (auto simp: hex2_def hex_char_inj less_mult_imp_div_less)
  then have "unat a = unat b" by (metis div_mult_mod_eq)
  then show "a = b" by (rule unsigned_word_eqI)
qed simp

lemma length_hex2 [simp]: "length (hex2 b) = 2"
  by (simp add: hex2_def)

lemma mac_to_string_eq:
  "mac_to_string [a, b, c, d, e, f] =
     hex2 a @ '':'' @ hex2 b @ '':'' @ hex2 c @ '':'' @ hex2 d @ '':'' @ hex2 e @ '':'' @ hex2 f"
  by (simp add: mac_to_string_def snprintf_fits numeral_eq_Suc)

end
