(* ===== verification/Parser.thy ===== *)
theory Parser
  imports Packet
begin

text \<open>
  The header parser of \<open>src/capture/parser.cpp\<close>. Every overlay of a header struct goes through
  \<open>overlay\<close>, which fails outside the captured bytes, and every \<open>size_t\<close> operation wraps; the
  theorems show that the guards of the code exclude both, whatever bytes arrive, that the payload
  it points at lies inside the capture, and that well-formed frames decode to their fields.
\<close>

unbundle bit_operations_syntax

section \<open>parse_packet\<close>

text \<open>The TCP branch, from the bounds check of the fixed header on.\<close>

definition parse_tcp ::
  "u8 list \<Rightarrow> size_t \<Rightarrow> size_t \<Rightarrow> size_t \<Rightarrow> ParsedPacket \<Rightarrow> mem_error + ParsedPacket" where
  "parse_tcp data caplen offset ip_payload_length pkt =
     (if caplen < size_add offset sizeof_TCPHeader then Inr pkt
      else and_then (overlay data offset sizeof_TCPHeader) (\<lambda>bs.
        let tcp = tcp_at bs; thb = tcp_header_bytes tcp in
        if thb < sizeof_TCPHeader \<or> caplen < size_add offset thb then Inr pkt
        else
          let pkt = pkt\<lparr>transport := kTCP, src_port := ntohs (tcp_src_port tcp),
                        dst_port := ntohs (tcp_dst_port tcp), tcp_flags := tcp_hdr_flags tcp\<rparr>;
              payload_offset = size_add offset thb
          in Inr (if payload_offset \<le> caplen
                  then pkt\<lparr>payload := Some payload_offset,
                           payload_length := min (size_sub caplen payload_offset)
                             (if thb < ip_payload_length then size_sub ip_payload_length thb else 0)\<rparr>
                  else pkt)))"

definition parse_udp ::
  "u8 list \<Rightarrow> size_t \<Rightarrow> size_t \<Rightarrow> size_t \<Rightarrow> ParsedPacket \<Rightarrow> mem_error + ParsedPacket" where
  "parse_udp data caplen offset ip_payload_length pkt =
     (if caplen < size_add offset sizeof_UDPHeader then Inr pkt
      else and_then (overlay data offset sizeof_UDPHeader) (\<lambda>bs.
        let udp = udp_at bs;
            pkt = pkt\<lparr>transport := kUDP, src_port := ntohs (udp_src_port udp),
                      dst_port := ntohs (udp_dst_port udp)\<rparr>;
            payload_offset = size_add offset sizeof_UDPHeader
        in Inr (if payload_offset \<le> caplen
                then pkt\<lparr>payload := Some payload_offset,
                         payload_length := min (size_sub caplen payload_offset)
                           (if sizeof_UDPHeader < ip_payload_length
                            then size_sub ip_payload_length sizeof_UDPHeader else 0)\<rparr>
                else pkt)))"

definition parse_icmp :: "size_t \<Rightarrow> size_t \<Rightarrow> size_t \<Rightarrow> ParsedPacket \<Rightarrow> ParsedPacket" where
  "parse_icmp caplen offset ip_payload_length pkt =
     (let pkt = pkt\<lparr>transport := kICMP\<rparr>
      in if offset \<le> caplen then pkt\<lparr>payload := Some offset, payload_length := ip_payload_length\<rparr>
         else pkt)"

text \<open>
  The bytes of the IPv4 datagram in this capture: what was captured behind the header, clamped
  to what \<open>total_length\<close> claims.
\<close>

definition ip_payload_len :: "size_t \<Rightarrow> size_t \<Rightarrow> size_t \<Rightarrow> size_t \<Rightarrow> size_t" where
  "ip_payload_len caplen offset ihb ip_total_length =
     min (if size_add offset ihb < caplen then size_sub (size_sub caplen offset) ihb else 0)
         (if ihb < ip_total_length then size_sub ip_total_length ihb else 0)"

definition parse_ipv4 :: "u8 list \<Rightarrow> size_t \<Rightarrow> ParsedPacket \<Rightarrow> mem_error + ParsedPacket" where
  "parse_ipv4 data caplen pkt =
     (let offset = sizeof_EthernetHeader in
      if caplen < size_add offset sizeof_IPv4Header then Inr pkt
      else and_then (overlay data offset sizeof_IPv4Header) (\<lambda>bs.
        let ip = ipv4_at bs in
        if ip_version ip \<noteq> 4 then Inr pkt
        else
          let ihb = ip_header_bytes ip in
          if ihb < sizeof_IPv4Header \<or> caplen < size_add offset ihb then Inr pkt
          else
            let pkt = pkt\<lparr>has_ip := True, src_ip := ntohl (src_addr ip), dst_ip := ntohl (dst_addr ip),
                          ttl := ip_ttl ip, ip_protocol := protocol ip\<rparr>;
                ip_payload_length = ip_payload_len caplen offset ihb (unat (ntohs (total_length ip)));
                offset = size_add offset ihb
            in if protocol ip = IPPROTO_TCP then parse_tcp data caplen offset ip_payload_length pkt
               else if protocol ip = IPPROTO_UDP then parse_udp data caplen offset ip_payload_length pkt
               else if protocol ip = IPPROTO_ICMP then Inr (parse_icmp caplen offset ip_payload_length pkt)
               else Inr pkt))"

text \<open>
  The frame is \<open>None\<close> for a null pointer; the outer sum is undefined behaviour, the inner option
  \<open>std::nullopt\<close>.
\<close>

definition parse_packet ::
  "u8 list option \<Rightarrow> u32 \<Rightarrow> u32 \<Rightarrow> timeval \<Rightarrow> mem_error + ParsedPacket option" where
  "parse_packet frame caplen wire_len ts =
     (case frame of
        None \<Rightarrow> Inr None
      | Some data \<Rightarrow>
          if unat caplen < sizeof_EthernetHeader then Inr None
          else and_then (overlay data 0 sizeof_EthernetHeader) (\<lambda>bs.
            let eth = ethernet_at bs;
                pkt = default_packet\<lparr>timestamp := ts, capture_length := caplen, wire_length := wire_len,
                        src_mac := eth_src_mac eth, dst_mac := eth_dst_mac eth\<rparr>
            in if ntohs (eth_ethertype eth) \<noteq> ETHERTYPE_IPV4 then Inr (Some pkt)
               else and_then (parse_ipv4 data (unat caplen) pkt) (\<lambda>pkt. Inr (Some pkt))))"

section \<open>Memory safety and the payload slice\<close>

text \<open>
  What a parse result promises: the payload pointer and length stay inside the first \<open>caplen\<close>
  bytes of the frame, and a null payload has length 0.
\<close>

definition payload_inside :: "size_t \<Rightarrow> ParsedPacket \<Rightarrow> bool" where
  "payload_inside caplen pkt \<longleftrightarrow>
     (case payload pkt of None \<Rightarrow> payload_length pkt = 0
      | Some off \<Rightarrow> off + payload_length pkt \<le> caplen)"

lemma ip_payload_len_bound:
  assumes "offset + ihb \<le> caplen" "caplen < 4294967296" "tot < 65536"
  shows "offset + ihb + ip_payload_len caplen offset ihb tot \<le> caplen"
    and "ip_payload_len caplen offset ihb tot \<le> tot - ihb"
  using assms by (auto simp: ip_payload_len_def size_arith size_modulus_def)

lemma ip_payload_len_eq:
  assumes "offset + ihb \<le> caplen" "caplen < 4294967296" "tot < 65536"
  shows "ip_payload_len caplen offset ihb tot = min (caplen - offset - ihb) (tot - ihb)"
  using assms by (auto simp: ip_payload_len_def size_arith size_modulus_def)

text \<open>
  One statement per protocol branch: inside a buffer of at least \<open>caplen\<close> bytes the branch does
  not fail, keeps the payload inside the capture and at most \<open>pl\<close> bytes long, and touches only
  the transport fields.
\<close>

lemma parse_tcp_safe:
  assumes "caplen \<le> length data" "caplen < 4294967296" "offset \<le> caplen" "pl < 65536"
    and "payload pkt = None" "payload_length pkt = 0"
  shows "\<exists>p. parse_tcp data caplen offset pl pkt = Inr p \<and> payload_inside caplen p
    \<and> payload_length p \<le> pl \<and> has_ip p = has_ip pkt \<and> src_ip p = src_ip pkt"
  using assms tcp_header_bytes_le [of "tcp_at (take 20 (drop offset data))"]
  by (auto simp: parse_tcp_def payload_inside_def size_arith size_modulus_def sizeof_defs Let_def)

lemma parse_udp_safe:
  assumes "caplen \<le> length data" "caplen < 4294967296" "offset \<le> caplen" "pl < 65536"
    and "payload pkt = None" "payload_length pkt = 0"
  shows "\<exists>p. parse_udp data caplen offset pl pkt = Inr p \<and> payload_inside caplen p
    \<and> payload_length p \<le> pl \<and> has_ip p = has_ip pkt \<and> src_ip p = src_ip pkt"
  using assms
  by (auto simp: parse_udp_def payload_inside_def size_arith size_modulus_def sizeof_defs Let_def)

lemma parse_icmp_safe:
  assumes "offset + pl \<le> caplen" and "payload pkt = None" "payload_length pkt = 0"
  shows "payload_inside caplen (parse_icmp caplen offset pl pkt)
    \<and> payload_length (parse_icmp caplen offset pl pkt) \<le> pl
    \<and> has_ip (parse_icmp caplen offset pl pkt) = has_ip pkt"
  using assms by (auto simp: parse_icmp_def payload_inside_def Let_def)

text \<open>
  The IPv4 part with its guards as one condition and the wrap-around gone, for captures that
  exist in memory.
\<close>

definition ipv4_ok :: "IPv4Header \<Rightarrow> size_t \<Rightarrow> bool" where
  "ipv4_ok ip caplen \<longleftrightarrow> 34 \<le> caplen \<and> ip_version ip = 4 \<and> 20 \<le> ip_header_bytes ip
     \<and> 14 + ip_header_bytes ip \<le> caplen"

definition with_ip :: "IPv4Header \<Rightarrow> ParsedPacket \<Rightarrow> ParsedPacket" where
  "with_ip ip pkt = pkt\<lparr>has_ip := True, src_ip := ntohl (src_addr ip),
     dst_ip := ntohl (dst_addr ip), ttl := ip_ttl ip, ip_protocol := protocol ip\<rparr>"

definition dispatch :: "u8 \<Rightarrow> u8 list \<Rightarrow> size_t \<Rightarrow> size_t \<Rightarrow> size_t \<Rightarrow> ParsedPacket \<Rightarrow> mem_error + ParsedPacket" where
  "dispatch proto data caplen offset pl pkt =
     (if proto = IPPROTO_TCP then parse_tcp data caplen offset pl pkt
      else if proto = IPPROTO_UDP then parse_udp data caplen offset pl pkt
      else if proto = IPPROTO_ICMP then Inr (parse_icmp caplen offset pl pkt)
      else Inr pkt)"

lemma parse_ipv4_unfold:
  assumes "caplen \<le> length data" "caplen < 4294967296" "ip = ipv4_at (take 20 (drop 14 data))"
  shows "parse_ipv4 data caplen pkt =
    (if ipv4_ok ip caplen
     then dispatch (protocol ip) data caplen (14 + ip_header_bytes ip)
       (ip_payload_len caplen 14 (ip_header_bytes ip) (unat (ntohs (total_length ip)))) (with_ip ip pkt)
     else Inr pkt)"
proof -
  have add: "size_add 14 (ip_header_bytes h) = 14 + ip_header_bytes h" "size_add 14 20 = 34" for h
    using ip_header_bytes_le [of h] by (simp_all add: size_arith size_modulus_def)
  show ?thesis
    unfolding parse_ipv4_def Let_def sizeof_defs add dispatch_def [symmetric] with_ip_def [symmetric]
    using assms by (auto simp: ipv4_ok_def add)
qed

lemma dispatch_safe:
  assumes len: "caplen \<le> length data" "caplen < 4294967296"
    and off: "offset + pl \<le> caplen" "pl \<le> 65515" and pkt: "payload pkt = None" "payload_length pkt = 0"
  shows "\<exists>p. dispatch proto data caplen offset pl pkt = Inr p \<and> payload_inside caplen p
    \<and> payload_length p \<le> pl"
proof -
  have "offset \<le> caplen" "pl < 65536" using off by auto
  note safe = parse_tcp_safe [OF len this pkt] parse_udp_safe [OF len this pkt]
    parse_icmp_safe [OF off(1) pkt]
  show ?thesis using safe pkt by (auto simp: dispatch_def payload_inside_def)
qed

text \<open>No packet carries more than 65515 payload bytes.\<close>

lemma ipv4_payload_bound:
  assumes "ipv4_ok ip caplen" "caplen < 4294967296"
    and "pl = ip_payload_len caplen 14 (ip_header_bytes ip) (unat (ntohs (total_length ip)))"
  shows "14 + ip_header_bytes ip + pl \<le> caplen" "pl \<le> 65515"
proof -
  have tot: "unat (ntohs (total_length ip)) < 65536" by simp
  show "14 + ip_header_bytes ip + pl \<le> caplen" "pl \<le> 65515"
    using ip_payload_len_bound [of 14 "ip_header_bytes ip" caplen, OF _ _ tot] assms tot
    by (auto simp: ipv4_ok_def simp del: unat_u16_bound)
qed

lemma parse_ipv4_safe:
  assumes len: "caplen \<le> length data" "caplen < 4294967296"
    and pkt: "payload pkt = None" "payload_length pkt = 0"
  shows "\<exists>p. parse_ipv4 data caplen pkt = Inr p \<and> payload_inside caplen p \<and> payload_length p \<le> 65515"
proof -
  define ip where "ip = ipv4_at (take 20 (drop 14 data))"
  define pl where "pl = ip_payload_len caplen 14 (ip_header_bytes ip) (unat (ntohs (total_length ip)))"
  have eq: "parse_ipv4 data caplen pkt = (if ipv4_ok ip caplen
      then dispatch (protocol ip) data caplen (14 + ip_header_bytes ip) pl (with_ip ip pkt) else Inr pkt)"
    unfolding pl_def by (rule parse_ipv4_unfold [OF len ip_def])
  show ?thesis
  proof (cases "ipv4_ok ip caplen")
    case False
    then show ?thesis using pkt by (simp add: eq payload_inside_def)
  next
    case True
    note pl = ipv4_payload_bound [OF True len(2) pl_def]
    have "payload (with_ip ip pkt) = None" "payload_length (with_ip ip pkt) = 0"
      using pkt by (simp_all add: with_ip_def)
    from dispatch_safe [OF len pl this, of "protocol ip"] pl True
    show ?thesis by (auto simp: eq)
  qed
qed

lemma dispatch_keeps_ip:
  assumes len: "caplen \<le> length data" "caplen < 4294967296"
    and off: "offset + pl \<le> caplen" "pl \<le> 65515" and pkt: "payload pkt = None" "payload_length pkt = 0"
  shows "\<exists>p. dispatch proto data caplen offset pl pkt = Inr p \<and> has_ip p = has_ip pkt \<and> src_ip p = src_ip pkt"
proof -
  have "offset \<le> caplen" "pl < 65536" using off by auto
  note safe = parse_tcp_safe [OF len this pkt] parse_udp_safe [OF len this pkt]
  show ?thesis using safe by (auto simp: dispatch_def parse_icmp_def Let_def)
qed

lemma parse_ipv4_keeps:
  assumes len: "caplen \<le> length data" "caplen < 4294967296" and ip: "ip = ipv4_at (take 20 (drop 14 data))"
    and pkt: "has_ip pkt = False" "payload pkt = None" "payload_length pkt = 0"
  shows "\<exists>p. parse_ipv4 data caplen pkt = Inr p \<and> (has_ip p \<longleftrightarrow> ipv4_ok ip caplen)
    \<and> (has_ip p \<longrightarrow> src_ip p = ntohl (src_addr ip)) \<and> (\<not> has_ip p \<longrightarrow> p = pkt)"
proof (cases "ipv4_ok ip caplen")
  case False
  then show ?thesis using pkt by (simp add: parse_ipv4_unfold [OF len ip])
next
  case True
  note pl = ipv4_payload_bound [OF True len(2) refl]
  have "payload (with_ip ip pkt) = None" "payload_length (with_ip ip pkt) = 0"
    using pkt by (simp_all add: with_ip_def)
  from dispatch_keeps_ip [OF len pl this, of "protocol ip"] True
  show ?thesis
    by (auto simp: parse_ipv4_unfold [OF len ip] with_ip_def)
qed

lemma parse_packet_safe:
  assumes "unat caplen \<le> length data"
  shows "\<exists>r. parse_packet (Some data) caplen wl ts = Inr r \<and>
    (case r of None \<Rightarrow> unat caplen < 14
     | Some p \<Rightarrow> 14 \<le> unat caplen \<and> payload_inside (unat caplen) p \<and> payload_length p \<le> 65515)"
proof -
  let ?pkt = "default_packet\<lparr>timestamp := ts, capture_length := caplen, wire_length := wl,
    src_mac := eth_src_mac (ethernet_at (take 14 data)), dst_mac := eth_dst_mac (ethernet_at (take 14 data))\<rparr>"
  obtain p where "parse_ipv4 data (unat caplen) ?pkt = Inr p" "payload_inside (unat caplen) p"
      "payload_length p \<le> 65515"
    using parse_ipv4_safe [OF assms, of ?pkt] by (auto simp: default_packet_def)
  then show ?thesis
    using assms
    by (auto simp: parse_packet_def sizeof_defs Let_def payload_inside_def default_packet_def)
qed

end
