(* ===== verification/Wire_Spec.thy ===== *)
theory Wire_Spec
  imports Parser
begin

text \<open>
  The wire format as a specification: encoders for Ethernet II frames that carry IPv4 with TCP,
  UDP or ICMP, header options and trailing link-layer padding included. The theorems say that
  the parser of \<open>src/capture/parser.cpp\<close> inverts them.
\<close>

unbundle bit_operations_syntax

section \<open>Encoders\<close>

definition nibbles :: "nat \<Rightarrow> nat \<Rightarrow> u8" where
  "nibbles hi lo = of_nat (16 * hi + lo)"

definition enc_ethernet :: "u8 list \<Rightarrow> u8 list \<Rightarrow> u16 \<Rightarrow> u8 list \<Rightarrow> u8 list" where
  "enc_ethernet dst src ethertype body = dst @ src @ enc16 ethertype @ body"

text \<open>The IPv4 fields that the parser does not look at are grouped in a record.\<close>

record ip_misc =
  im_dscp :: u8
  im_ident :: u16
  im_frag :: u16
  im_checksum :: u16

definition enc_ipv4 :: "ip_misc \<Rightarrow> u8 list \<Rightarrow> u8 \<Rightarrow> u8 \<Rightarrow> u32 \<Rightarrow> u32 \<Rightarrow> u8 list \<Rightarrow> u8 list" where
  "enc_ipv4 m opts ttl_val proto src dst body =
     [nibbles 4 (5 + length opts div 4), im_dscp m] @ enc16 (of_nat (20 + length opts + length body)) @
     enc16 (im_ident m) @ enc16 (im_frag m) @ [ttl_val, proto] @ enc16 (im_checksum m) @
     enc32 src @ enc32 dst @ opts @ body"

record tcp_misc =
  tm_seq :: u32
  tm_ack :: u32
  tm_reserved :: nat
  tm_window :: u16
  tm_checksum :: u16
  tm_urgent :: u16

definition enc_tcp :: "tcp_misc \<Rightarrow> u8 list \<Rightarrow> u16 \<Rightarrow> u16 \<Rightarrow> u8 \<Rightarrow> u8 list \<Rightarrow> u8 list" where
  "enc_tcp m opts sport dport flags body =
     enc16 sport @ enc16 dport @ enc32 (tm_seq m) @ enc32 (tm_ack m) @
     [nibbles (5 + length opts div 4) (tm_reserved m), flags] @ enc16 (tm_window m) @
     enc16 (tm_checksum m) @ enc16 (tm_urgent m) @ opts @ body"

definition enc_udp :: "u16 \<Rightarrow> u16 \<Rightarrow> u16 \<Rightarrow> u8 list \<Rightarrow> u8 list" where
  "enc_udp sport dport checksum body =
     enc16 sport @ enc16 dport @ enc16 (of_nat (8 + length body)) @ enc16 checksum @ body"

definition options_ok :: "u8 list \<Rightarrow> bool" where
  "options_ok opts \<longleftrightarrow> 4 dvd length opts \<and> length opts \<le> 40"

lemma options_ok_word: "options_ok [a, b, c, d]"
proof -
  have "length [a, b, c, d] = 4" by simp
  then show ?thesis by (simp only: options_ok_def) simp
qed

section \<open>Decoding the encoders\<close>

lemma nibbles_split:
  assumes "hi < 16" "lo < 16"
  shows "drop_bit 4 (nibbles hi lo) = of_nat hi" "nibbles hi lo AND 15 = of_nat lo"
proof -
  have lt: "16 * hi + lo < 256" using assms by simp
  then have n: "unat (nibbles hi lo) = 16 * hi + lo"
    by (simp add: nibbles_def unsigned_of_nat take_bit_nat_eq_self del: of_nat_add of_nat_mult)
  have "unat (drop_bit 4 (nibbles hi lo)) = hi"
    using assms by (simp add: drop_bit_eq_div unat_div n)
  then show "drop_bit 4 (nibbles hi lo) = of_nat hi"
    by (metis of_nat_unat ucast_id)
  have "nibbles hi lo AND 15 = take_bit 4 (nibbles hi lo)"
    by (simp add: take_bit_eq_mask mask_eq_exp_minus_1)
  also have "\<dots> = nibbles hi lo mod 16"
    by (simp add: take_bit_eq_mod)
  finally have "unat (nibbles hi lo AND 15) = lo"
    using assms by (simp add: unat_mod n)
  then show "nibbles hi lo AND 15 = of_nat lo"
    by (metis of_nat_unat ucast_id)
qed

lemma ethernet_at_enc:
  assumes "length dst = 6" "length src = 6"
  shows "ethernet_at (take 14 (enc_ethernet dst src et body)) =
      \<lparr>eth_dst_mac = dst, eth_src_mac = src, eth_ethertype = load16 (ucast (drop_bit 8 et)) (ucast et)\<rparr>"
    and "drop 14 (enc_ethernet dst src et body) = body"
    and "length (enc_ethernet dst src et body) = 14 + length body"
  using assms by (simp_all add: ethernet_at_def enc_ethernet_def enc16_def nth_append)

lemma ipv4_at_fields:
  "ipv4_at (take 20 (enc_ipv4 m opts t proto src dst body)) =
     \<lparr>version_ihl = nibbles 4 (5 + length opts div 4), dscp_ecn = im_dscp m,
      total_length = load16 (ucast (drop_bit 8 (of_nat (20 + length opts + length body) :: u16)))
        (ucast (of_nat (20 + length opts + length body) :: u16)),
      identification = load16 (ucast (drop_bit 8 (im_ident m))) (ucast (im_ident m)),
      flags_fragment_offset = load16 (ucast (drop_bit 8 (im_frag m))) (ucast (im_frag m)),
      ip_ttl = t, protocol = proto,
      header_checksum = load16 (ucast (drop_bit 8 (im_checksum m))) (ucast (im_checksum m)),
      src_addr = load32 (ucast (drop_bit 24 src)) (ucast (drop_bit 16 src)) (ucast (drop_bit 8 src)) (ucast src),
      dst_addr = load32 (ucast (drop_bit 24 dst)) (ucast (drop_bit 16 dst)) (ucast (drop_bit 8 dst)) (ucast dst)\<rparr>"
  by (simp add: ipv4_at_def enc_ipv4_def enc16_def enc32_def del: of_nat_add)

lemma ipv4_at_enc:
  assumes opts: "options_ok opts" "20 + length opts + length body < 65536"
    and ip: "ip = ipv4_at (take 20 (enc_ipv4 m opts t proto src dst body))"
  shows "ip_version ip = 4" "ip_header_bytes ip = 20 + length opts"
    "unat (ntohs (total_length ip)) = 20 + length opts + length body"
    "protocol ip = proto" "ip_ttl ip = t" "ntohl (src_addr ip) = src" "ntohl (dst_addr ip) = dst"
proof -
  have n: "5 + length opts div 4 < 16" "4 * (5 + length opts div 4) = 20 + length opts"
    using opts(1) by (auto simp: options_ok_def)
  note nib = nibbles_split [of 4 "5 + length opts div 4", OF _ n(1)]
  show "ip_version ip = 4"
    using nib(1) by (simp add: ip ipv4_at_fields ip_version_def)
  have "unat (ihl_words ip) = 5 + length opts div 4"
    using nib(2) n(1)
    by (simp add: ip ipv4_at_fields ihl_words_def unsigned_of_nat take_bit_nat_eq_self del: of_nat_add)
  then show "ip_header_bytes ip = 20 + length opts"
    using n(2) by (simp add: ip_header_bytes_eq)
  define w :: u16 where "w = of_nat (20 + length opts + length body)"
  have "ntohs (total_length ip) = w"
    by (simp only: ip ipv4_at_fields IPv4Header.select_convs w_def [symmetric] ntohs_load16 be16_bytes)
  then show "unat (ntohs (total_length ip)) = 20 + length opts + length body"
    using opts(2) by (simp add: w_def unsigned_of_nat take_bit_nat_eq_self del: of_nat_add)
qed (simp_all add: ip ipv4_at_fields)

lemma enc_ipv4_shape:
  "drop (20 + length opts) (enc_ipv4 m opts t proto src dst body) = body"
  "length (enc_ipv4 m opts t proto src dst body) = 20 + length opts + length body"
  by (simp_all add: enc_ipv4_def enc16_def enc32_def add.commute [of 20] flip: drop_drop)

lemma tcp_at_fields:
  "tcp_at (take 20 (enc_tcp m opts sp dp fl body)) =
     \<lparr>tcp_src_port = load16 (ucast (drop_bit 8 sp)) (ucast sp),
      tcp_dst_port = load16 (ucast (drop_bit 8 dp)) (ucast dp),
      seq_num = load32 (ucast (drop_bit 24 (tm_seq m))) (ucast (drop_bit 16 (tm_seq m)))
        (ucast (drop_bit 8 (tm_seq m))) (ucast (tm_seq m)),
      ack_num = load32 (ucast (drop_bit 24 (tm_ack m))) (ucast (drop_bit 16 (tm_ack m)))
        (ucast (drop_bit 8 (tm_ack m))) (ucast (tm_ack m)),
      data_offset_reserved = nibbles (5 + length opts div 4) (tm_reserved m), tcp_hdr_flags = fl,
      window_size = load16 (ucast (drop_bit 8 (tm_window m))) (ucast (tm_window m)),
      tcp_checksum = load16 (ucast (drop_bit 8 (tm_checksum m))) (ucast (tm_checksum m)),
      urgent_pointer = load16 (ucast (drop_bit 8 (tm_urgent m))) (ucast (tm_urgent m))\<rparr>"
  by (simp add: tcp_at_def enc_tcp_def enc16_def enc32_def)

lemma tcp_at_enc:
  assumes opts: "options_ok opts" "tm_reserved m < 16"
    and tcp: "tcp = tcp_at (take 20 (enc_tcp m opts sp dp fl body))"
  shows "tcp_header_bytes tcp = 20 + length opts" "ntohs (tcp_src_port tcp) = sp"
    "ntohs (tcp_dst_port tcp) = dp" "tcp_hdr_flags tcp = fl"
proof -
  have n: "5 + length opts div 4 < 16" "4 * (5 + length opts div 4) = 20 + length opts"
    using opts(1) by (auto simp: options_ok_def)
  have "unat (data_offset_words tcp) = 5 + length opts div 4"
    using nibbles_split(1) [OF n(1) opts(2)] n(1)
    by (simp add: tcp tcp_at_fields data_offset_words_def unsigned_of_nat take_bit_nat_eq_self
        del: of_nat_add)
  then show "tcp_header_bytes tcp = 20 + length opts"
    using n(2) by (simp add: tcp_header_bytes_eq)
qed (simp_all add: tcp tcp_at_fields)

lemma enc_tcp_shape:
  "drop (20 + length opts) (enc_tcp m opts sp dp fl body) = body"
  "length (enc_tcp m opts sp dp fl body) = 20 + length opts + length body"
  by (simp_all add: enc_tcp_def enc16_def enc32_def add.commute [of 20] flip: drop_drop)

section \<open>The parser inverts the encoders\<close>

text \<open>
  The packet summary every IPv4 frame starts from, and the step from the frame to the protocol
  branch: options skipped, padding excluded from the IP payload length.
\<close>

definition ip_summary :: "timeval \<Rightarrow> u32 \<Rightarrow> u32 \<Rightarrow> u8 list \<Rightarrow> u8 list \<Rightarrow> u32 \<Rightarrow> u32 \<Rightarrow> u8 \<Rightarrow> u8 \<Rightarrow> ParsedPacket" where
  "ip_summary ts cl wl dm sm src dst t proto =
     default_packet\<lparr>timestamp := ts, capture_length := cl, wire_length := wl, src_mac := sm,
       dst_mac := dm, has_ip := True, src_ip := src, dst_ip := dst, ttl := t, ip_protocol := proto\<rparr>"

definition ip_frame ::
  "u8 list \<Rightarrow> u8 list \<Rightarrow> ip_misc \<Rightarrow> u8 list \<Rightarrow> u8 \<Rightarrow> u8 \<Rightarrow> u32 \<Rightarrow> u32 \<Rightarrow> u8 list \<Rightarrow> u8 list \<Rightarrow> u8 list" where
  "ip_frame dm sm m opts t proto src dst body pad =
     enc_ethernet dm sm ETHERTYPE_IPV4 (enc_ipv4 m opts t proto src dst body @ pad)"

definition frame_ok :: "u8 list \<Rightarrow> u8 list \<Rightarrow> u8 list \<Rightarrow> u8 list \<Rightarrow> u8 list \<Rightarrow> bool" where
  "frame_ok dm sm opts body pad \<longleftrightarrow> length dm = 6 \<and> length sm = 6 \<and> options_ok opts \<and>
     20 + length opts + length body < 65536 \<and> length pad < 65536"

lemma ip_frame_shape:
  assumes "frame_ok dm sm opts body pad" "fr = ip_frame dm sm m opts t proto src dst body pad"
  shows "length fr = 34 + length opts + length body + length pad"
    "take 20 (drop 14 fr) = take 20 (enc_ipv4 m opts t proto src dst body)"
    "drop (34 + length opts) fr = body @ pad"
    "unat (of_nat (length fr) :: u32) = length fr"
proof -
  have d14: "drop 14 fr = enc_ipv4 m opts t proto src dst body @ pad"
    and len: "length fr = 14 + (20 + length opts + length body + length pad)"
    using assms ethernet_at_enc(2,3)
    by (simp_all add: ip_frame_def frame_ok_def enc_ipv4_shape)
  show "length fr = 34 + length opts + length body + length pad" using len by simp
  show "take 20 (drop 14 fr) = take 20 (enc_ipv4 m opts t proto src dst body)"
    by (simp add: d14 enc_ipv4_shape)
  have "drop (34 + length opts) fr = drop (20 + length opts) (drop 14 fr)"
    by (simp add: add.commute)
  also have "\<dots> = body @ pad"
    by (simp add: d14 enc_ipv4_shape del: drop_drop)
  finally show "drop (34 + length opts) fr = body @ pad" .
  show "unat (of_nat (length fr) :: u32) = length fr"
    using assms(1) len
    by (simp add: frame_ok_def options_ok_def unsigned_of_nat take_bit_nat_eq_self del: of_nat_add)
qed

lemma parse_packet_ip_frame:
  assumes ok: "frame_ok dm sm opts body pad"
    and fr: "fr = ip_frame dm sm m opts t proto src dst body pad"
  shows "parse_packet (Some fr) (of_nat (length fr)) wl ts =
    and_then (dispatch proto fr (length fr) (34 + length opts) (length body)
      (ip_summary ts (of_nat (length fr)) wl dm sm src dst t proto)) (\<lambda>p. Inr (Some p))"
proof -
  note sh = ip_frame_shape [OF ok fr]
  define ip where "ip = ipv4_at (take 20 (drop 14 fr))"
  have opts: "options_ok opts" "20 + length opts + length body < 65536"
    and lens: "length dm = 6" "length sm = 6" and pad: "length pad < 65536"
    using ok by (simp_all add: frame_ok_def)
  note ipf = ipv4_at_enc [OF opts ip_def [unfolded sh(2)]]
  have big: "length fr < 4294967296"
    using sh(1) opts pad by simp
  have pl: "ip_payload_len (length fr) 14 (20 + length opts) (20 + length opts + length body) = length body"
    using ip_payload_len_eq [of 14 "20 + length opts" "length fr"] sh(1) opts big by simp
  have ipok: "ipv4_ok ip (length fr)"
    using sh(1) ipf by (simp add: ipv4_ok_def)
  have eth: "ethernet_at (take 14 fr) = \<lparr>eth_dst_mac = dm, eth_src_mac = sm,
      eth_ethertype = load16 (ucast (drop_bit 8 ETHERTYPE_IPV4)) (ucast ETHERTYPE_IPV4)\<rparr>"
    unfolding fr ip_frame_def by (rule ethernet_at_enc(1) [OF lens])
  have "\<not> length fr < 14" using sh(1) by simp
  then show ?thesis
    by (simp add: parse_packet_def sizeof_defs Let_def sh(4) eth ipok pl ipf
        parse_ipv4_unfold [OF order_refl big ip_def] with_ip_def ip_summary_def del: of_nat_add)
qed

lemma parse_tcp_frame:
  assumes ok: "frame_ok dm sm opts (enc_tcp tm topts sp dp fl body) pad"
    and topts: "options_ok topts" "tm_reserved tm < 16"
    and fr: "fr = ip_frame dm sm m opts t IPPROTO_TCP src dst (enc_tcp tm topts sp dp fl body) pad"
  shows "parse_packet (Some fr) (of_nat (length fr)) wl ts = Inr (Some
      ((ip_summary ts (of_nat (length fr)) wl dm sm src dst t IPPROTO_TCP)
         \<lparr>transport := kTCP, src_port := sp, dst_port := dp, tcp_flags := fl,
          payload := Some (54 + length opts + length topts), payload_length := length body\<rparr>))"
    and "take (length body) (drop (54 + length opts + length topts) fr) = body"
proof -
  define seg where "seg = enc_tcp tm topts sp dp fl body"
  note sh = ip_frame_shape [OF ok fr, folded seg_def]
  have seglen: "length seg = 20 + length topts + length body"
    by (simp add: seg_def enc_tcp_shape)
  have at: "take 20 (drop (34 + length opts) fr) = take 20 seg"
    using seglen by (simp add: sh(3))
  note tcpf = tcp_at_enc [OF topts, of "tcp_at (take 20 seg)" sp dp fl body, folded seg_def, OF refl]
  have lim: "length opts \<le> 40" "length topts \<le> 40" "length body < 65536" "length pad < 65536"
    using ok topts by (auto simp: frame_ok_def options_ok_def enc_tcp_shape)
  have "parse_tcp fr (length fr) (34 + length opts) (length seg) pkt = Inr (pkt
      \<lparr>transport := kTCP, src_port := sp, dst_port := dp, tcp_flags := fl,
       payload := Some (54 + length opts + length topts), payload_length := length body\<rparr>)" for pkt
    using sh(1) lim
    by (simp add: parse_tcp_def size_arith size_modulus_def sizeof_defs at tcpf seglen Let_def)
  then show "parse_packet (Some fr) (of_nat (length fr)) wl ts = Inr (Some
      ((ip_summary ts (of_nat (length fr)) wl dm sm src dst t IPPROTO_TCP)
         \<lparr>transport := kTCP, src_port := sp, dst_port := dp, tcp_flags := fl,
          payload := Some (54 + length opts + length topts), payload_length := length body\<rparr>))"
    by (simp add: parse_packet_ip_frame [OF ok fr] dispatch_def flip: seg_def)
  have "drop (54 + length opts + length topts) fr = drop (20 + length topts) (drop (34 + length opts) fr)"
    by (simp add: algebra_simps)
  also have "\<dots> = body @ pad"
    using seglen by (simp add: sh(3) seg_def enc_tcp_shape del: drop_drop)
  finally show "take (length body) (drop (54 + length opts + length topts) fr) = body"
    by simp
qed

lemma udp_at_enc:
  assumes "udp = udp_at (take 8 (enc_udp sp dp ck body))"
  shows "ntohs (udp_src_port udp) = sp" "ntohs (udp_dst_port udp) = dp"
  by (simp_all add: assms udp_at_def enc_udp_def enc16_def)

lemma enc_udp_shape:
  "drop 8 (enc_udp sp dp ck body) = body" "length (enc_udp sp dp ck body) = 8 + length body"
  by (simp_all add: enc_udp_def enc16_def)

lemma parse_udp_frame:
  assumes ok: "frame_ok dm sm opts (enc_udp sp dp ck body) pad"
    and fr: "fr = ip_frame dm sm m opts t IPPROTO_UDP src dst (enc_udp sp dp ck body) pad"
  shows "parse_packet (Some fr) (of_nat (length fr)) wl ts = Inr (Some
      ((ip_summary ts (of_nat (length fr)) wl dm sm src dst t IPPROTO_UDP)
         \<lparr>transport := kUDP, src_port := sp, dst_port := dp,
          payload := Some (42 + length opts), payload_length := length body\<rparr>))"
    and "take (length body) (drop (42 + length opts) fr) = body"
proof -
  define dgram where "dgram = enc_udp sp dp ck body"
  note sh = ip_frame_shape [OF ok fr, folded dgram_def]
  have dlen: "length dgram = 8 + length body"
    by (simp add: dgram_def enc_udp_shape)
  have at: "take 8 (drop (34 + length opts) fr) = take 8 dgram"
    using dlen by (simp add: sh(3))
  note udpf = udp_at_enc [of "udp_at (take 8 dgram)" sp dp ck body, folded dgram_def, OF refl]
  have lim: "length opts \<le> 40" "length body < 65536" "length pad < 65536"
    using ok by (auto simp: frame_ok_def options_ok_def enc_udp_shape)
  have "parse_udp fr (length fr) (34 + length opts) (length dgram) pkt = Inr (pkt
      \<lparr>transport := kUDP, src_port := sp, dst_port := dp,
       payload := Some (42 + length opts), payload_length := length body\<rparr>)" for pkt
    using sh(1) lim
    by (simp add: parse_udp_def size_arith size_modulus_def sizeof_defs at udpf dlen Let_def)
  then show "parse_packet (Some fr) (of_nat (length fr)) wl ts = Inr (Some
      ((ip_summary ts (of_nat (length fr)) wl dm sm src dst t IPPROTO_UDP)
         \<lparr>transport := kUDP, src_port := sp, dst_port := dp,
          payload := Some (42 + length opts), payload_length := length body\<rparr>))"
    by (simp add: parse_packet_ip_frame [OF ok fr] dispatch_def ip_protocol_defs flip: dgram_def)
  have "drop (42 + length opts) fr = drop 8 (drop (34 + length opts) fr)"
    by (simp add: algebra_simps)
  also have "\<dots> = body @ pad"
    using dlen by (simp add: sh(3) dgram_def enc_udp_shape del: drop_drop)
  finally show "take (length body) (drop (42 + length opts) fr) = body" by simp
qed

section \<open>Properties of the parser\<close>





text \<open>
  C5. Round trip for TCP. An Ethernet/IPv4/TCP frame with any options in both headers and any
  trailing padding decodes to its own addresses, ports, flags, MACs and TTL, and its payload is
  exactly the TCP body, the padding left out.
\<close>

theorem parse_tcp_roundtrip:
  assumes ok: "frame_ok dm sm opts (enc_tcp tm topts sp dp fl body) pad"
    and topts: "options_ok topts" "tm_reserved tm < 16"
    and fr: "fr = ip_frame dm sm m opts t IPPROTO_TCP src dst (enc_tcp tm topts sp dp fl body) pad"
  shows "\<exists>p off. parse_packet (Some fr) (of_nat (length fr)) wl ts = Inr (Some p) \<and>
    has_ip p \<and> transport p = kTCP \<and> src_ip p = src \<and> dst_ip p = dst \<and> src_port p = sp \<and>
    dst_port p = dp \<and> tcp_flags p = fl \<and> ttl p = t \<and> src_mac p = sm \<and> dst_mac p = dm \<and>
    timestamp p = ts \<and> wire_length p = wl \<and>
    payload p = Some off \<and> take (payload_length p) (drop off fr) = body"
  using parse_tcp_frame [OF assms] by (simp add: ip_summary_def)

theorem parse_tcp_roundtrip_witness:
  "\<exists>p fr. parse_packet (Some fr) (of_nat (length fr)) 63 \<lparr>tv_sec = 1, tv_usec = 2\<rparr> = Inr (Some p) \<and>
     src_port p = 40000 \<and> dst_port p = 443 \<and> tcp_flags p = 2 \<and> src_ip p = 0x0A000042"
proof -
  let ?tm = "\<lparr>tm_seq = 1, tm_ack = 0, tm_reserved = 0, tm_window = 512, tm_checksum = 0, tm_urgent = 0\<rparr>"
  let ?im = "\<lparr>im_dscp = 0, im_ident = 0, im_frag = 0, im_checksum = 0\<rparr>"
  have ok: "frame_ok (replicate 6 0xbb) (replicate 6 0xaa) [1, 1, 1, 1]
      (enc_tcp ?tm [2, 4, 5, 180] 40000 443 2 [104, 105]) [0, 0, 0]"
    by (simp add: frame_ok_def options_ok_word enc_tcp_shape)
  have topts: "options_ok [2, 4, 5, 180]" "tm_reserved ?tm < 16"
    by (simp_all add: options_ok_word)
  show ?thesis
    using parse_tcp_roundtrip [OF ok topts refl, where m = ?im and t = 64 and src = "0x0A000042"
        and dst = "0x0A000001" and wl = 63 and ts = "\<lparr>tv_sec = 1, tv_usec = 2\<rparr>"]
    by blast
qed

text \<open>
  C6. Round trip for UDP, with the same coverage of options and padding.
\<close>

theorem parse_udp_roundtrip:
  assumes ok: "frame_ok dm sm opts (enc_udp sp dp ck body) pad"
    and fr: "fr = ip_frame dm sm m opts t IPPROTO_UDP src dst (enc_udp sp dp ck body) pad"
  shows "\<exists>p off. parse_packet (Some fr) (of_nat (length fr)) wl ts = Inr (Some p) \<and>
    has_ip p \<and> transport p = kUDP \<and> src_ip p = src \<and> dst_ip p = dst \<and> src_port p = sp \<and>
    dst_port p = dp \<and> ttl p = t \<and> src_mac p = sm \<and> dst_mac p = dm \<and> timestamp p = ts \<and>
    payload p = Some off \<and> take (payload_length p) (drop off fr) = body"
  using parse_udp_frame [OF assms] by (simp add: ip_summary_def)

theorem parse_udp_roundtrip_witness:
  "\<exists>p fr. parse_packet (Some fr) (of_nat (length fr)) 60 \<lparr>tv_sec = 1, tv_usec = 2\<rparr> = Inr (Some p) \<and>
     transport p = kUDP \<and> src_port p = 53 \<and> dst_port p = 40001"
proof -
  have ok: "frame_ok (replicate 6 0xbb) (replicate 6 0xaa) [] (enc_udp 53 40001 0 [1, 2, 3]) [0, 0]"
    by (simp add: frame_ok_def options_ok_def enc_udp_shape)
  show ?thesis
    using parse_udp_roundtrip [OF ok refl, of "\<lparr>im_dscp = 0, im_ident = 0, im_frag = 0, im_checksum = 0\<rparr>"
        64 1 2 60 "\<lparr>tv_sec = 1, tv_usec = 2\<rparr>"]
    by blast
qed

end
