(* ===== verification/Packet_Queue.thy ===== *)
theory Packet_Queue
  imports Wire_Spec
begin

text \<open>
  The bounded queue of \<open>src/queue/packet_queue.cpp\<close>. Each region of a method that runs under
  \<open>mutex_\<close> without releasing it is one function on the queue's state; the condition-variable
  predicates are bool-valued functions. \<open>Worker_Pool\<close> interleaves these regions. The locale
  \<open>bounded_fifo\<close> is the contract its clients rely on: a FIFO of limited length that refuses
  packets only after shutdown.
\<close>

section \<open>Packets that own their payload\<close>

record QueuedPacket =
  meta :: ParsedPacket
  qpayload :: "u8 list"

definition payload_size :: "QueuedPacket \<Rightarrow> size_t" where
  "payload_size p = length (qpayload p)"

text \<open>
  \<open>frame\<close> is the capture buffer the parsed packet points into; the copy of the payload is a
  checked read of it.
\<close>

definition make_queued_packet :: "u8 list \<Rightarrow> ParsedPacket \<Rightarrow> mem_error + QueuedPacket" where
  "make_queued_packet frame parsed =
     (let m = parsed\<lparr>payload := None, payload_length := 0\<rparr> in
      case payload parsed of
        None \<Rightarrow> Inr \<lparr>meta = m, qpayload = []\<rparr>
      | Some off \<Rightarrow>
          if 0 < payload_length parsed
          then and_then (overlay frame off (payload_length parsed))
                 (\<lambda>bs. Inr \<lparr>meta = m, qpayload = bs\<rparr>)
          else Inr \<lparr>meta = m, qpayload = []\<rparr>)"

section \<open>The queue\<close>

record 'a PacketQueue =
  items :: "'a list"
  capacity :: size_t
  wanted :: size_t
  shutdown_flag :: bool
  push_wait_ns :: u64
  pop_wait_ns :: u64

definition new_PacketQueue :: "size_t \<Rightarrow> 'a PacketQueue" where
  "new_PacketQueue cap = \<lparr>items = [], capacity = cap, wanted = 1, shutdown_flag = False,
     push_wait_ns = 0, pop_wait_ns = 0\<rparr>"

text \<open>
  \<open>push\<close>: the predicate of the wait, the time charged when it had to wait, and the region after
  it. The region returns whether the packet went in and whether a consumer is woken.
\<close>

definition push_ready :: "'a PacketQueue \<Rightarrow> bool" where
  "push_ready q \<longleftrightarrow> length (items q) < capacity q \<or> shutdown_flag q"

definition push_waited :: "u64 \<Rightarrow> 'a PacketQueue \<Rightarrow> 'a PacketQueue" where
  "push_waited ns q = q\<lparr>push_wait_ns := push_wait_ns q + ns\<rparr>"

definition push_commit :: "'a \<Rightarrow> 'a PacketQueue \<Rightarrow> bool \<times> bool \<times> 'a PacketQueue" where
  "push_commit x q =
     (if shutdown_flag q then (False, False, q)
      else let q' = q\<lparr>items := items q @ [x]\<rparr>; size = length (items q')
           in (True, size = 1 \<or> size = wanted q', q'))"

text \<open>
  \<open>pop_batch\<close>: entry, the predicates of its two timed waits, the test that decides on the
  second one, and the region that takes the batch. The loop of the region moves \<open>n\<close> items one by
  one from the front of the queue to the back of the batch.
\<close>

definition pop_enter :: "size_t \<Rightarrow> 'a PacketQueue \<Rightarrow> 'a PacketQueue" where
  "pop_enter max_n q = q\<lparr>wanted := max_n\<rparr>"

definition pop_ready :: "'a PacketQueue \<Rightarrow> bool" where
  "pop_ready q \<longleftrightarrow> items q \<noteq> [] \<or> shutdown_flag q"

definition must_linger :: "size_t \<Rightarrow> int \<Rightarrow> 'a PacketQueue \<Rightarrow> bool" where
  "must_linger max_n linger_us q \<longleftrightarrow>
     items q \<noteq> [] \<and> length (items q) < max_n \<and> \<not> shutdown_flag q \<and> 0 < linger_us"

definition linger_ready :: "size_t \<Rightarrow> 'a PacketQueue \<Rightarrow> bool" where
  "linger_ready max_n q \<longleftrightarrow> max_n \<le> length (items q) \<or> shutdown_flag q"

fun move_items :: "nat \<Rightarrow> 'a list \<Rightarrow> 'a list \<Rightarrow> 'a list \<times> 'a list" where
  "move_items 0 batch its = (batch, its)"
| "move_items (Suc n) batch [] = (batch, [])"
| "move_items (Suc n) batch (x # its) = move_items n (batch @ [x]) its"

definition pop_drain :: "size_t \<Rightarrow> u64 \<Rightarrow> 'a PacketQueue \<Rightarrow> 'a list \<times> bool \<times> 'a PacketQueue" where
  "pop_drain max_n ns q =
     (let n = min max_n (length (items q)); (batch, its) = move_items n [] (items q);
          q' = q\<lparr>items := its, pop_wait_ns := pop_wait_ns q + ns\<rparr>
      in (batch, its \<noteq> [], q'))"

definition queue_shutdown :: "'a PacketQueue \<Rightarrow> 'a PacketQueue" where
  "queue_shutdown q = q\<lparr>shutdown_flag := True\<rparr>"

definition is_finished :: "'a PacketQueue \<Rightarrow> bool" where
  "is_finished q \<longleftrightarrow> shutdown_flag q \<and> items q = []"

definition queue_size :: "'a PacketQueue \<Rightarrow> size_t" where
  "queue_size q = length (items q)"

lemma move_items_eq: "move_items n batch its = (batch @ take n its, drop n its)"
  by (induction n batch its rule: move_items.induct) auto

lemma pop_drain_eq:
  "pop_drain max_n ns q = (take max_n (items q), max_n < length (items q),
     q\<lparr>items := drop max_n (items q), pop_wait_ns := pop_wait_ns q + ns\<rparr>)"
  by (auto simp: pop_drain_def move_items_eq Let_def min_def)

lemma make_queued_packet_safe:
  assumes "payload_inside n p" "n \<le> length frame"
  shows "\<exists>q. make_queued_packet frame p = Inr q \<and> meta q = p\<lparr>payload := None, payload_length := 0\<rparr> \<and>
    qpayload q = (case payload p of None \<Rightarrow> [] | Some off \<Rightarrow> take (payload_length p) (drop off frame))"
  using assms
  by (cases "payload p") (auto simp: make_queued_packet_def payload_inside_def Let_def)

section \<open>The contract of a bounded FIFO\<close>

text \<open>
  The clients see a queue through its contents: a push that is admitted appends and keeps the
  length within the capacity, a pop takes a prefix of at most the size asked for, and nothing
  but push and pop changes the contents.
\<close>

locale bounded_fifo =
  fixes push :: "'a \<Rightarrow> 'q \<Rightarrow> bool \<times> 'q"
    and pop :: "nat \<Rightarrow> 'q \<Rightarrow> 'a list \<times> 'q"
    and close :: "'q \<Rightarrow> 'q"
    and admits :: "'q \<Rightarrow> bool"
    and contents :: "'q \<Rightarrow> 'a list"
    and closed :: "'q \<Rightarrow> bool"
    and limit :: "'q \<Rightarrow> nat"
  assumes push_open: "\<not> closed q \<Longrightarrow> push x q = (ok, q') \<Longrightarrow>
        ok \<and> contents q' = contents q @ [x] \<and> \<not> closed q' \<and> limit q' = limit q"
    and push_closed: "closed q \<Longrightarrow> push x q = (False, q)"
    and pop_contents: "pop n q = (b, q') \<Longrightarrow> contents q = b @ contents q' \<and>
        length b = min n (length (contents q)) \<and> closed q' = closed q \<and> limit q' = limit q"
    and close_contents: "contents (close q) = contents q \<and> closed (close q) \<and> limit (close q) = limit q"
    and admits_iff: "admits q \<longleftrightarrow> length (contents q) < limit q \<or> closed q"
begin

text \<open>
  First in, first out: if what was accepted so far is what was delivered followed by the
  contents, every operation keeps it so, and a push that waited for \<open>admits\<close> keeps the bound.
\<close>

lemma push_keeps_fifo:
  assumes "acc = out @ contents q" "push x q = (ok, q')"
  shows "(if ok then acc @ [x] else acc) = out @ contents q'"
  using assms push_open push_closed by (cases "closed q") (auto split: if_splits)

lemma pop_keeps_fifo:
  assumes "acc = out @ contents q" "pop n q = (b, q')"
  shows "acc = (out @ b) @ contents q'"
  using assms pop_contents by auto

lemma push_keeps_bound:
  assumes "admits q" "length (contents q) \<le> limit q" "push x q = (ok, q')"
  shows "length (contents q') \<le> limit q' \<and> limit q' = limit q"
  using assms push_open push_closed admits_iff by (cases "closed q") fastforce+

lemma pop_lengths:
  assumes "pop n q = (b, q')"
  shows "length (contents q) = length b + length (contents q')" "length b \<le> n" "limit q' = limit q"
proof -
  have c: "contents q = b @ contents q'" and n: "length b = min n (length (contents q))"
    and l: "limit q' = limit q"
    using pop_contents [OF assms] by blast+
  show "length (contents q) = length b + length (contents q')" by (simp add: c)
  show "length b \<le> n" by (simp add: n)
  show "limit q' = limit q" by (rule l)
qed

lemma pop_keeps_bound:
  assumes "length (contents q) \<le> limit q" "pop n q = (b, q')"
  shows "length (contents q') \<le> limit q' \<and> limit q' = limit q \<and> length b \<le> n"
  using assms(1) pop_lengths [OF assms(2)] by simp

lemma pop_makes_room:
  assumes "pop n q = (b, q')" "b \<noteq> []" "length (contents q) \<le> limit q"
  shows "admits q'"
proof -
  have "0 < length b" using assms(2) by simp
  then have "length (contents q') < limit q'" using pop_lengths [OF assms(1)] assms(3) by linarith
  then show ?thesis by (simp add: admits_iff)
qed

lemma pop_drained: "pop n q = ([], q') \<Longrightarrow> 0 < n \<Longrightarrow> contents q = []"
  using pop_contents [of n q "[]" q'] by (auto simp: min_def split: if_splits)

end

definition push_now :: "'a \<Rightarrow> 'a PacketQueue \<Rightarrow> bool \<times> 'a PacketQueue" where
  "push_now x q = (case push_commit x q of (ok, _, q') \<Rightarrow> (ok, q'))"

definition pop_now :: "nat \<Rightarrow> u64 \<Rightarrow> 'a PacketQueue \<Rightarrow> 'a list \<times> 'a PacketQueue" where
  "pop_now max_n ns q = (case pop_drain max_n ns q of (b, _, q') \<Rightarrow> (b, q'))"

interpretation pq: bounded_fifo push_now "\<lambda>n. pop_now n ns" queue_shutdown push_ready items shutdown_flag
  capacity for ns
  by unfold_locales
    (auto simp: push_now_def push_commit_def pop_now_def pop_drain_eq queue_shutdown_def
      push_ready_def Let_def min_def split: if_splits)

end
