(* ===== verification/Capture.thy ===== *)
theory Capture
  imports Packet_Queue
begin

text \<open>
  The capture loop of \<open>src/capture/capture.cpp\<close>. \<open>libpcap\<close>, \<open>poll\<close> and the stop flag are outside
  the program: a run is given the answers they give, one list per source of answers, and uses them
  up in the order the loop asks. A run that needs an answer past the end of its script is still
  \<open>Running\<close>. Undefined behaviour (a read outside a frame, overflow of the packet counter) is an
  outcome of its own. Each round reads the stop flag once, so the two nested loops are structurally
  recursive on its answers.
\<close>

section \<open>Opening a source\<close>

record 'h Capture =
  handle :: "'h option"
  live :: bool

definition new_Capture :: "'h Capture" where
  "new_Capture = \<lparr>handle = None, live = False\<rparr>"

definition DLT_EN10MB :: int where "DLT_EN10MB = 1"

text \<open>
  \<open>pcap_open\<close> stands for \<open>pcap_open_live\<close> or \<open>pcap_open_offline\<close> and gives an error text or a handle.
  The second component of the result is the \<open>error\<close> argument when the call returned false.
\<close>

definition open_live :: "(string \<Rightarrow> string + 'h) \<Rightarrow> ('h \<Rightarrow> int) \<Rightarrow> string \<Rightarrow> 'h Capture
    \<Rightarrow> 'h Capture \<times> string option" where
  "open_live pcap_open pcap_datalink device c =
     (case pcap_open device of
        Inl errbuf \<Rightarrow> (c\<lparr>handle := None\<rparr>, Some errbuf)
      | Inr h \<Rightarrow>
          if pcap_datalink h \<noteq> DLT_EN10MB then
            (c\<lparr>handle := None\<rparr>, Some (''unsupported link-layer type on '' @ device @
               '' (only Ethernet/DLT_EN10MB is parsed in Phase 1)''))
          else (c\<lparr>handle := Some h, live := True\<rparr>, None))"

definition open_offline :: "(string \<Rightarrow> string + 'h) \<Rightarrow> ('h \<Rightarrow> int) \<Rightarrow> string \<Rightarrow> 'h Capture
    \<Rightarrow> 'h Capture \<times> string option" where
  "open_offline pcap_open pcap_datalink path c =
     (case pcap_open path of
        Inl errbuf \<Rightarrow> (c\<lparr>handle := None\<rparr>, Some errbuf)
      | Inr h \<Rightarrow>
          if pcap_datalink h \<noteq> DLT_EN10MB then
            (c\<lparr>handle := None\<rparr>, Some (path @
               '' uses an unsupported link-layer type (only Ethernet/DLT_EN10MB is parsed in Phase 1)''))
          else (c\<lparr>handle := Some h\<rparr>, None))"

section \<open>The loop\<close>

record raw_frame =
  frame_bytes :: "u8 list"
  frame_caplen :: u32
  frame_len :: u32
  frame_ts :: timeval

datatype poll_answer = PollTimeout | PollReady | PollInterrupted | PollFailed

text \<open>\<open>pcap_next_ex\<close>: 1 with a frame, 0, or a negative code (error or end of file).\<close>

datatype next_answer = NextFrame raw_frame | NextNothing | NextEnd

datatype undefined_behaviour = BadRead mem_error | IntOverflow

datatype outcome =
    Running
  | Finished int "(raw_frame \<times> ParsedPacket) list"
  | Undefined undefined_behaviour

definition INT_MAX :: int where "INT_MAX = 2147483647"

text \<open>
  \<open>handled\<close> lists the packets given to the handler so far; \<open>polled\<close> says whether the loop polls a
  descriptor. A stop seen by the inner loop leads back to the outer one, which reads the flag again.
\<close>

fun outer_loop :: "bool \<Rightarrow> int \<Rightarrow> bool list \<Rightarrow> poll_answer list \<Rightarrow> next_answer list \<Rightarrow> int
      \<Rightarrow> (raw_frame \<times> ParsedPacket) list \<Rightarrow> outcome"
  and inner_loop :: "bool \<Rightarrow> int \<Rightarrow> bool list \<Rightarrow> poll_answer list \<Rightarrow> next_answer list \<Rightarrow> int
      \<Rightarrow> (raw_frame \<times> ParsedPacket) list \<Rightarrow> outcome" where
  "outer_loop polled max_packets [] polls nexts delivered handled = Running"
| "outer_loop polled max_packets (stop # stops) polls nexts delivered handled =
     (if stop then Finished delivered handled
      else if polled then
        (case polls of
           [] \<Rightarrow> Running
         | PollTimeout # polls \<Rightarrow> outer_loop polled max_packets stops polls nexts delivered handled
         | PollInterrupted # polls \<Rightarrow> outer_loop polled max_packets stops polls nexts delivered handled
         | PollFailed # polls \<Rightarrow> Finished delivered handled
         | PollReady # polls \<Rightarrow> inner_loop polled max_packets stops polls nexts delivered handled)
      else inner_loop polled max_packets stops polls nexts delivered handled)"
| "inner_loop polled max_packets [] polls nexts delivered handled = Running"
| "inner_loop polled max_packets (stop # stops) polls nexts delivered handled =
     (if stop then outer_loop polled max_packets stops polls nexts delivered handled
      else
        (case nexts of
           [] \<Rightarrow> Running
         | NextFrame f # nexts \<Rightarrow>
             (case parse_packet (Some (frame_bytes f)) (frame_caplen f) (frame_len f) (frame_ts f) of
                Inl e \<Rightarrow> Undefined (BadRead e)
              | Inr None \<Rightarrow>
                  if max_packets > 0 \<and> delivered \<ge> max_packets then Finished delivered handled
                  else inner_loop polled max_packets stops polls nexts delivered handled
              | Inr (Some p) \<Rightarrow>
                  if delivered = INT_MAX then Undefined IntOverflow
                  else if max_packets > 0 \<and> delivered + 1 \<ge> max_packets
                  then Finished (delivered + 1) (handled @ [(f, p)])
                  else inner_loop polled max_packets stops polls nexts (delivered + 1) (handled @ [(f, p)]))
         | NextNothing # nexts \<Rightarrow> outer_loop polled max_packets stops polls nexts delivered handled
         | NextEnd # nexts \<Rightarrow> Finished delivered handled))"

definition run_capture :: "'h Capture \<Rightarrow> ('h \<Rightarrow> int) \<Rightarrow> int \<Rightarrow> bool list \<Rightarrow> poll_answer list
    \<Rightarrow> next_answer list \<Rightarrow> outcome" where
  "run_capture c pcap_get_selectable_fd max_packets stops polls nexts =
     (case handle c of
        None \<Rightarrow> Finished 0 []
      | Some h \<Rightarrow>
          let selectable_fd = (if live c then pcap_get_selectable_fd h else -1)
          in outer_loop (selectable_fd \<ge> 0) max_packets stops polls nexts 0 [])"

text \<open>The handler \<open>main\<close> passes in: copy the packet out of the capture buffer for the queue.\<close>

definition queue_handler :: "raw_frame \<times> ParsedPacket \<Rightarrow> mem_error + QueuedPacket" where
  "queue_handler fp = make_queued_packet (frame_bytes (fst fp)) (snd fp)"

section \<open>What libpcap guarantees, and the reference result\<close>

text \<open>\<open>pcap_next_ex\<close> points at \<open>caplen\<close> captured bytes.\<close>

definition raw_frame_ok :: "raw_frame \<Rightarrow> bool" where
  "raw_frame_ok f \<longleftrightarrow> unat (frame_caplen f) \<le> length (frame_bytes f)"

definition parsed_of :: "raw_frame \<Rightarrow> ParsedPacket option" where
  "parsed_of f = (case parse_packet (Some (frame_bytes f)) (frame_caplen f) (frame_len f) (frame_ts f) of
     Inl e \<Rightarrow> None | Inr r \<Rightarrow> r)"

definition parsed_frames :: "raw_frame list \<Rightarrow> (raw_frame \<times> ParsedPacket) list" where
  "parsed_frames fs = List.map_filter (\<lambda>f. map_option (Pair f) (parsed_of f)) fs"

fun frames_of :: "next_answer list \<Rightarrow> raw_frame list" where
  "frames_of [] = []"
| "frames_of (NextFrame f # nexts) = f # frames_of nexts"
| "frames_of (_ # nexts) = frames_of nexts"

lemma parsed_frames_simps [simp]:
  "parsed_frames [] = []"
  "parsed_frames (f # fs) = (case parsed_of f of None \<Rightarrow> parsed_frames fs | Some p \<Rightarrow> (f, p) # parsed_frames fs)"
  by (simp_all add: parsed_frames_def map_filter_simps split: option.split)

lemma parse_frame:
  "raw_frame_ok f \<Longrightarrow> parse_packet (Some (frame_bytes f)) (frame_caplen f) (frame_len f) (frame_ts f) = Inr (parsed_of f)"
  using parse_packet_safe [of "frame_caplen f" "frame_bytes f" "frame_len f" "frame_ts f"]
  by (auto simp: raw_frame_ok_def parsed_of_def)

section \<open>Safety of every run\<close>

text \<open>
  Whatever the answers, a run that is not cut off by the counter returns the number of handled
  packets, and these are the parsed packets of the frames it read, in order.
\<close>

definition loop_result :: "int \<Rightarrow> int \<Rightarrow> (raw_frame \<times> ParsedPacket) list \<Rightarrow> next_answer list \<Rightarrow> outcome \<Rightarrow> bool" where
  "loop_result max_packets delivered handled nexts r =
     (case r of
        Running \<Rightarrow> True
      | Undefined u \<Rightarrow> u = IntOverflow \<and> max_packets \<le> 0 \<and>
          INT_MAX < delivered + int (length (parsed_frames (frames_of nexts)))
      | Finished n hs \<Rightarrow> \<exists>k. hs = handled @ parsed_frames (take k (frames_of nexts)) \<and>
          n = delivered + int (length hs) - int (length handled) \<and> (0 < max_packets \<longrightarrow> n \<le> max_packets))"

lemma loop_result_unparsed:
  assumes "parsed_of f = None" "loop_result m d hs nexts r"
  shows "loop_result m d hs (NextFrame f # nexts) r"
proof (cases r)
  case (Finished n h)
  then obtain k where "h = hs @ parsed_frames (take k (frames_of nexts))"
    "n = d + int (length h) - int (length hs)" "0 < m \<longrightarrow> n \<le> m"
    using assms(2) by (auto simp: loop_result_def)
  then show ?thesis
    using assms(1) Finished by (auto simp: loop_result_def intro!: exI [of _ "Suc k"])
qed (use assms in \<open>simp_all add: loop_result_def\<close>)

lemma loop_result_parsed:
  assumes "parsed_of f = Some p" "loop_result m (d + 1) (hs @ [(f, p)]) nexts r"
  shows "loop_result m d hs (NextFrame f # nexts) r"
proof (cases r)
  case (Finished n h)
  then obtain k where "h = hs @ (f, p) # parsed_frames (take k (frames_of nexts))"
    "n = d + 1 + int (length h) - int (length (hs @ [(f, p)]))" "0 < m \<longrightarrow> n \<le> m"
    using assms(2) by (auto simp: loop_result_def)
  then show ?thesis
    using assms(1) Finished by (auto simp: loop_result_def intro!: exI [of _ "Suc k"])
qed (use assms in \<open>simp_all add: loop_result_def\<close>)

lemma loop_result_nothing: "loop_result m d hs nexts r \<Longrightarrow> loop_result m d hs (NextNothing # nexts) r"
  by (simp add: loop_result_def cong: outcome.case_cong)

lemma loop_result_now: "0 < m \<longrightarrow> d \<le> m \<Longrightarrow> loop_result m d hs nexts (Finished d hs)"
  by (auto simp: loop_result_def intro!: exI [of _ 0])

lemma loop_result_last:
  assumes "parsed_of f = Some p" "0 < m \<longrightarrow> d + 1 \<le> m"
  shows "loop_result m d hs (NextFrame f # nexts) (Finished (d + 1) (hs @ [(f, p)]))"
  using assms(1) loop_result_now [OF assms(2)] by (rule loop_result_parsed)

definition counter_ok :: "int \<Rightarrow> int \<Rightarrow> bool" where
  "counter_ok max_packets delivered \<longleftrightarrow> 0 \<le> delivered \<and> delivered \<le> INT_MAX \<and> max_packets \<le> INT_MAX \<and>
     (0 < max_packets \<longrightarrow> delivered < max_packets)"

lemma counter_ok_next:
  "counter_ok m d \<Longrightarrow> d \<noteq> INT_MAX \<Longrightarrow> \<not> (0 < m \<and> m \<le> d + 1) \<Longrightarrow> counter_ok m (d + 1)"
  by (auto simp: counter_ok_def)

lemma loops_correct:
  assumes "list_all raw_frame_ok (frames_of nexts)" "counter_ok m d"
  shows "loop_result m d hs nexts (outer_loop polled m stops polls nexts d hs) \<and>
    loop_result m d hs nexts (inner_loop polled m stops polls nexts d hs)"
  using assms
proof (induction stops arbitrary: polls nexts d hs)
  case Nil
  then show ?case by (simp add: loop_result_def)
next
  case (Cons stop stops)
  have le: "0 < m \<longrightarrow> d \<le> m" and running: "loop_result m d hs nexts Running"
    using Cons.prems(2) by (auto simp: counter_ok_def loop_result_def)
  have outer: "loop_result m d hs nexts (outer_loop polled m (stop # stops) polls nexts d hs)"
    using Cons.IH [OF Cons.prems] loop_result_now [OF le] running
    by (auto split: list.split poll_answer.split)
  have "loop_result m d hs nexts (inner_loop polled m (stop # stops) polls nexts d hs)"
  proof (cases "stop \<or> nexts = []")
    case True
    then show ?thesis using Cons.IH [OF Cons.prems] running by auto
  next
    case False
    then obtain a rest where nexts: "nexts = a # rest" by (cases nexts) auto
    show ?thesis
    proof (cases a)
      case (NextFrame f)
      have f: "raw_frame_ok f" and rest: "list_all raw_frame_ok (frames_of rest)"
        using Cons.prems(1) by (simp_all add: nexts NextFrame)
      note parse = parse_frame [OF f]
      show ?thesis
      proof (cases "parsed_of f")
        case None
        have "\<not> (0 < m \<and> m \<le> d)" using Cons.prems(2) by (auto simp: counter_ok_def)
        then show ?thesis
          using False None loop_result_unparsed [OF None] Cons.IH [OF rest Cons.prems(2)]
          by (auto simp: nexts NextFrame parse)
      next
        case (Some p)
        consider "d = INT_MAX" | "d \<noteq> INT_MAX" "0 < m \<and> m \<le> d + 1" | "d \<noteq> INT_MAX" "\<not> (0 < m \<and> m \<le> d + 1)"
          by blast
        then show ?thesis
        proof cases
          case 1
          then show ?thesis
            using False Some Cons.prems(2)
            by (auto simp: nexts NextFrame parse loop_result_def counter_ok_def)
        next
          case 2
          then have "0 < m \<longrightarrow> d + 1 \<le> m" using Cons.prems(2) by (auto simp: counter_ok_def)
          from loop_result_last [OF Some this] show ?thesis
            using 2 False Some by (simp add: nexts NextFrame parse)
        next
          case 3
          then show ?thesis
            using False Some loop_result_parsed [OF Some] Cons.IH [OF rest counter_ok_next [OF Cons.prems(2) 3]]
            by (auto simp: nexts NextFrame parse)
        qed
      qed
    next
      case NextNothing
      then have "list_all raw_frame_ok (frames_of rest)" using Cons.prems(1) by (simp add: nexts)
      then show ?thesis
        using False NextNothing Cons.IH Cons.prems(2) by (simp add: nexts loop_result_nothing)
    next
      case NextEnd
      then show ?thesis using False loop_result_now [OF le] by (simp add: nexts)
    qed
  qed
  with outer show ?case by simp
qed

lemma handler_safe:
  assumes "raw_frame_ok f" "parsed_of f = Some p"
  shows "\<exists>q. queue_handler (f, p) = Inr q"
proof -
  have "payload_inside (unat (frame_caplen f)) p"
    using parse_packet_safe [of "frame_caplen f" "frame_bytes f" "frame_len f" "frame_ts f"]
      parse_frame [OF assms(1)] assms by (auto simp: raw_frame_ok_def)
  then show ?thesis
    using make_queued_packet_safe assms(1) unfolding raw_frame_ok_def queue_handler_def by (metis fst_conv snd_conv)
qed

lemma parsed_frames_mem: "(f, p) \<in> set (parsed_frames fs) \<longleftrightarrow> f \<in> set fs \<and> parsed_of f = Some p"
  by (induction fs) (auto split: option.split)

lemma run_capture_result:
  assumes "list_all raw_frame_ok (frames_of nexts)" "0 \<le> max_packets" "max_packets \<le> INT_MAX"
  shows "case run_capture c fd max_packets stops polls nexts of
      Running \<Rightarrow> True
    | Undefined u \<Rightarrow> u = IntOverflow \<and> max_packets = 0 \<and>
        INT_MAX < int (length (parsed_frames (frames_of nexts)))
    | Finished n hs \<Rightarrow> n = int (length hs) \<and> (0 < max_packets \<longrightarrow> n \<le> max_packets) \<and>
        (\<exists>k. hs = parsed_frames (take k (frames_of nexts))) \<and> list_all (\<lambda>fp. \<exists>q. queue_handler fp = Inr q) hs"
proof -
  have "counter_ok max_packets 0" using assms by (simp add: counter_ok_def INT_MAX_def)
  then have res: "loop_result max_packets 0 [] nexts (outer_loop polled max_packets stops polls nexts 0 [])" for polled
    using loops_correct assms(1) by blast
  have safe: "list_all (\<lambda>fp. \<exists>q. queue_handler fp = Inr q) (parsed_frames (take k (frames_of nexts)))" for k
    using assms(1) handler_safe by (simp add: list_all_iff) (metis in_set_takeD parsed_frames_mem prod.exhaust)
  show ?thesis
  proof (cases "handle c")
    case None
    then show ?thesis using assms(2) by (auto simp: run_capture_def intro!: exI [of _ 0])
  next
    case (Some h)
    then obtain polled where run: "run_capture c fd max_packets stops polls nexts =
        outer_loop polled max_packets stops polls nexts 0 []"
      by (simp add: run_capture_def Let_def)
    show ?thesis unfolding run
      using res [of polled] safe assms(2) by (auto simp: loop_result_def split: outcome.split)
  qed
qed

text \<open>
  C28. Every capture is safe and in order: for all answers \<open>libpcap\<close>, \<open>poll\<close> and the stop flag may
  give, the loop reads no byte outside a frame; when it returns, its result is the number of packets
  given to the handler, at most \<open>max_packets\<close> if that is positive, these are the parsed packets of
  the first frames in order, and copying each into the queue stays inside its frame. The only
  undefined behaviour is the overflow of the counter, with no packet limit and more than
  2147483647 parsed packets.
\<close>

theorem run_capture_safe:
  assumes "list_all raw_frame_ok (frames_of nexts)" "0 \<le> max_packets" "max_packets \<le> INT_MAX"
  shows "case run_capture c fd max_packets stops polls nexts of
      Running \<Rightarrow> True
    | Undefined u \<Rightarrow> u = IntOverflow \<and> max_packets = 0 \<and>
        INT_MAX < int (length (parsed_frames (frames_of nexts)))
    | Finished n hs \<Rightarrow> n = int (length hs) \<and> (0 < max_packets \<longrightarrow> n \<le> max_packets) \<and>
        (\<exists>k. hs = parsed_frames (take k (frames_of nexts))) \<and> list_all (\<lambda>fp. \<exists>q. queue_handler fp = Inr q) hs"
  using assms by (rule run_capture_result)

definition sample_frame :: raw_frame where
  "sample_frame = \<lparr>frame_bytes = replicate 14 0, frame_caplen = 14, frame_len = 14,
     frame_ts = \<lparr>tv_sec = 0, tv_usec = 0\<rparr>\<rparr>"

definition sample_capture :: "nat Capture" where
  "sample_capture = \<lparr>handle = Some 3, live = False\<rparr>"

lemma sample_frame_ok: "raw_frame_ok sample_frame" "parsed_of sample_frame \<noteq> None"
proof -
  show ok: "raw_frame_ok sample_frame" by (simp add: raw_frame_ok_def sample_frame_def)
  show "parsed_of sample_frame \<noteq> None"
    using parse_packet_safe [of 14 "replicate 14 0" 14 "\<lparr>tv_sec = 0, tv_usec = 0\<rparr>"]
    by (auto simp: parsed_of_def sample_frame_def split: option.splits)
qed

theorem run_capture_safe_witness:
  "case run_capture sample_capture (\<lambda>_. 0) 1 [False, False] [] [NextFrame sample_frame] of
      Running \<Rightarrow> True | Undefined u \<Rightarrow> False | Finished n hs \<Rightarrow> n \<le> 1"
  using run_capture_safe [of "[NextFrame sample_frame]" 1 sample_capture "\<lambda>_. 0" "[False, False]" "[]"]
    sample_frame_ok(1) by (auto simp: INT_MAX_def split: outcome.splits)

section \<open>Replay and shutdown\<close>

lemma inner_loop_frames:
  assumes "list_all raw_frame_ok fs" "length fs < length stops" "\<not> list_ex id stops"
    and "d + int (length (parsed_frames fs)) \<le> INT_MAX"
  shows "inner_loop polled 0 stops polls (map NextFrame fs @ [NextEnd]) d hs =
    Finished (d + int (length (parsed_frames fs))) (hs @ parsed_frames fs)"
  using assms
proof (induction fs arbitrary: stops d hs)
  case Nil
  then show ?case by (cases stops) auto
next
  case (Cons f fs)
  then obtain stops' where stops: "stops = False # stops'" by (cases stops) auto
  have "d \<noteq> INT_MAX" if "parsed_of f = Some p" for p using Cons.prems(4) that by auto
  then show ?case
    using Cons.prems Cons.IH [of stops'] by (auto simp: stops parse_frame split: option.splits)
qed



lemma inner_loop_overflow:
  assumes "list_all raw_frame_ok fs" "list_all (\<lambda>f. parsed_of f \<noteq> None) fs"
    and "length fs < length stops" "\<not> list_ex id stops"
    and "0 \<le> d" "d \<le> INT_MAX" "INT_MAX < d + int (length fs)"
  shows "inner_loop polled 0 stops polls (map NextFrame fs @ [NextEnd]) d hs = Undefined IntOverflow"
  using assms
proof (induction fs arbitrary: stops d hs)
  case (Cons f fs)
  then obtain stops' where stops: "stops = False # stops'" by (cases stops) auto
  obtain p where p: "parsed_of f = Some p" using Cons.prems(2) by auto
  show ?case
  proof (cases "d = INT_MAX")
    case True
    then show ?thesis using Cons.prems(1) by (simp add: stops parse_frame p)
  next
    case False
    then show ?thesis using Cons.prems Cons.IH [of stops' "d + 1"] by (simp add: stops parse_frame p)
  qed
qed simp

text \<open>
  The counter can overflow: replaying more than 2147483647 parsed packets without a limit
  reaches signed overflow of \<open>delivered\<close>, which is undefined behaviour.
\<close>

theorem capture_counter_overflows:
  assumes "handle c = Some h" "\<not> live c" "list_all raw_frame_ok fs" "list_all (\<lambda>f. parsed_of f \<noteq> None) fs"
    and "INT_MAX < int (length fs)" "\<not> list_ex id stops" "length fs + 2 \<le> length stops"
  shows "run_capture c fd 0 stops polls (map NextFrame fs @ [NextEnd]) = Undefined IntOverflow"
proof -
  obtain stops' where stops: "stops = False # stops'" using assms(6,7) by (cases stops) auto
  show ?thesis
    using inner_loop_overflow [OF assms(3,4), of stops' 0 False polls "[]"] assms
    by (simp add: run_capture_def stops INT_MAX_def)
qed

theorem capture_counter_overflows_witness:
  "\<exists>fs stops. run_capture sample_capture (\<lambda>_. 0) 0 stops [] (map NextFrame fs @ [NextEnd]) = Undefined IntOverflow"
proof -
  define n where "n = nat INT_MAX + 1"
  have "run_capture sample_capture (\<lambda>_. 0) 0 (replicate (n + 2) False) []
      (map NextFrame (replicate n sample_frame) @ [NextEnd]) = Undefined IntOverflow"
    by (rule capture_counter_overflows [where h = 3])
      (use sample_frame_ok in \<open>simp_all add: sample_capture_def list_all_iff list_ex_iff n_def INT_MAX_def\<close>)
  then show ?thesis by blast
qed

lemma loops_stop:
  assumes "n \<le> length polls" "n \<le> length nexts"
  shows "outer_loop polled m (replicate n False @ [True, True]) polls nexts d hs \<noteq> Running \<and>
    inner_loop polled m (replicate n False @ [True, True]) polls nexts d hs \<noteq> Running"
  using assms
proof (induction n arbitrary: polls nexts d hs)
  case (Suc n)
  obtain a polls' b nexts' where "polls = a # polls'" "nexts = b # nexts'"
    using Suc.prems by (metis Suc_le_length_iff)
  then show ?case
    using Suc by (auto split: poll_answer.split next_answer.split sum.split option.split)
qed simp

text \<open>
  C30. A stop request ends the capture: once the flag is set, a live or offline run returns after
  at most two more reads of it, whatever the other answers are (\<open>poll\<close> waits at most 100 ms each).
\<close>

theorem request_stop_ends_capture:
  assumes "n \<le> length polls" "n \<le> length nexts"
  shows "run_capture c fd max_packets (replicate n False @ [True, True]) polls nexts \<noteq> Running"
  using loops_stop [OF assms] by (simp add: run_capture_def Let_def split: option.split)

theorem request_stop_ends_capture_witness:
  "run_capture sample_capture (\<lambda>_. 0) 0 (replicate 1 False @ [True, True]) [PollTimeout] [NextNothing] \<noteq> Running"
  by (rule request_stop_ends_capture) simp_all

end
