(* ===== verification/Entropy.thy ===== *)
theory Entropy
  imports Complex_Main Packet_Queue
begin

text \<open>
  \<open>shannon_entropy\<close> of \<open>src/analysis/entropy.cpp\<close>: a histogram of 256 32-bit counters, then a sum
  over its bins. The \<open>double\<close>s of the code are real numbers here, so rounding is not modelled; the
  counters keep their width. The lemmas relate the loop to the textbook sum over byte values and
  bound it.
\<close>

section \<open>The code\<close>

fun count_bytes :: "u32 list \<Rightarrow> u8 list \<Rightarrow> u32 list" where
  "count_bytes histogram [] = histogram"
| "count_bytes histogram (b # bs) = count_bytes (histogram[unat b := histogram ! unat b + 1]) bs"

fun sum_bins :: "real \<Rightarrow> real \<Rightarrow> u32 list \<Rightarrow> real" where
  "sum_bins n entropy [] = entropy"
| "sum_bins n entropy (c # bins) =
     (if c = 0 then sum_bins n entropy bins
      else let p = real (unat c) / n in sum_bins n (entropy - p * log 2 p) bins)"

text \<open>A null pointer comes with length 0 and is treated like the empty payload.\<close>

definition shannon_entropy :: "u8 list \<Rightarrow> real" where
  "shannon_entropy data =
     (if data = [] then 0
      else sum_bins (real (length data)) 0 (count_bytes (replicate 256 0) data))"

section \<open>The textbook sum\<close>

definition share :: "u8 list \<Rightarrow> u8 \<Rightarrow> real" where
  "share data b = real (count_list data b) / real (length data)"

definition self_information :: "real \<Rightarrow> real" where
  "self_information p = (if p = 0 then 0 else - p * log 2 p)"

definition entropy_spec :: "u8 list \<Rightarrow> real" where
  "entropy_spec data = (\<Sum>b \<in> UNIV. self_information (share data b))"

lemma length_count_bytes [simp]: "length (count_bytes h data) = length h"
  by (induction h data rule: count_bytes.induct) simp_all

lemma count_bytes_nth:
  "length h = 256 \<Longrightarrow> count_bytes h data ! unat b = h ! unat b + of_nat (count_list data b)"
  by (induction h data rule: count_bytes.induct) (auto simp: nth_list_update unsigned_word_eqI)

lemma sum_bins_sum:
  "sum_bins n e bins = e + sum_list (map (\<lambda>c. self_information (real (unat c) / n)) bins)"
  if "n \<noteq> 0"
  using that by (induction n e bins rule: sum_bins.induct)
    (simp_all add: self_information_def Let_def unat_eq_zero)

lemma sum_bytes: "sum_list (map f xs) = (\<Sum>b \<in> UNIV. f (xs ! unat (b :: u8)))"
  if "length xs = 256" for f :: "'a \<Rightarrow> real"
proof -
  have "sum_list (map f xs) = (\<Sum>i \<in> {0..<256}. f (xs ! i))"
    using that by (simp add: sum_list_sum_nth)
  also have "\<dots> = (\<Sum>b \<in> UNIV. f (xs ! unat (b :: u8)))"
    by (rule sum.reindex_bij_witness [of _ unat "\<lambda>i. of_nat i :: u8"])
      (auto simp: unsigned_of_nat take_bit_nat_eq_self)
  finally show ?thesis .
qed

lemma shannon_entropy_spec:
  assumes "length data < 4294967296" "data \<noteq> []"
  shows "shannon_entropy data = entropy_spec data"
proof -
  let ?h = "count_bytes (replicate 256 0) data"
  have "unat (?h ! unat b) = count_list data b" for b
  proof -
    have "count_list data b < 4294967296"
      using assms(1) count_le_length [of data b] by simp
    then show ?thesis
      by (simp add: count_bytes_nth unsigned_of_nat take_bit_nat_eq_self)
  qed
  then show ?thesis
    using assms(2) by (simp add: shannon_entropy_def sum_bins_sum sum_bytes entropy_spec_def share_def
        del: of_nat_unat)
qed

section \<open>Bounds\<close>

lemma share_range: "0 \<le> share data b" "share data b \<le> 1"
  using count_le_length [of data b] by (auto simp: share_def divide_le_eq_1 count_le_length)

lemma sum_share: "data \<noteq> [] \<Longrightarrow> (\<Sum>b \<in> UNIV. share data b) = 1"
proof -
  assume "data \<noteq> []"
  have "(\<Sum>b \<in> UNIV. count_list data b) = length data"
    using sum_count_set [of data UNIV] by simp
  then have "(\<Sum>b \<in> UNIV. real (count_list data b)) = real (length data)"
    by (metis of_nat_sum)
  then show ?thesis using \<open>data \<noteq> []\<close> by (simp add: share_def flip: sum_divide_distrib)
qed

lemma self_information_nonneg: "0 \<le> p \<Longrightarrow> p \<le> 1 \<Longrightarrow> 0 \<le> self_information p"
  by (auto simp: self_information_def mult_le_0_iff)

text \<open>Gibbs' inequality, in the form used below: comparing with a uniform share \<open>1 / k\<close>.\<close>

lemma self_information_le:
  assumes "0 \<le> p" "0 < k"
  shows "self_information p \<le> p * log 2 k + (1 / k - p) / ln 2"
proof (cases "p = 0")
  case False
  then have p: "0 < p" using assms(1) by simp
  have "ln (1 / (k * p)) \<le> 1 / (k * p) - 1" using p assms(2) by (intro ln_le_minus_one) simp
  then have "p * ln (1 / (k * p)) \<le> p * (1 / (k * p) - 1)" using p by simp
  also have "\<dots> = 1 / k - p" using p assms(2) by (simp add: field_simps)
  finally have "p * ln (1 / (k * p)) / ln 2 \<le> (1 / k - p) / ln 2" by (intro divide_right_mono) simp_all
  moreover have "p * ln (1 / (k * p)) / ln 2 = - p * log 2 k - p * log 2 p"
    using p assms(2) by (simp add: log_def ln_div ln_mult field_simps)
  ultimately show ?thesis using False by (simp add: self_information_def)
qed (use assms in \<open>simp add: self_information_def\<close>)

lemma entropy_le_log_distinct:
  assumes "data \<noteq> []"
  shows "entropy_spec data \<le> log 2 (real (card (set data)))"
proof -
  let ?k = "real (card (set data))"
  have k: "0 < ?k" using assms by (simp add: card_gt_0_iff)
  have zero: "share data b = 0" if "b \<notin> set data" for b
    using that by (simp add: share_def count_list_0_iff)
  have "entropy_spec data = (\<Sum>b \<in> set data. self_information (share data b))"
    unfolding entropy_spec_def using zero
    by (intro sum.mono_neutral_right) (auto simp: self_information_def)
  also have "\<dots> \<le> (\<Sum>b \<in> set data. share data b * log 2 ?k + (1 / ?k - share data b) / ln 2)"
    using share_range(1) k by (intro sum_mono self_information_le)
  also have "\<dots> = (\<Sum>b \<in> set data. share data b) * log 2 ?k
      + ((\<Sum>b \<in> set data. 1 / ?k) - (\<Sum>b \<in> set data. share data b)) / ln 2"
    by (simp add: sum.distrib sum_distrib_right sum_divide_distrib sum_subtractf diff_divide_distrib)
  also have "(\<Sum>b \<in> set data. share data b) = 1"
    using sum_share [OF assms] zero by (subst sum.mono_neutral_left [of UNIV "set data"]) auto
  finally show ?thesis using k assms by simp
qed

lemma log2_powers [simp]: "log 2 128 = 7" "log 2 256 = 8"
  using log_pow_cancel [of 2 7] log_pow_cancel [of 2 8] by simp_all

lemma log2_le_8: "n \<le> 256 \<Longrightarrow> 0 < n \<Longrightarrow> log 2 (real n) \<le> 8"
proof -
  assume "n \<le> 256" "0 < n"
  then have "log 2 (real n) \<le> log 2 256" by (intro log_mono) simp_all
  then show ?thesis by simp
qed

lemma card_bytes_le: "card (A :: u8 set) \<le> 256"
proof -
  have "card A \<le> card (UNIV :: u8 set)" by (rule card_mono) simp_all
  also have "\<dots> = 256" by (simp add: card_word)
  finally show ?thesis .
qed

text \<open>
  C21. The result is an entropy: for a payload of fewer than \<open>2 ^ 32\<close> bytes it lies between 0 and
  8 bits per byte, and it is at most the logarithm of the number of distinct bytes, so at most
  that of the payload's length. A payload of fewer than 128 bytes thus never reaches the default
  threshold of 7.0, although payloads from 32 bytes on are checked.
\<close>

theorem shannon_entropy_range:
  assumes "length data < 4294967296"
  shows "0 \<le> shannon_entropy data \<and> shannon_entropy data \<le> 8 \<and>
    (data \<noteq> [] \<longrightarrow> shannon_entropy data \<le> log 2 (real (card (set data)))
      \<and> shannon_entropy data \<le> log 2 (real (length data))) \<and>
    (length data < 128 \<longrightarrow> shannon_entropy data < 7)"
proof (cases "data = []")
  case False
  have eq: "shannon_entropy data = entropy_spec data" using assms False by (rule shannon_entropy_spec)
  have "0 \<le> entropy_spec data"
    unfolding entropy_spec_def by (intro sum_nonneg self_information_nonneg share_range)
  moreover have distinct: "entropy_spec data \<le> log 2 (real (card (set data)))"
    using False by (rule entropy_le_log_distinct)
  moreover have "log 2 (real (card (set data))) \<le> 8"
    using False card_bytes_le by (intro log2_le_8) (simp_all add: card_gt_0_iff)
  moreover have len: "log 2 (real (card (set data))) \<le> log 2 (real (length data))"
    using False card_length [of data] by (intro log_mono) (simp_all add: card_gt_0_iff)
  moreover have "log 2 (real (length data)) < 7" if "length data < 128"
  proof -
    have "log 2 (real (length data)) < log 2 128"
      using that False by (intro log_less) simp_all
    then show ?thesis by simp
  qed
  ultimately show ?thesis unfolding eq by force
qed (simp add: shannon_entropy_def)

theorem shannon_entropy_range_witness:
  "shannon_entropy [1, 2, 3] \<le> log 2 3 \<and> shannon_entropy [1, 2, 3] < 7"
  using shannon_entropy_range [of "[1, 2, 3]"] by simp

section \<open>Extreme and equal payloads\<close>

lemma count_list_mset: "count_list xs b = count (mset xs) b"
  by (induction xs) auto

text \<open>
  Entropy depends on the byte counts only: rearranging a payload does not change it. It is 0
  for a payload of one repeated byte and 8 when all 256 byte values are equally frequent.
\<close>

theorem shannon_entropy_values:
  assumes "length data < 4294967296" "data \<noteq> []"
  shows "(mset data = mset data' \<longrightarrow> shannon_entropy data = shannon_entropy data') \<and>
    (set data = {b} \<longrightarrow> shannon_entropy data = 0) \<and>
    ((\<forall>b. 256 * count_list data b = length data) \<longrightarrow> shannon_entropy data = 8)"
proof (intro conjI impI)
  assume m: "mset data = mset data'"
  then have "length data = length data'" "share data = share data'"
    by (metis size_mset) (simp add: fun_eq_iff share_def count_list_mset, metis m size_mset)
  then show "shannon_entropy data = shannon_entropy data'"
    using assms shannon_entropy_spec [of data] shannon_entropy_spec [of data']
    by (cases data') (auto simp: entropy_spec_def)
next
  assume "set data = {b}"
  then have "shannon_entropy data \<le> log 2 1" 
    using entropy_le_log_distinct [OF assms(2)] shannon_entropy_spec [OF assms] by simp
  moreover have "0 \<le> entropy_spec data"
    unfolding entropy_spec_def by (intro sum_nonneg self_information_nonneg share_range)
  ultimately show "shannon_entropy data = 0" using shannon_entropy_spec [OF assms] by simp
next
  assume uniform: "\<forall>b. 256 * count_list data b = length data"
  have share: "share data b = 1 / 256" for b
  proof -
    have "real (length data) = 256 * real (count_list data b)"
      using uniform by (metis of_nat_mult of_nat_numeral)
    moreover have "count_list data b \<noteq> 0" using uniform assms(2) by (metis length_0_conv mult_0_right)
    ultimately show ?thesis by (simp add: share_def)
  qed
  have "self_information (1 / 256) = 1 / 32" by (simp add: self_information_def log_divide)
  then have "entropy_spec data = 8" unfolding entropy_spec_def share by (simp add: card_word)
  then show "shannon_entropy data = 8" using shannon_entropy_spec [OF assms] by simp
qed

theorem shannon_entropy_values_witness:
  "shannon_entropy [65, 65] = 0 \<and> shannon_entropy [1, 2] = shannon_entropy [2, 1]"
  using shannon_entropy_values [of "[65, 65]" _ 65] shannon_entropy_values [of "[1, 2]" "[2, 1]"]
  by (simp add: add_mset_commute)

text \<open>
  C20. The loops compute the textbook entropy: for a payload of fewer than \<open>2 ^ 32\<close> bytes no counter
  wraps, and the result is the sum of \<open>- p log\<^sub>2 p\<close> over the shares \<open>p\<close> of the 256 byte values.
\<close>

theorem shannon_entropy_correct:
  assumes "length data < 4294967296" "data \<noteq> []"
  shows "shannon_entropy data = (\<Sum>b \<in> UNIV. if count_list data b = 0 then 0
      else - (real (count_list data b) / real (length data))
           * log 2 (real (count_list data b) / real (length data)))"
  unfolding shannon_entropy_spec [OF assms] entropy_spec_def
  using assms(2) by (intro sum.cong) (auto simp: share_def self_information_def)

theorem shannon_entropy_correct_witness:
  "shannon_entropy [1, 2] = (\<Sum>b \<in> UNIV. if count_list [1, 2] b = 0 then 0
      else - (real (count_list [1, 2] (b :: u8)) / real (length [1, 2 :: u8]))
           * log 2 (real (count_list [1, 2] b) / real (length [1, 2 :: u8])))"
  by (rule shannon_entropy_correct) simp_all

end
