(* ===== verification/Signature_DB.thy ===== *)
theory Signature_DB
  imports Packet_Queue
begin

text \<open>
  Signature matching of \<open>src/analysis/signature_db.cpp\<close>: FNV-1a over the whole payload, in 64-bit
  words, looked up in a set of known-bad hashes. The database is shown to match what was added
  and to be determined by the hash; the hash is shown to separate any two payloads of one length
  that differ in a single byte.
\<close>

unbundle bit_operations_syntax

section \<open>FNV-1a\<close>

definition kFnvOffsetBasis :: u64 where "kFnvOffsetBasis = 0xcbf29ce484222325"
definition kFnvPrime :: u64 where "kFnvPrime = 0x100000001b3"

text \<open>The bytes of the EICAR test string; the C string's terminating zero is not part of it.\<close>

definition bytes_of_string :: "string \<Rightarrow> u8 list" where
  "bytes_of_string s = map of_char s"

definition kEicarTestString :: string where
  "kEicarTestString = ''X5O!P%@AP[4'' @ [CHR 0x5C] @ ''PZX54(P^)7CC)7}$EICAR-STANDARD-ANTIVIRUS-TEST-FILE!$H+H*''"

definition fnv_step :: "u64 \<Rightarrow> u8 \<Rightarrow> u64" where
  "fnv_step hash b = (hash XOR ucast b) * kFnvPrime"

fun fnv_loop :: "u64 \<Rightarrow> u8 list \<Rightarrow> u64" where
  "fnv_loop hash [] = hash"
| "fnv_loop hash (b # bs) = fnv_loop (fnv_step hash b) bs"

definition fnv1a_hash :: "u8 list \<Rightarrow> u64" where
  "fnv1a_hash data = fnv_loop kFnvOffsetBasis data"

section \<open>The database\<close>

record SignatureDatabase =
  known_bad_hashes :: "u64 set"

definition add_hash :: "u64 \<Rightarrow> SignatureDatabase \<Rightarrow> SignatureDatabase" where
  "add_hash hash db = db\<lparr>known_bad_hashes := insert hash (known_bad_hashes db)\<rparr>"

definition add_signature :: "u8 list \<Rightarrow> SignatureDatabase \<Rightarrow> SignatureDatabase" where
  "add_signature raw_bytes db = add_hash (fnv1a_hash raw_bytes) db"

definition new_SignatureDatabase :: SignatureDatabase where
  "new_SignatureDatabase =
     add_signature (bytes_of_string kEicarTestString) \<lparr>known_bad_hashes = {}\<rparr>"

text \<open>A null pointer comes with length 0 and is treated like the empty payload.\<close>

definition matches :: "SignatureDatabase \<Rightarrow> u8 list \<Rightarrow> bool" where
  "matches db data = (if data = [] then False else fnv1a_hash data \<in> known_bad_hashes db)"

section \<open>The hash step can be undone\<close>

text \<open>
  The prime is odd, so multiplying by it has an inverse modulo \<open>2 ^ 64\<close>, and so has the whole
  step for a fixed byte.
\<close>

definition kFnvPrimeInverse :: u64 where "kFnvPrimeInverse = 0xCE965057AFF6957B"

lemma fnv_prime_inverse: "kFnvPrime * kFnvPrimeInverse = 1"
  by (simp add: kFnvPrime_def kFnvPrimeInverse_def)

lemma mult_prime_inj: "x * kFnvPrime = y * kFnvPrime \<longleftrightarrow> x = y"
proof
  assume "x * kFnvPrime = y * kFnvPrime"
  then have "x * (kFnvPrime * kFnvPrimeInverse) = y * (kFnvPrime * kFnvPrimeInverse)"
    by (simp flip: mult.assoc)
  then show "x = y" by (simp add: fnv_prime_inverse)
qed simp

lemma xor_left_inj: "(a XOR x = a XOR y) = (x = y)" for a :: u64
proof
  assume "a XOR x = a XOR y"
  then have "a XOR (a XOR x) = a XOR (a XOR y)" by simp
  then show "x = y" by (simp flip: xor.assoc)
qed simp

lemma xor_right_inj: "(x XOR a = y XOR a) = (x = y)" for a :: u64
  using xor_left_inj by (simp add: xor.commute)

lemma ucast_u8_inj: "(ucast a :: u64) = ucast b \<longleftrightarrow> a = b" for a b :: u8
proof
  assume "(ucast a :: u64) = ucast b"
  then have "unat (ucast a :: u64) = unat (ucast b :: u64)" by simp
  then have "unat a = unat b"
    by (simp add: unsigned_ucast_eq take_bit_nat_eq_self less_trans [OF unat_u8_bound])
  then show "a = b" by (rule unsigned_word_eqI)
qed simp

lemma fnv_step_inj_hash: "fnv_step h b = fnv_step h' b \<longleftrightarrow> h = h'"
  by (simp add: fnv_step_def mult_prime_inj xor_right_inj)

lemma fnv_step_inj_byte: "fnv_step h a = fnv_step h b \<longleftrightarrow> a = b"
  by (simp add: fnv_step_def mult_prime_inj xor_left_inj ucast_u8_inj)

lemma fnv_loop_inj: "fnv_loop h bs = fnv_loop h' bs \<longleftrightarrow> h = h'"
  by (induction bs arbitrary: h h') (simp_all add: fnv_step_inj_hash)

lemma fnv_loop_append: "fnv_loop h (xs @ ys) = fnv_loop (fnv_loop h xs) ys"
  by (induction xs arbitrary: h) simp_all

text \<open>Two of the published FNV-1a test vectors.\<close>

lemma fnv1a_vectors:
  "fnv1a_hash [] = 0xcbf29ce484222325"
  "fnv1a_hash (bytes_of_string ''a'') = 0xaf63dc4c8601ec8c"
  by (simp_all add: fnv1a_hash_def bytes_of_string_def fnv_step_def kFnvOffsetBasis_def kFnvPrime_def)

section \<open>Properties\<close>

text \<open>
  The database matches exactly the payloads whose hash was registered: what
  \<open>add_signature\<close> added matches from then on, earlier entries keep matching, the freshly built
  database matches the EICAR string, and an empty payload never matches.
\<close>

theorem signature_match_correct:
  "(matches (add_signature sig db) p \<longleftrightarrow> p \<noteq> [] \<and> (fnv1a_hash p = fnv1a_hash sig \<or> matches db p)) \<and>
   (matches new_SignatureDatabase p \<longleftrightarrow>
     p \<noteq> [] \<and> fnv1a_hash p = fnv1a_hash (bytes_of_string kEicarTestString))"
  by (auto simp: matches_def add_signature_def add_hash_def new_SignatureDatabase_def)

text \<open>
  A payload that differs from a known-bad one of the same length in exactly one byte has a
  different hash, so a single corrupted byte never matches that signature.
\<close>

theorem fnv1a_single_byte:
  "fnv1a_hash (xs @ a # ys) = fnv1a_hash (xs @ b # ys) \<longleftrightarrow> a = b"
  by (simp add: fnv1a_hash_def fnv_loop_append fnv_loop_inj fnv_step_inj_byte)

end
