(* ===== verification/Alert.thy ===== *)
theory Alert
  imports Packet
begin

text \<open>
  Alerts of \<open>include/netsentinel/alert.hpp\<close> and their one-line rendering in
  \<open>src/analysis/alert.cpp\<close>. The dash in the format strings is one character of three UTF-8 bytes.
\<close>

datatype AnomalyType = kPortScan | kHighEntropyPayload | kSynFlood | kSignatureMatch

record Alert =
  atype :: AnomalyType
  alert_src_ip :: u32
  alert_dst_ip :: u32
  alert_src_port :: u16
  alert_dst_port :: u16
  detail :: string

fun anomaly_type_to_string :: "AnomalyType \<Rightarrow> string" where
  "anomaly_type_to_string kPortScan = ''PORT_SCAN''"
| "anomaly_type_to_string kHighEntropyPayload = ''HIGH_ENTROPY_PAYLOAD''"
| "anomaly_type_to_string kSynFlood = ''SYN_FLOOD''"
| "anomaly_type_to_string kSignatureMatch = ''SIGNATURE_MATCH''"

definition em_dash :: string where
  "em_dash = [CHR 0xE2, CHR 0x80, CHR 0x94]"

text \<open>The text before it is cut to the 256-byte buffer.\<close>

definition alert_text :: "Alert \<Rightarrow> string" where
  "alert_text alert =
     (if alert_dst_port alert \<noteq> 0 \<or> alert_src_port alert \<noteq> 0
      then ''[ALERT] '' @ pad_right 21 (anomaly_type_to_string (atype alert)) @
           '' src='' @ ipv4_to_string (alert_src_ip alert) @ '':'' @ dec_nat (unat (alert_src_port alert)) @
           '' dst='' @ ipv4_to_string (alert_dst_ip alert) @ '':'' @ dec_nat (unat (alert_dst_port alert)) @
           '' '' @ em_dash @ '' '' @ detail alert
      else ''[ALERT] '' @ pad_right 21 (anomaly_type_to_string (atype alert)) @
           '' src='' @ ipv4_to_string (alert_src_ip alert) @ '' '' @ em_dash @ '' '' @ detail alert)"

definition format_alert :: "Alert \<Rightarrow> string" where
  "format_alert alert = snprintf 256 (alert_text alert)"

lemma length_anomaly_type [printf_length]: "length (anomaly_type_to_string t) \<le> 20"
  by (cases t) simp_all

lemma length_pad_type: "length (pad_right 21 (anomaly_type_to_string t)) = 21"
  using length_anomaly_type [of t] by (simp add: pad_right_def)

lemma length_dec_port [printf_length]: "length (dec_nat (unat (p :: u16))) \<le> 5"
proof (rule length_dec_nat)
  show "unat p < 10 ^ 5" by (rule order_less_trans [OF unat_u16_bound]) simp
qed simp

lemma length_alert_text: "length (alert_text alert) \<le> 86 + length (detail alert)"
  using length_ipv4_to_string [of "alert_src_ip alert"] length_ipv4_to_string [of "alert_dst_ip alert"]
    length_dec_port [of "alert_src_port alert"] length_dec_port [of "alert_dst_port alert"]
  by (simp add: alert_text_def length_pad_type em_dash_def)

text \<open>The details the rules build, of fewer than 96 bytes, leave the line room in its buffer.\<close>

lemma format_alert_fits: "length (detail alert) < 96 \<Longrightarrow> format_alert alert = alert_text alert"
  using length_alert_text [of alert] by (simp add: format_alert_def snprintf_fits)

end
