(* ===== verification/Flow_Tracker.thy ===== *)
theory Flow_Tracker
  imports Alert Packet_Queue
begin

text \<open>
  The per-source state of \<open>include/netsentinel/flow_tracker.hpp\<close> and
  \<open>src/analysis/flow_tracker.cpp\<close>: the port-scan and SYN-flood rules over sliding windows, the
  debounce of their alerts, the sharded map and its eviction sweep. Times are milliseconds as
  mathematical integers (\<open>Flow_Bounds\<close> shows that the code's 64-bit ones never overflow); the
  counters that can wrap keep their width. \<open>std::hash\<close> is an argument of the operations that use
  it, and so is the order in which a sweep visits the entries of an unordered map.
\<close>

unbundle bit_operations_syntax

section \<open>Configuration and state\<close>

record FlowTrackerConfig =
  num_shards :: size_t
  port_scan_window_ms :: int
  port_scan_distinct_port_threshold :: size_t
  syn_flood_window_ms :: int
  syn_flood_pending_threshold :: size_t
  alert_debounce_ms :: int
  idle_ttl_ms :: int
  sweep_interval_packets :: u64
  max_tracked_ips_per_shard :: size_t

definition default_config :: FlowTrackerConfig where
  "default_config = \<lparr>num_shards = 16, port_scan_window_ms = 5000,
     port_scan_distinct_port_threshold = 10, syn_flood_window_ms = 2000,
     syn_flood_pending_threshold = 20, alert_debounce_ms = 2000, idle_ttl_ms = 60000,
     sweep_interval_packets = 256, max_tracked_ips_per_shard = 1024\<rparr>"

record FlowKey =
  key_src_ip :: u32
  key_dst_ip :: u32
  key_src_port :: u16
  key_dst_port :: u16

record PerIpState =
  recent_dst_ports :: "(int \<times> u16) list"
  port_counts :: "(u16 \<times> u32) list"
  pending_syns :: "(FlowKey \<times> int) list"
  pending_syn_order :: "(int \<times> FlowKey) list"
  last_seen_ms :: int
  last_port_scan_alert_ms :: "int option"
  last_syn_flood_alert_ms :: "int option"

definition new_PerIpState :: PerIpState where
  "new_PerIpState = \<lparr>recent_dst_ports = [], port_counts = [], pending_syns = [],
     pending_syn_order = [], last_seen_ms = 0, last_port_scan_alert_ms = None,
     last_syn_flood_alert_ms = None\<rparr>"

record Shard =
  per_ip :: "(u32 \<times> PerIpState) list"
  observations_since_sweep :: u64

definition new_Shard :: Shard where
  "new_Shard = \<lparr>per_ip = [], observations_since_sweep = 0\<rparr>"

record FlowTracker =
  config :: FlowTrackerConfig
  shards :: "Shard list"

section \<open>Classification of packets\<close>

text \<open>C++ integer division rounds toward zero, as \<open>sdiv\<close> does.\<close>

definition timeval_to_ms :: "timeval \<Rightarrow> int" where
  "timeval_to_ms tv = tv_sec tv * 1000 + tv_usec tv sdiv 1000"

definition is_connection_attempt :: "ParsedPacket \<Rightarrow> bool" where
  "is_connection_attempt p =
     (if transport p = kTCP then
        tcp_flags p AND kTcpFlagSyn \<noteq> 0 \<and> tcp_flags p AND kTcpFlagAck = 0
      else if transport p = kUDP then src_port p \<ge> 1024
      else False)"

text \<open>\<open>FlowKeyHash\<close>, over the two \<open>std::hash\<close> instances it calls.\<close>

definition hash_combine :: "u64 \<Rightarrow> u64 \<Rightarrow> u64" where
  "hash_combine h x = h XOR (x + 0x9e3779b9 + push_bit 6 h + drop_bit 2 h)"

definition FlowKeyHash :: "(u32 \<Rightarrow> u64) \<Rightarrow> (u16 \<Rightarrow> u64) \<Rightarrow> FlowKey \<Rightarrow> u64" where
  "FlowKeyHash hash32 hash16 k =
     (let h = hash32 (key_src_ip k);
          h = hash_combine h (hash32 (key_dst_ip k));
          h = hash_combine h (hash16 (key_src_port k))
      in hash_combine h (hash16 (key_dst_port k)))"

section \<open>Debounce\<close>

definition debounce_allows :: "FlowTrackerConfig \<Rightarrow> int option \<Rightarrow> int \<Rightarrow> bool \<times> int option" where
  "debounce_allows cfg last_alert_ms now_ms =
     (case last_alert_ms of
        None \<Rightarrow> (True, Some now_ms)
      | Some t \<Rightarrow>
          if now_ms - t < alert_debounce_ms cfg then (False, last_alert_ms)
          else (True, Some now_ms))"

section \<open>The port-scan rule\<close>

text \<open>\<open>++port_counts[port]\<close>, where \<open>operator[]\<close> inserts 0 for a missing key.\<close>

definition bump_count :: "u16 \<Rightarrow> (u16 \<times> u32) list \<Rightarrow> (u16 \<times> u32) list" where
  "bump_count port counts =
     AList.update port ((case map_of counts port of None \<Rightarrow> 0 | Some c \<Rightarrow> c) + 1) counts"

definition drop_count :: "u16 \<Rightarrow> (u16 \<times> u32) list \<Rightarrow> (u16 \<times> u32) list" where
  "drop_count port counts =
     (case map_of counts port of
        None \<Rightarrow> counts
      | Some c \<Rightarrow> if c - 1 = 0 then AList.delete port counts
                  else AList.update port (c - 1) counts)"

fun expire_ports :: "int \<Rightarrow> (int \<times> u16) list \<Rightarrow> (u16 \<times> u32) list
    \<Rightarrow> (int \<times> u16) list \<times> (u16 \<times> u32) list" where
  "expire_ports cutoff [] counts = ([], counts)"
| "expire_ports cutoff ((t, port) # rest) counts =
     (if t < cutoff then expire_ports cutoff rest (drop_count port counts)
      else ((t, port) # rest, counts))"

definition port_scan_detail :: "size_t \<Rightarrow> int \<Rightarrow> string" where
  "port_scan_detail distinct_ports window =
     snprintf 96 (dec_nat distinct_ports @ '' distinct ports in '' @ dec_int window @ ''ms'')"

definition port_scan_rule ::
  "FlowTrackerConfig \<Rightarrow> ParsedPacket \<Rightarrow> int \<Rightarrow> PerIpState \<Rightarrow> PerIpState \<times> Alert list" where
  "port_scan_rule cfg p now_ms state =
     (if is_connection_attempt p then
        let (recent, counts) = expire_ports (now_ms - port_scan_window_ms cfg)
              (recent_dst_ports state @ [(now_ms, dst_port p)])
              (bump_count (dst_port p) (port_counts state));
            state = state\<lparr>recent_dst_ports := recent, port_counts := counts\<rparr>;
            distinct_ports = length counts
        in if distinct_ports \<ge> port_scan_distinct_port_threshold cfg then
             let (allowed, stamp) = debounce_allows cfg (last_port_scan_alert_ms state) now_ms
             in (state\<lparr>last_port_scan_alert_ms := stamp\<rparr>,
                 if allowed then
                   [\<lparr>atype = kPortScan, alert_src_ip = src_ip p, alert_dst_ip = dst_ip p,
                     alert_src_port = 0, alert_dst_port = 0,
                     detail = port_scan_detail distinct_ports (port_scan_window_ms cfg)\<rparr>]
                 else [])
           else (state, [])
      else (state, []))"

section \<open>The SYN-flood rule\<close>

fun expire_syns :: "int \<Rightarrow> (int \<times> FlowKey) list \<Rightarrow> (FlowKey \<times> int) list
    \<Rightarrow> (int \<times> FlowKey) list \<times> (FlowKey \<times> int) list" where
  "expire_syns cutoff [] pending = ([], pending)"
| "expire_syns cutoff ((queued_ms, queued_key) # rest) pending =
     (if queued_ms < cutoff then
        expire_syns cutoff rest
          (if map_of pending queued_key = Some queued_ms then AList.delete queued_key pending
           else pending)
      else ((queued_ms, queued_key) # rest, pending))"

definition flow_key :: "ParsedPacket \<Rightarrow> FlowKey" where
  "flow_key p = \<lparr>key_src_ip = src_ip p, key_dst_ip = dst_ip p,
     key_src_port = src_port p, key_dst_port = dst_port p\<rparr>"

definition note_handshake :: "ParsedPacket \<Rightarrow> int \<Rightarrow> PerIpState \<Rightarrow> PerIpState" where
  "note_handshake p now_ms state =
     (let key = flow_key p;
          is_syn = (tcp_flags p AND kTcpFlagSyn \<noteq> 0);
          is_ack = (tcp_flags p AND kTcpFlagAck \<noteq> 0)
      in if is_syn \<and> \<not> is_ack then
           state\<lparr>pending_syns := AList.update key now_ms (pending_syns state),
                 pending_syn_order := pending_syn_order state @ [(now_ms, key)]\<rparr>
         else if is_ack then state\<lparr>pending_syns := AList.delete key (pending_syns state)\<rparr>
         else state)"

definition syn_flood_detail :: "size_t \<Rightarrow> int \<Rightarrow> string" where
  "syn_flood_detail pending window =
     snprintf 96 (dec_nat pending @ '' pending SYNs in '' @ dec_int window @ ''ms'')"

definition syn_flood_rule ::
  "FlowTrackerConfig \<Rightarrow> ParsedPacket \<Rightarrow> int \<Rightarrow> PerIpState \<Rightarrow> PerIpState \<times> Alert list" where
  "syn_flood_rule cfg p now_ms state =
     (if transport p = kTCP then
        let state = note_handshake p now_ms state;
            (order, pending) = expire_syns (now_ms - syn_flood_window_ms cfg)
              (pending_syn_order state) (pending_syns state);
            state = state\<lparr>pending_syn_order := order, pending_syns := pending\<rparr>
        in if length pending \<ge> syn_flood_pending_threshold cfg then
             let (allowed, stamp) = debounce_allows cfg (last_syn_flood_alert_ms state) now_ms
             in (state\<lparr>last_syn_flood_alert_ms := stamp\<rparr>,
                 if allowed then
                   [\<lparr>atype = kSynFlood, alert_src_ip = src_ip p, alert_dst_ip = 0,
                     alert_src_port = 0, alert_dst_port = 0,
                     detail = syn_flood_detail (length pending) (syn_flood_window_ms cfg)\<rparr>]
                 else [])
           else (state, [])
      else (state, []))"

text \<open>The block of \<open>observe\<close> that holds the reference to one source's state.\<close>

definition observe_ip ::
  "FlowTrackerConfig \<Rightarrow> ParsedPacket \<Rightarrow> PerIpState \<Rightarrow> PerIpState \<times> Alert list" where
  "observe_ip cfg p state =
     (let now_ms = timeval_to_ms (timestamp p);
          state = state\<lparr>last_seen_ms := now_ms\<rparr>;
          (state, scan_alerts) = port_scan_rule cfg p now_ms state;
          (state, flood_alerts) = syn_flood_rule cfg p now_ms state
      in (state, scan_alerts @ flood_alerts))"

section \<open>The sharded map and its sweep\<close>

definition new_FlowTracker :: "FlowTrackerConfig \<Rightarrow> FlowTracker" where
  "new_FlowTracker cfg =
     (let cfg = (if num_shards cfg = 0 then cfg\<lparr>num_shards := 1\<rparr> else cfg)
      in \<lparr>config = cfg, shards = replicate (num_shards cfg) new_Shard\<rparr>)"

definition shard_for :: "(u32 \<Rightarrow> u64) \<Rightarrow> FlowTracker \<Rightarrow> u32 \<Rightarrow> nat" where
  "shard_for hash32 ft ip = unat (hash32 ip) mod length (shards ft)"

text \<open>
  The two loops of \<open>evict_stale\<close>, over the entries in the container's iteration order. Erasing
  an entry leaves the order of the others as it was, so both loops see the same order. The second
  carries the current size of the map.
\<close>

fun evict_idle :: "int \<Rightarrow> u32 \<Rightarrow> (u32 \<times> PerIpState) list \<Rightarrow> (u32 \<times> PerIpState) list" where
  "evict_idle idle_cutoff keep_ip [] = []"
| "evict_idle idle_cutoff keep_ip ((ip, state) # rest) =
     (if ip \<noteq> keep_ip \<and> last_seen_ms state < idle_cutoff then evict_idle idle_cutoff keep_ip rest
      else (ip, state) # evict_idle idle_cutoff keep_ip rest)"

fun evict_over_cap :: "size_t \<Rightarrow> u32 \<Rightarrow> size_t \<Rightarrow> (u32 \<times> PerIpState) list
    \<Rightarrow> (u32 \<times> PerIpState) list" where
  "evict_over_cap cap keep_ip n [] = []"
| "evict_over_cap cap keep_ip n ((ip, state) # rest) =
     (if n > cap then
        (if ip = keep_ip then (ip, state) # evict_over_cap cap keep_ip n rest
         else evict_over_cap cap keep_ip (n - 1) rest)
      else (ip, state) # rest)"

type_synonym visit_order = "(u32 \<times> PerIpState) list \<Rightarrow> (u32 \<times> PerIpState) list"

definition evict_stale ::
  "visit_order \<Rightarrow> FlowTrackerConfig \<Rightarrow> Shard \<Rightarrow> int \<Rightarrow> u32 \<Rightarrow> Shard" where
  "evict_stale visit cfg shard now_ms keep_ip =
     (let kept = evict_idle (now_ms - idle_ttl_ms cfg) keep_ip (visit (per_ip shard))
      in shard\<lparr>per_ip :=
           evict_over_cap (max_tracked_ips_per_shard cfg) keep_ip (length kept) kept\<rparr>)"

text \<open>\<open>shard.per_ip[ip]\<close> as a reference: a default state when the key is missing.\<close>

definition ip_state :: "Shard \<Rightarrow> u32 \<Rightarrow> PerIpState" where
  "ip_state shard ip = (case map_of (per_ip shard) ip of None \<Rightarrow> new_PerIpState | Some st \<Rightarrow> st)"

definition observe_shard ::
  "visit_order \<Rightarrow> FlowTrackerConfig \<Rightarrow> ParsedPacket \<Rightarrow> Shard \<Rightarrow> Shard \<times> Alert list" where
  "observe_shard visit cfg p shard =
     (let now_ms = timeval_to_ms (timestamp p);
          (state, alerts) = observe_ip cfg p (ip_state shard (src_ip p));
          shard = shard\<lparr>per_ip := AList.update (src_ip p) state (per_ip shard),
                        observations_since_sweep := observations_since_sweep shard + 1\<rparr>
      in if observations_since_sweep shard \<ge> sweep_interval_packets cfg then
           (evict_stale visit cfg (shard\<lparr>observations_since_sweep := 0\<rparr>) now_ms (src_ip p), alerts)
         else (shard, alerts))"

definition observe ::
  "visit_order \<Rightarrow> (u32 \<Rightarrow> u64) \<Rightarrow> FlowTracker \<Rightarrow> QueuedPacket \<Rightarrow> FlowTracker \<times> Alert list" where
  "observe visit hash32 ft packet =
     (if \<not> has_ip (meta packet) then (ft, [])
      else
        let i = shard_for hash32 ft (src_ip (meta packet));
            (shard, alerts) = observe_shard visit (config ft) (meta packet) (shards ft ! i)
        in (ft\<lparr>shards := (shards ft)[i := shard]\<rparr>, alerts))"

definition tracked_ip_count :: "FlowTracker \<Rightarrow> size_t" where
  "tracked_ip_count ft = sum_list (map (\<lambda>shard. length (per_ip shard)) (shards ft))"

text \<open>
  Each call of \<open>observe\<close> holds the shard's mutex to the end, so concurrent workers act on a shard
  one call after the other: a run is the sequence of the calls in lock order, each with the
  iteration order its sweep would meet. It returns the alerts of every call.
\<close>

fun observe_all :: "(u32 \<Rightarrow> u64) \<Rightarrow> (visit_order \<times> QueuedPacket) list \<Rightarrow> FlowTracker
    \<Rightarrow> FlowTracker \<times> Alert list list" where
  "observe_all hash32 [] ft = (ft, [])"
| "observe_all hash32 ((visit, packet) # run) ft =
     (let (ft, alerts) = observe visit hash32 ft packet;
          (ft, later) = observe_all hash32 run ft
      in (ft, alerts # later))"

definition reorders :: "visit_order \<Rightarrow> bool" where
  "reorders visit \<longleftrightarrow> (\<forall>xs. mset (visit xs) = mset xs)"

end
