(* ===== verification/Flow_Window.thy ===== *)
theory Flow_Window
  imports Flow_Tracker
begin

text \<open>
  What the two stateful rules promise for one source, stated over its whole packet history, and
  the proof that the incremental state of \<open>PerIpState\<close> computes it. The specification recounts:
  the distinct ports of all connection attempts in the window, the connections with a SYN in the
  window and no later ACK, and every alert raised so far for the debounce. Histories are lists of
  packets with the newest first. The locale \<open>evictable\<close> states what the sharded map relies on: a
  rule whose state may be forgotten once its source has been idle long enough.
\<close>

unbundle bit_operations_syntax

section \<open>Specification over the history of a source\<close>

definition ms :: "ParsedPacket \<Rightarrow> int" where
  "ms p = timeval_to_ms (timestamp p)"

definition opens :: "ParsedPacket \<Rightarrow> bool" where
  "opens p \<longleftrightarrow> transport p = kTCP \<and> tcp_flags p AND kTcpFlagSyn \<noteq> 0 \<and> tcp_flags p AND kTcpFlagAck = 0"

definition acks :: "ParsedPacket \<Rightarrow> bool" where
  "acks p \<longleftrightarrow> transport p = kTCP \<and> tcp_flags p AND kTcpFlagAck \<noteq> 0"

definition window_ports :: "int \<Rightarrow> ParsedPacket list \<Rightarrow> u16 set" where
  "window_ports cutoff hist =
     dst_port ` set (filter (\<lambda>q. is_connection_attempt q \<and> cutoff \<le> ms q) hist)"

definition half_open :: "int \<Rightarrow> ParsedPacket list \<Rightarrow> FlowKey set" where
  "half_open cutoff hist = {k. \<exists>newer q older. hist = newer @ q # older \<and> opens q \<and> flow_key q = k
     \<and> cutoff \<le> ms q \<and> (\<forall>a \<in> set newer. \<not> (acks a \<and> flow_key a = k))}"

definition scan_due :: "FlowTrackerConfig \<Rightarrow> ParsedPacket list \<Rightarrow> ParsedPacket \<Rightarrow> bool" where
  "scan_due cfg older p \<longleftrightarrow> is_connection_attempt p \<and>
     port_scan_distinct_port_threshold cfg \<le> card (window_ports (ms p - port_scan_window_ms cfg) (p # older))"

definition flood_due :: "FlowTrackerConfig \<Rightarrow> ParsedPacket list \<Rightarrow> ParsedPacket \<Rightarrow> bool" where
  "flood_due cfg older p \<longleftrightarrow> transport p = kTCP \<and>
     syn_flood_pending_threshold cfg \<le> card (half_open (ms p - syn_flood_window_ms cfg) (p # older))"

text \<open>
  The times at which a rule alerted: it is due, and no earlier alert lies within the debounce time.
\<close>

fun alert_times :: "(ParsedPacket list \<Rightarrow> ParsedPacket \<Rightarrow> bool) \<Rightarrow> int \<Rightarrow> ParsedPacket list \<Rightarrow> int list" where
  "alert_times due gap [] = []"
| "alert_times due gap (p # older) =
     (if due older p \<and> (\<forall>t \<in> set (alert_times due gap older). gap \<le> ms p - t)
      then ms p # alert_times due gap older else alert_times due gap older)"

definition quiet :: "(ParsedPacket list \<Rightarrow> ParsedPacket \<Rightarrow> bool) \<Rightarrow> int \<Rightarrow> ParsedPacket list \<Rightarrow> int \<Rightarrow> bool" where
  "quiet due gap older now \<longleftrightarrow> (\<forall>t \<in> set (alert_times due gap older). gap \<le> now - t)"

definition scan_alert :: "FlowTrackerConfig \<Rightarrow> ParsedPacket list \<Rightarrow> ParsedPacket \<Rightarrow> Alert" where
  "scan_alert cfg older p = \<lparr>atype = kPortScan, alert_src_ip = src_ip p, alert_dst_ip = dst_ip p,
     alert_src_port = 0, alert_dst_port = 0,
     detail = port_scan_detail (card (window_ports (ms p - port_scan_window_ms cfg) (p # older)))
       (port_scan_window_ms cfg)\<rparr>"

definition flood_alert :: "FlowTrackerConfig \<Rightarrow> ParsedPacket list \<Rightarrow> ParsedPacket \<Rightarrow> Alert" where
  "flood_alert cfg older p = \<lparr>atype = kSynFlood, alert_src_ip = src_ip p, alert_dst_ip = 0,
     alert_src_port = 0, alert_dst_port = 0,
     detail = syn_flood_detail (card (half_open (ms p - syn_flood_window_ms cfg) (p # older)))
       (syn_flood_window_ms cfg)\<rparr>"

definition spec_alerts :: "FlowTrackerConfig \<Rightarrow> ParsedPacket list \<Rightarrow> ParsedPacket \<Rightarrow> Alert list" where
  "spec_alerts cfg older p =
     (if scan_due cfg older p \<and> quiet (scan_due cfg) (alert_debounce_ms cfg) older (ms p)
      then [scan_alert cfg older p] else []) @
     (if flood_due cfg older p \<and> quiet (flood_due cfg) (alert_debounce_ms cfg) older (ms p)
      then [flood_alert cfg older p] else [])"

lemma half_open_Nil [simp]: "half_open c [] = {}"
  by (simp add: half_open_def)

lemma half_open_Cons:
  "half_open c (q # older) =
     (if opens q \<and> c \<le> ms q then insert (flow_key q) (half_open c older)
      else if acks q then half_open c older - {flow_key q} else half_open c older)"
proof -
  have "k \<in> half_open c (q # older) \<longleftrightarrow> (opens q \<and> flow_key q = k \<and> c \<le> ms q) \<or>
      (k \<in> half_open c older \<and> \<not> (acks q \<and> flow_key q = k))" for k
    by (simp add: half_open_def Cons_eq_append_conv ex_disj_distrib conj_disj_distribR) (auto 4 4)
  moreover have "\<not> (opens q \<and> acks q)" by (simp add: opens_def acks_def)
  ultimately show ?thesis by auto
qed

lemma window_ports_Nil [simp]: "window_ports c [] = {}"
  by (simp add: window_ports_def)

lemma window_ports_Cons [simp]:
  "window_ports c (q # older) = (if is_connection_attempt q \<and> c \<le> ms q
     then insert (dst_port q) (window_ports c older) else window_ports c older)"
  by (simp add: window_ports_def)

lemma half_open_expired: "\<forall>q \<in> set hist. ms q < c \<Longrightarrow> half_open c hist = {}"
  by (fastforce simp: half_open_def)

lemma finite_half_open: "finite (half_open c hist)"
  by (induction hist) (simp_all add: half_open_Cons)

lemma alert_times_subset: "set (alert_times due gap hist) \<subseteq> ms ` set hist"
  by (induction hist) auto

section \<open>The port window\<close>

definition counts_ok :: "(int \<times> u16) list \<Rightarrow> (u16 \<times> u32) list \<Rightarrow> bool" where
  "counts_ok recent counts \<longleftrightarrow> map_ok counts \<and>
     (\<forall>port. map_of counts port = (let n = count_list (map snd recent) port
        in if n = 0 then None else Some (of_nat n)))"

lemma counts_ok_lookup:
  "counts_ok recent counts \<Longrightarrow> map_of counts port =
     (if count_list (map snd recent) port = 0 then None
      else Some (of_nat (count_list (map snd recent) port)))"
  by (simp add: counts_ok_def Let_def)

lemma counts_ok_size:
  assumes "counts_ok recent counts"
  shows "length counts = card (snd ` set recent)"
proof -
  have "dom (map_of counts) = snd ` set recent"
    using assms by (auto simp: counts_ok_lookup dom_def count_list_0_iff split: if_splits)
  then show ?thesis using assms hmap.msize_card [of counts] by (simp add: counts_ok_def)
qed

lemma counts_ok_bump:
  "counts_ok recent counts \<Longrightarrow> counts_ok (recent @ [(t, port)]) (bump_count port counts)"
  unfolding counts_ok_def bump_count_def
  by (auto simp: hmap.minv_assign hmap.lookup_assign Let_def count_list_append add.commute)

lemma of_nat_u32_eq_0: "n < 4294967296 \<Longrightarrow> (of_nat n :: u32) = 0 \<longleftrightarrow> n = 0"
  by (auto simp: word_of_nat_eq_0_iff dest: nat_dvd_not_less)

lemma counts_ok_drop:
  assumes "counts_ok ((t, port) # rest) counts" "length rest < 4294967296"
  shows "counts_ok rest (drop_count port counts)"
proof -
  let ?m = "count_list (map snd rest) port"
  have m: "?m < 4294967296"
    using assms(2) count_le_length [of "map snd rest" port] by simp
  have look: "map_of counts port = Some (of_nat (Suc ?m))"
    using counts_ok_lookup [OF assms(1), of port] by simp
  have "(of_nat (Suc ?m) :: u32) - 1 = of_nat ?m" by simp
  with look have "drop_count port counts =
      (if ?m = 0 then AList.delete port counts else AList.update port (of_nat ?m) counts)"
    using of_nat_u32_eq_0 [OF m] by (simp add: drop_count_def del: of_nat_Suc)
  then show ?thesis
    using assms(1) unfolding counts_ok_def
    by (auto simp: Let_def hmap.minv_assign hmap.minv_erase hmap.lookup_assign hmap.lookup_erase)
qed

lemma expire_ports_correct:
  assumes "counts_ok xs counts" "length xs \<le> 4294967296"
  shows "fst (expire_ports c xs counts) = dropWhile (\<lambda>e. fst e < c) xs \<and>
    counts_ok (fst (expire_ports c xs counts)) (snd (expire_ports c xs counts))"
  using assms
  by (induction c xs counts rule: expire_ports.induct) (auto simp: counts_ok_drop)

definition attempts :: "ParsedPacket list \<Rightarrow> (int \<times> u16) list" where
  "attempts older = rev (map (\<lambda>q. (ms q, dst_port q)) (filter is_connection_attempt older))"

lemma attempts_Cons [simp]:
  "attempts (p # older) = (if is_connection_attempt p then attempts older @ [(ms p, dst_port p)]
     else attempts older)"
  by (simp add: attempts_def)

lemma window_ports_attempts:
  "window_ports c hist = snd ` set (filter (\<lambda>e. c \<le> fst e) (attempts hist))"
  by (force simp: window_ports_def attempts_def)

text \<open>
  The state of the port window against the history: the queue is in time order, the counts are
  those of the queue, and from the window's start on the queue is the history's attempts.
\<close>

definition scan_rel :: "FlowTrackerConfig \<Rightarrow> int \<Rightarrow> ParsedPacket list \<Rightarrow> PerIpState \<Rightarrow> bool" where
  "scan_rel cfg now older st \<longleftrightarrow>
     sorted (map fst (recent_dst_ports st)) \<and> (\<forall>e \<in> set (recent_dst_ports st). fst e \<le> now) \<and>
     length (recent_dst_ports st) \<le> length older \<and>
     counts_ok (recent_dst_ports st) (port_counts st) \<and>
     filter (\<lambda>e. now - port_scan_window_ms cfg \<le> fst e) (recent_dst_ports st) =
       filter (\<lambda>e. now - port_scan_window_ms cfg \<le> fst e) (attempts older)"

lemma filter_window_later:
  assumes "filter (\<lambda>e. c \<le> fst e) xs = filter (\<lambda>e. c \<le> fst e) ys" "c \<le> (d :: int)"
  shows "filter (\<lambda>e. d \<le> fst e) xs = filter (\<lambda>e. d \<le> fst e) ys"
  by (metis assms filter_filter_ge)

lemma scan_rel_later: "scan_rel cfg now older st \<Longrightarrow> now \<le> now' \<Longrightarrow> scan_rel cfg now' older st"
  unfolding scan_rel_def
  by (auto elim!: filter_window_later)

lemma scan_window_step:
  assumes rel: "scan_rel cfg now older st" and "now \<le> ms p" and len: "length older < 4294967295"
    and att: "is_connection_attempt p"
    and ex: "expire_ports (ms p - port_scan_window_ms cfg) (recent_dst_ports st @ [(ms p, dst_port p)])
          (bump_count (dst_port p) (port_counts st)) = (recent, counts)"
  shows "scan_rel cfg (ms p) (p # older) (st'\<lparr>recent_dst_ports := recent, port_counts := counts\<rparr>)"
    and "length counts = card (window_ports (ms p - port_scan_window_ms cfg) (p # older))"
proof -
  let ?c = "ms p - port_scan_window_ms cfg" and ?xs = "recent_dst_ports st @ [(ms p, dst_port p)]"
  have later: "scan_rel cfg (ms p) older st" using rel assms(2) by (rule scan_rel_later)
  have srt: "sorted (map fst ?xs)"
    using later unfolding sorted_fst_snoc by (simp add: scan_rel_def)
  have "counts_ok ?xs (bump_count (dst_port p) (port_counts st))"
    using later by (intro counts_ok_bump) (simp add: scan_rel_def)
  moreover have "length ?xs \<le> 4294967296" using later len by (simp add: scan_rel_def)
  ultimately have exp: "recent = dropWhile (\<lambda>e. fst e < ?c) ?xs" "counts_ok recent counts"
    using expire_ports_correct [of ?xs _ ?c] ex by (metis fst_conv snd_conv)+
  then have recent: "recent = filter (\<lambda>e. ?c \<le> fst e) ?xs"
    using dropWhile_eq_filter_sorted [OF srt] by simp
  have window: "filter (\<lambda>e. ?c \<le> fst e) ?xs = filter (\<lambda>e. ?c \<le> fst e) (attempts (p # older))"
    using later att by (simp add: scan_rel_def)
  have "sorted (map fst recent)" unfolding recent using srt by (rule sorted_fst_filter)
  moreover have "\<forall>e \<in> set recent. fst e \<le> ms p"
  proof -
    have "set recent \<subseteq> set ?xs" unfolding recent by (rule filter_is_subset)
    moreover have "\<forall>e \<in> set ?xs. fst e \<le> ms p" using later by (simp add: scan_rel_def)
    ultimately show ?thesis by blast
  qed
  moreover have "length recent \<le> length (p # older)"
  proof -
    have "length recent \<le> length ?xs" unfolding recent by (rule length_filter_le)
    then show ?thesis using later by (simp add: scan_rel_def)
  qed
  moreover have "filter (\<lambda>e. ?c \<le> fst e) recent = filter (\<lambda>e. ?c \<le> fst e) (attempts (p # older))"
    unfolding window [symmetric] recent by (simp add: filter_filter_ge)
  ultimately show "scan_rel cfg (ms p) (p # older) (st'\<lparr>recent_dst_ports := recent, port_counts := counts\<rparr>)"
    using exp(2) by (simp add: scan_rel_def del: attempts_Cons)
  show "length counts = card (window_ports ?c (p # older))"
    using counts_ok_size [OF exp(2)] by (simp only: window_ports_attempts recent window)
qed

section \<open>The half-open connections\<close>

lemma expire_syns_correct:
  assumes "sorted (map fst order)" "map_ok pending"
    and "\<forall>k t. map_of pending k = Some t \<longrightarrow> t < c \<longrightarrow> (t, k) \<in> set order"
  shows "fst (expire_syns c order pending) = dropWhile (\<lambda>e. fst e < c) order \<and>
    map_ok (snd (expire_syns c order pending)) \<and>
    (\<forall>k t. map_of (snd (expire_syns c order pending)) k = Some t \<longleftrightarrow> map_of pending k = Some t \<and> c \<le> t)"
  using assms
proof (induction c order pending rule: expire_syns.induct)
  case (1 c pending)
  then show ?case by (auto simp: not_less)
next
  case (2 c queued key rest pending)
  show ?case
  proof (cases "queued < c")
    case True
    let ?pending = "if map_of pending key = Some queued then AList.delete key pending else pending"
    have "map_ok ?pending" using 2(3) by (simp add: hmap.minv_erase)
    moreover have "\<forall>k t. map_of ?pending k = Some t \<longrightarrow> t < c \<longrightarrow> (t, k) \<in> set rest"
      using 2(3,4) by (auto simp: hmap.lookup_erase)
    ultimately have "fst (expire_syns c rest ?pending) = dropWhile (\<lambda>e. fst e < c) rest \<and>
        map_ok (snd (expire_syns c rest ?pending)) \<and>
        (\<forall>k t. map_of (snd (expire_syns c rest ?pending)) k = Some t
          \<longleftrightarrow> map_of ?pending k = Some t \<and> c \<le> t)"
      using 2(1) [OF True] 2(2) by simp
    then show ?thesis
      using True 2(3) by (auto simp: hmap.lookup_erase split: if_splits)
  next
    case False
    then have "\<forall>e \<in> set ((queued, key) # rest). c \<le> fst e" using 2(2) by auto
    then have "\<forall>k t. map_of pending k = Some t \<longrightarrow> c \<le> t" using 2(4) by (force simp: not_less)
    then show ?thesis using False 2(3) by auto
  qed
qed

text \<open>
  The state of the SYN window against the history: each pending entry has its place in the order
  queue, and from the window's start on the pending keys are the half-open connections.
\<close>

definition syn_rel :: "FlowTrackerConfig \<Rightarrow> int \<Rightarrow> ParsedPacket list \<Rightarrow> PerIpState \<Rightarrow> bool" where
  "syn_rel cfg now older st \<longleftrightarrow>
     sorted (map fst (pending_syn_order st)) \<and> (\<forall>e \<in> set (pending_syn_order st). fst e \<le> now) \<and>
     map_ok (pending_syns st) \<and>
     (\<forall>k t. map_of (pending_syns st) k = Some t \<longrightarrow> (t, k) \<in> set (pending_syn_order st)) \<and>
     (\<forall>c \<ge> now - syn_flood_window_ms cfg. \<forall>k.
        (\<exists>t. map_of (pending_syns st) k = Some t \<and> c \<le> t) \<longleftrightarrow> k \<in> half_open c older)"

lemma syn_rel_later: "syn_rel cfg now older st \<Longrightarrow> now \<le> now' \<Longrightarrow> syn_rel cfg now' older st"
  unfolding syn_rel_def by (meson diff_right_mono order_trans)

lemma syn_rel_not_tcp: "transport p \<noteq> kTCP \<Longrightarrow> syn_rel cfg now (p # older) st = syn_rel cfg now older st"
  by (simp add: syn_rel_def half_open_Cons opens_def acks_def)

lemma note_handshake_rel:
  assumes rel: "syn_rel cfg (ms p) older st" and tcp: "transport p = kTCP"
    and times: "\<forall>q \<in> set older. ms q \<le> ms p"
  shows "syn_rel cfg (ms p) (p # older) (note_handshake p (ms p) st)"
proof -
  consider (syn) "opens p" | (ack) "acks p" | (none) "\<not> opens p" "\<not> acks p" by blast
  then show ?thesis
  proof cases
    case syn
    then have st: "note_handshake p (ms p) st =
        st\<lparr>pending_syns := AList.update (flow_key p) (ms p) (pending_syns st),
           pending_syn_order := pending_syn_order st @ [(ms p, flow_key p)]\<rparr>"
      by (simp add: note_handshake_def opens_def Let_def)
    have exp: "ms p < c \<Longrightarrow> half_open c older = {}" for c
      using times by (intro half_open_expired) auto
    have "\<not> acks p" using syn by (simp add: opens_def acks_def)
    then have "(\<exists>t. map_of (pending_syns (note_handshake p (ms p) st)) k = Some t \<and> c \<le> t)
        \<longleftrightarrow> k \<in> half_open c (p # older)" if "c \<ge> ms p - syn_flood_window_ms cfg" for c k
      using rel that syn exp [of c]
      by (cases "c \<le> ms p") (auto simp: st hmap.lookup_assign half_open_Cons syn_rel_def not_le)
    then show ?thesis
      using rel unfolding syn_rel_def st
      by (simp add: hmap.lookup_assign hmap.minv_assign sorted_append)
  next
    case ack
    then have st: "note_handshake p (ms p) st =
        st\<lparr>pending_syns := AList.delete (flow_key p) (pending_syns st)\<rparr>"
      by (simp add: note_handshake_def acks_def Let_def)
    have "\<not> opens p" using ack by (simp add: opens_def acks_def)
    then show ?thesis
      using rel ack unfolding syn_rel_def st
      by (auto simp: hmap.lookup_erase hmap.minv_erase half_open_Cons)
  next
    case none
    then have "note_handshake p (ms p) st = st"
      using tcp by (auto simp: note_handshake_def opens_def acks_def Let_def)
    then show ?thesis using rel none by (simp add: syn_rel_def half_open_Cons)
  qed
qed

lemma expire_syns_rel:
  assumes rel: "syn_rel cfg now hist st"
    and ex: "expire_syns (now - syn_flood_window_ms cfg) (pending_syn_order st) (pending_syns st)
      = (order, pending)"
  shows "syn_rel cfg now hist (st\<lparr>pending_syn_order := order, pending_syns := pending\<rparr>)"
    and "length pending = card (half_open (now - syn_flood_window_ms cfg) hist)"
proof -
  let ?c = "now - syn_flood_window_ms cfg"
  have srt: "sorted (map fst (pending_syn_order st))" using rel by (simp add: syn_rel_def)
  have exp: "order = dropWhile (\<lambda>e. fst e < ?c) (pending_syn_order st)" "map_ok pending"
    "\<forall>k t. map_of pending k = Some t \<longleftrightarrow> map_of (pending_syns st) k = Some t \<and> ?c \<le> t"
    using expire_syns_correct [OF srt, of "pending_syns st" ?c] rel ex by (simp_all add: syn_rel_def)
  then have order: "order = filter (\<lambda>e. ?c \<le> fst e) (pending_syn_order st)"
    using dropWhile_eq_filter_sorted [OF srt] by simp
  show "syn_rel cfg now hist (st\<lparr>pending_syn_order := order, pending_syns := pending\<rparr>)"
  proof -
    have "(\<exists>t. map_of pending k = Some t \<and> c \<le> t) \<longleftrightarrow> k \<in> half_open c hist" if "?c \<le> c" for c k
      using rel exp(3) that unfolding syn_rel_def by (meson order_trans)
    then show ?thesis
      using rel exp(2,3) sorted_fst_filter [OF srt] by (simp add: syn_rel_def order)
  qed
  have "dom (map_of pending) = half_open ?c hist"
    using rel exp(3) by (auto simp: syn_rel_def dom_def)
  then show "length pending = card (half_open ?c hist)"
    using hmap.msize_card [OF exp(2)] by simp
qed

section \<open>The debounce\<close>

definition debounce_rel :: "FlowTrackerConfig \<Rightarrow> (ParsedPacket list \<Rightarrow> ParsedPacket \<Rightarrow> bool)
    \<Rightarrow> int \<Rightarrow> ParsedPacket list \<Rightarrow> int option \<Rightarrow> bool" where
  "debounce_rel cfg due now older last_alert \<longleftrightarrow>
     (\<forall>t \<ge> now. fst (debounce_allows cfg last_alert t) = quiet due (alert_debounce_ms cfg) older t)"

lemma debounce_rel_later:
  "debounce_rel cfg due now older l \<Longrightarrow> now \<le> now' \<Longrightarrow> debounce_rel cfg due now' older l"
  by (simp add: debounce_rel_def)

lemma debounce_rel_not_due:
  "debounce_rel cfg due now older l \<Longrightarrow> \<not> due older p \<Longrightarrow> debounce_rel cfg due now (p # older) l"
  by (simp add: debounce_rel_def quiet_def)

lemma debounce_rel_due:
  assumes rel: "debounce_rel cfg due (ms p) older l" and due: "due older p"
    and times: "\<forall>q \<in> set older. ms q \<le> ms p"
    and d: "debounce_allows cfg l (ms p) = (allowed, stamp)"
  shows "allowed = quiet due (alert_debounce_ms cfg) older (ms p)"
    and "debounce_rel cfg due (ms p) (p # older) stamp"
proof -
  show allowed: "allowed = quiet due (alert_debounce_ms cfg) older (ms p)"
    using rel d by (metis debounce_rel_def fst_conv order_refl)
  have past: "t \<le> ms p" if "t \<in> set (alert_times due (alert_debounce_ms cfg) older)" for t
    using that times alert_times_subset by fastforce
  show "debounce_rel cfg due (ms p) (p # older) stamp"
  proof (cases allowed)
    case True
    then have stamp: "stamp = Some (ms p)"
      using d by (auto simp: debounce_allows_def split: option.splits if_splits)
    have "alert_times due (alert_debounce_ms cfg) (p # older)
        = ms p # alert_times due (alert_debounce_ms cfg) older"
      using True allowed due by (simp add: quiet_def)
    then show ?thesis
      using past by (fastforce simp: debounce_rel_def quiet_def stamp debounce_allows_def not_less
          simp del: alert_times.simps)
  next
    case False
    then have stamp: "stamp = l"
      using d by (auto simp: debounce_allows_def split: option.splits if_splits)
    have "alert_times due (alert_debounce_ms cfg) (p # older)
        = alert_times due (alert_debounce_ms cfg) older"
      using False allowed by (simp add: quiet_def)
    then show ?thesis using rel by (simp add: debounce_rel_def quiet_def stamp del: alert_times.simps)
  qed
qed

section \<open>The rules compute the specification\<close>

lemma port_scan_rule_correct:
  assumes "scan_rel cfg now older st"
    and "debounce_rel cfg (scan_due cfg) now older (last_port_scan_alert_ms st)"
    and "now \<le> ms p" "length older < 4294967295" and times: "\<forall>q \<in> set older. ms q \<le> now"
  shows "snd (port_scan_rule cfg p (ms p) st) =
      (if scan_due cfg older p \<and> quiet (scan_due cfg) (alert_debounce_ms cfg) older (ms p)
       then [scan_alert cfg older p] else [])"
    and "scan_rel cfg (ms p) (p # older) (fst (port_scan_rule cfg p (ms p) st))"
    and "debounce_rel cfg (scan_due cfg) (ms p) (p # older)
      (last_port_scan_alert_ms (fst (port_scan_rule cfg p (ms p) st)))"
proof -
  let ?r = "port_scan_rule cfg p (ms p) st"
  have srel: "scan_rel cfg (ms p) older st"
    and drel: "debounce_rel cfg (scan_due cfg) (ms p) older (last_port_scan_alert_ms st)"
    and past: "\<forall>q \<in> set older. ms q \<le> ms p"
    using assms scan_rel_later debounce_rel_later by force+
  obtain recent counts where ex: "expire_ports (ms p - port_scan_window_ms cfg)
      (recent_dst_ports st @ [(ms p, dst_port p)]) (bump_count (dst_port p) (port_counts st)) = (recent, counts)"
    by fastforce
  obtain allowed stamp where d: "debounce_allows cfg (last_port_scan_alert_ms st) (ms p) = (allowed, stamp)"
    by fastforce
  have "snd ?r = (if scan_due cfg older p \<and> quiet (scan_due cfg) (alert_debounce_ms cfg) older (ms p)
       then [scan_alert cfg older p] else []) \<and> scan_rel cfg (ms p) (p # older) (fst ?r) \<and>
     debounce_rel cfg (scan_due cfg) (ms p) (p # older) (last_port_scan_alert_ms (fst ?r))"
  proof (cases "is_connection_attempt p")
    case False
    then have "?r = (st, [])" "\<not> scan_due cfg older p"
      by (simp_all add: port_scan_rule_def scan_due_def)
    then show ?thesis
      using srel False debounce_rel_not_due [OF drel, of p] by (simp add: scan_rel_def)
  next
    case True
    note win = scan_window_step [OF srel order_refl assms(4) True ex]
    have due: "scan_due cfg older p \<longleftrightarrow> port_scan_distinct_port_threshold cfg \<le> length counts"
      using True win(2) by (simp add: scan_due_def)
    show ?thesis
    proof (cases "scan_due cfg older p")
      case False
      then have "?r = (st\<lparr>recent_dst_ports := recent, port_counts := counts\<rparr>, [])"
        using True due by (simp add: port_scan_rule_def ex)
      then show ?thesis
        using False win(1) [of st] debounce_rel_not_due [OF drel False] by simp
    next
      case due': True
      then have r: "?r = (st\<lparr>recent_dst_ports := recent, port_counts := counts,
            last_port_scan_alert_ms := stamp\<rparr>, if allowed then [scan_alert cfg older p] else [])"
        using True due d win(2) by (simp add: port_scan_rule_def ex scan_alert_def)
      show ?thesis
        using due' win(1) [of "st\<lparr>last_port_scan_alert_ms := stamp\<rparr>"] debounce_rel_due [OF drel due' past d]
        by (simp add: r scan_rel_def)
    qed
  qed
  then show "snd ?r = (if scan_due cfg older p \<and> quiet (scan_due cfg) (alert_debounce_ms cfg) older (ms p)
       then [scan_alert cfg older p] else [])"
    and "scan_rel cfg (ms p) (p # older) (fst ?r)"
    and "debounce_rel cfg (scan_due cfg) (ms p) (p # older) (last_port_scan_alert_ms (fst ?r))"
    by simp_all
qed

lemma syn_flood_rule_correct:
  assumes "syn_rel cfg now older st"
    and "debounce_rel cfg (flood_due cfg) now older (last_syn_flood_alert_ms st)"
    and "now \<le> ms p" and times: "\<forall>q \<in> set older. ms q \<le> now"
  shows "snd (syn_flood_rule cfg p (ms p) st) =
      (if flood_due cfg older p \<and> quiet (flood_due cfg) (alert_debounce_ms cfg) older (ms p)
       then [flood_alert cfg older p] else [])"
    and "syn_rel cfg (ms p) (p # older) (fst (syn_flood_rule cfg p (ms p) st))"
    and "debounce_rel cfg (flood_due cfg) (ms p) (p # older)
      (last_syn_flood_alert_ms (fst (syn_flood_rule cfg p (ms p) st)))"
proof -
  let ?r = "syn_flood_rule cfg p (ms p) st"
  have srel: "syn_rel cfg (ms p) older st"
    and drel: "debounce_rel cfg (flood_due cfg) (ms p) older (last_syn_flood_alert_ms st)"
    and past: "\<forall>q \<in> set older. ms q \<le> ms p"
    using assms syn_rel_later debounce_rel_later by force+
  let ?st = "note_handshake p (ms p) st"
  obtain order pending where ex: "expire_syns (ms p - syn_flood_window_ms cfg)
      (pending_syn_order ?st) (pending_syns ?st) = (order, pending)" by fastforce
  have last: "last_syn_flood_alert_ms ?st = last_syn_flood_alert_ms st"
    by (simp add: note_handshake_def Let_def)
  obtain allowed stamp where d: "debounce_allows cfg (last_syn_flood_alert_ms st) (ms p) = (allowed, stamp)"
    by fastforce
  have "snd ?r = (if flood_due cfg older p \<and> quiet (flood_due cfg) (alert_debounce_ms cfg) older (ms p)
       then [flood_alert cfg older p] else []) \<and> syn_rel cfg (ms p) (p # older) (fst ?r) \<and>
     debounce_rel cfg (flood_due cfg) (ms p) (p # older) (last_syn_flood_alert_ms (fst ?r))"
  proof (cases "transport p = kTCP")
    case False
    then have "?r = (st, [])" "\<not> flood_due cfg older p"
      by (simp_all add: syn_flood_rule_def flood_due_def)
    then show ?thesis
      using srel False debounce_rel_not_due [OF drel, of p] by (simp add: syn_rel_not_tcp)
  next
    case True
    note win = expire_syns_rel [OF note_handshake_rel [OF srel True past] ex]
    have due: "flood_due cfg older p \<longleftrightarrow> syn_flood_pending_threshold cfg \<le> length pending"
      using True win(2) by (simp add: flood_due_def)
    show ?thesis
    proof (cases "flood_due cfg older p")
      case False
      then have "?r = (?st\<lparr>pending_syn_order := order, pending_syns := pending\<rparr>, [])"
        using True due by (simp add: syn_flood_rule_def Let_def ex)
      then show ?thesis
        using False win(1) debounce_rel_not_due [OF drel False] by (simp add: last)
    next
      case due': True
      then have r: "?r = (?st\<lparr>pending_syn_order := order, pending_syns := pending,
            last_syn_flood_alert_ms := stamp\<rparr>, if allowed then [flood_alert cfg older p] else [])"
        using True due d win(2) by (simp add: syn_flood_rule_def Let_def ex last flood_alert_def)
      show ?thesis
        using due' win(1) debounce_rel_due [OF drel due' past d] by (simp add: r syn_rel_def)
    qed
  qed
  then show "snd ?r = (if flood_due cfg older p \<and> quiet (flood_due cfg) (alert_debounce_ms cfg) older (ms p)
       then [flood_alert cfg older p] else [])"
    and "syn_rel cfg (ms p) (p # older) (fst ?r)"
    and "debounce_rel cfg (flood_due cfg) (ms p) (p # older) (last_syn_flood_alert_ms (fst ?r))"
    by simp_all
qed

end
