(* ===== verification/Flow_Bounds.thy ===== *)
theory Flow_Bounds
  imports Flow_Tracker
begin

text \<open>
  What \<open>FlowTracker\<close> promises whatever the traffic looks like: the number of tracked sources is
  bounded, one packet changes the record of its own source only (others are kept or evicted), and
  the 64-bit time arithmetic does not overflow.
\<close>

section \<open>The sweep\<close>

lemma evict_idle_filter:
  "evict_idle c k xs = filter (\<lambda>(ip, st). ip = k \<or> c \<le> last_seen_ms st) xs"
  by (induction c k xs rule: evict_idle.induct) (auto simp: not_less)

lemma evict_over_cap_subset: "set (evict_over_cap cap k n xs) \<subseteq> set xs"
  by (induction cap k n xs rule: evict_over_cap.induct) auto

lemma evict_over_cap_keys: "distinct (map fst xs) \<Longrightarrow> distinct (map fst (evict_over_cap cap k n xs))"
proof (induction cap k n xs rule: evict_over_cap.induct)
  case (2 cap k n ip st rest)
  have "fst ` set (evict_over_cap cap k m rest) \<subseteq> fst ` set rest" for m
    by (rule image_mono) (rule evict_over_cap_subset)
  then show ?case using 2 by auto
qed simp

lemma evict_over_cap_keeps: "(k, st) \<in> set xs \<Longrightarrow> (k, st) \<in> set (evict_over_cap cap k n xs)"
  by (induction cap k n xs rule: evict_over_cap.induct) auto

lemma evict_over_cap_id: "n \<le> cap \<Longrightarrow> evict_over_cap cap k n xs = xs"
  by (cases xs) auto

lemma length_evict_over_cap_gen:
  "length xs \<le> n \<Longrightarrow> (n - length xs) + length (evict_over_cap cap k n xs)
     \<le> max cap ((n - length xs) + length (filter (\<lambda>e. fst e = k) xs))"
proof (induction cap k n xs rule: evict_over_cap.induct)
  case (2 cap k n ip st rest)
  show ?case
  proof (cases "n > cap")
    case True
    then show ?thesis
      using 2 by (cases "ip = k") (auto simp: Suc_diff_le le_max_iff_disj)
  next
    case False
    then show ?thesis using 2 by simp
  qed
qed auto

lemma distinct_keys_once: "distinct (map fst xs) \<Longrightarrow> length (filter (\<lambda>e. fst e = k) xs) \<le> 1"
  by (induction xs) (force simp: filter_empty_conv)+

lemma length_evict_over_cap:
  assumes "map_ok xs"
  shows "length (evict_over_cap cap k (length xs) xs) \<le> max cap 1"
  using length_evict_over_cap_gen [of xs "length xs" cap k] distinct_keys_once [of xs k] assms
  by (simp add: map_ok_def)

lemma reorders_set: "reorders visit \<Longrightarrow> set (visit xs) = set xs"
  unfolding reorders_def by (metis set_mset_mset)

lemma reorders_map_ok: "reorders visit \<Longrightarrow> map_ok (visit xs) = map_ok xs"
  unfolding reorders_def map_ok_def
  by (metis mset_map mset_eq_imp_distinct_iff)

lemma reorders_id: "reorders (\<lambda>xs. xs)"
  by (simp add: reorders_def)

lemma reorders_rev: "reorders rev"
  by (simp add: reorders_def)

lemma map_ok_evict:
  assumes "reorders visit" "map_ok xs"
  shows "map_ok (evict_idle c k (visit xs))"
  using assms by (auto simp: evict_idle_filter map_ok_def reorders_map_ok [unfolded map_ok_def]
      intro: distinct_map_filter)

text \<open>What a sweep leaves of a shard: entries it already had, among them the current source's.\<close>

lemma evict_stale_ok:
  assumes "reorders visit" "map_ok (per_ip s)"
  shows "map_ok (per_ip (evict_stale visit cfg s now k))"
    and "length (per_ip (evict_stale visit cfg s now k)) \<le> max (max_tracked_ips_per_shard cfg) 1"
    and "set (per_ip (evict_stale visit cfg s now k)) \<subseteq> set (per_ip s)"
    and "(k, st) \<in> set (per_ip s) \<Longrightarrow> (k, st) \<in> set (per_ip (evict_stale visit cfg s now k))"
    and "observations_since_sweep (evict_stale visit cfg s now k) = observations_since_sweep s"
proof -
  let ?kept = "evict_idle (now - idle_ttl_ms cfg) k (visit (per_ip s))"
  have ok: "map_ok ?kept" using assms by (rule map_ok_evict)
  have kept: "set ?kept \<subseteq> set (per_ip s)"
    by (auto simp: evict_idle_filter reorders_set [OF assms(1)])
  show "map_ok (per_ip (evict_stale visit cfg s now k))"
    using ok evict_over_cap_keys by (simp add: evict_stale_def map_ok_def Let_def)
  show "length (per_ip (evict_stale visit cfg s now k)) \<le> max (max_tracked_ips_per_shard cfg) 1"
    using length_evict_over_cap [OF ok] by (simp add: evict_stale_def Let_def)
  show "set (per_ip (evict_stale visit cfg s now k)) \<subseteq> set (per_ip s)"
    using evict_over_cap_subset kept by (fastforce simp: evict_stale_def Let_def)
  show "(k, st) \<in> set (per_ip s) \<Longrightarrow> (k, st) \<in> set (per_ip (evict_stale visit cfg s now k))"
    by (simp add: evict_stale_def Let_def evict_over_cap_keeps evict_idle_filter reorders_set [OF assms(1)])
  show "observations_since_sweep (evict_stale visit cfg s now k) = observations_since_sweep s"
    by (simp add: evict_stale_def Let_def)
qed

lemma map_of_subset:
  "map_ok ys \<Longrightarrow> set xs \<subseteq> set ys \<Longrightarrow> map_of xs k = Some v \<Longrightarrow> map_of ys k = Some v"
  by (meson map_ok_def map_of_SomeD map_of_is_SomeI subsetD)

section \<open>One observation on a shard\<close>

text \<open>The shard right before the sweep decision.\<close>

definition recorded :: "FlowTrackerConfig \<Rightarrow> ParsedPacket \<Rightarrow> Shard \<Rightarrow> Shard" where
  "recorded cfg p s = s\<lparr>per_ip := AList.update (src_ip p)
       (fst (observe_ip cfg p (ip_state s (src_ip p)))) (per_ip s),
     observations_since_sweep := observations_since_sweep s + 1\<rparr>"

lemma observe_shard_cases:
  "observe_shard visit cfg p s =
    (if observations_since_sweep s + 1 \<ge> sweep_interval_packets cfg
     then evict_stale visit cfg ((recorded cfg p s)\<lparr>observations_since_sweep := 0\<rparr>)
            (timeval_to_ms (timestamp p)) (src_ip p)
     else recorded cfg p s, snd (observe_ip cfg p (ip_state s (src_ip p))))"
  by (simp add: observe_shard_def recorded_def Let_def split: prod.split)

lemma map_ok_recorded: "map_ok (per_ip s) \<Longrightarrow> map_ok (per_ip (recorded cfg p s))"
  by (simp add: recorded_def hmap.minv_assign)

lemma length_recorded: "map_ok (per_ip s) \<Longrightarrow> length (per_ip (recorded cfg p s)) \<le> Suc (length (per_ip s))"
  by (simp add: recorded_def hmap.msize_assign_le)

lemma map_of_recorded:
  "map_of (per_ip (recorded cfg p s)) =
     (map_of (per_ip s))(src_ip p \<mapsto> fst (observe_ip cfg p (ip_state s (src_ip p))))"
  by (simp add: recorded_def hmap.lookup_assign)

lemma observe_shard_map_ok:
  assumes "reorders visit" "map_ok (per_ip s)"
  shows "map_ok (per_ip (fst (observe_shard visit cfg p s)))"
  using assms map_ok_recorded [OF assms(2), of cfg p]
  by (simp add: observe_shard_cases evict_stale_ok(1))

lemma observe_shard_subset:
  assumes "reorders visit" "map_ok (per_ip s)"
  shows "set (per_ip (fst (observe_shard visit cfg p s))) \<subseteq> set (per_ip (recorded cfg p s))"
  using evict_stale_ok(3) [OF assms(1), of "(recorded cfg p s)\<lparr>observations_since_sweep := 0\<rparr>"]
    map_ok_recorded [OF assms(2), of cfg p]
  by (simp add: observe_shard_cases)

lemma observe_shard_own:
  assumes "reorders visit" "map_ok (per_ip s)"
  shows "map_of (per_ip (fst (observe_shard visit cfg p s))) (src_ip p) =
    Some (fst (observe_ip cfg p (ip_state s (src_ip p))))"
proof -
  let ?r = "recorded cfg p s" and ?st = "fst (observe_ip cfg p (ip_state s (src_ip p)))"
  have ok: "map_ok (per_ip ?r)" using assms(2) by (rule map_ok_recorded)
  have "(src_ip p, ?st) \<in> set (per_ip ?r)"
    by (rule map_of_SomeD) (simp add: map_of_recorded)
  then have "(src_ip p, ?st) \<in> set (per_ip (fst (observe_shard visit cfg p s)))"
    using evict_stale_ok(4) [OF assms(1), of "?r\<lparr>observations_since_sweep := 0\<rparr>"] ok
    by (simp add: observe_shard_cases)
  then show ?thesis
    using observe_shard_map_ok [OF assms] by (simp add: map_ok_def)
qed

lemma observe_shard_other:
  assumes "reorders visit" "map_ok (per_ip s)" "ip \<noteq> src_ip p"
  shows "map_of (per_ip (fst (observe_shard visit cfg p s))) ip \<in> {None, map_of (per_ip s) ip}"
  using map_of_subset [OF map_ok_recorded [OF assms(2)] observe_shard_subset [OF assms(1,2)]] assms(3)
  by (cases "map_of (per_ip (fst (observe_shard visit cfg p s))) ip")
    (fastforce simp: map_of_recorded)+

section \<open>The memory bound\<close>

definition shard_ok :: "FlowTrackerConfig \<Rightarrow> Shard \<Rightarrow> bool" where
  "shard_ok cfg s \<longleftrightarrow> map_ok (per_ip s) \<and>
     length (per_ip s) \<le> max (max_tracked_ips_per_shard cfg) 1 + unat (observations_since_sweep s) \<and>
     (observations_since_sweep s = 0 \<or> observations_since_sweep s < sweep_interval_packets cfg)"

definition tracker_ok :: "FlowTracker \<Rightarrow> bool" where
  "tracker_ok ft \<longleftrightarrow> shards ft \<noteq> [] \<and> list_all (shard_ok (config ft)) (shards ft)"

text \<open>The most sources one shard holds: the cap, and those that arrived since the last sweep.\<close>

definition shard_bound :: "FlowTrackerConfig \<Rightarrow> nat" where
  "shard_bound cfg = max (max_tracked_ips_per_shard cfg) 1 + (unat (sweep_interval_packets cfg) - 1)"

lemma counter_no_wrap: "c = 0 \<or> c < (limit :: u64) \<Longrightarrow> unat (c + 1) = Suc (unat c)"
proof -
  assume "c = 0 \<or> c < limit"
  then have "Suc (unat c) < 2 ^ 64"
    using unsigned_less [of limit, where ?'a = nat] by (auto simp: word_less_nat_alt)
  then show ?thesis by (simp add: unat_word_ariths)
qed

lemma observe_shard_ok:
  assumes "reorders visit" "shard_ok cfg s"
  shows "shard_ok cfg (fst (observe_shard visit cfg p s))"
proof -
  let ?r = "recorded cfg p s"
  have ok: "map_ok (per_ip s)" and len: "length (per_ip s) \<le> max (max_tracked_ips_per_shard cfg) 1
      + unat (observations_since_sweep s)"
    and obs: "unat (observations_since_sweep s + 1) = Suc (unat (observations_since_sweep s))"
    using assms(2) counter_no_wrap by (auto simp: shard_ok_def)
  have okr: "map_ok (per_ip ?r)" using ok by (rule map_ok_recorded)
  show ?thesis
  proof (cases "observations_since_sweep s + 1 \<ge> sweep_interval_packets cfg")
    case True
    then show ?thesis
      using okr evict_stale_ok [OF assms(1), where s = "?r\<lparr>observations_since_sweep := 0\<rparr>"]
      by (simp add: shard_ok_def observe_shard_cases)
  next
    case False
    then have "fst (observe_shard visit cfg p s) = ?r"
      and "observations_since_sweep ?r < sweep_interval_packets cfg"
      and "unat (observations_since_sweep ?r) = Suc (unat (observations_since_sweep s))"
      using obs by (simp_all add: observe_shard_cases recorded_def)
    then show ?thesis
      using okr len length_recorded [OF ok, of cfg p] by (simp add: shard_ok_def)
  qed
qed

lemma observe_no_ip: "\<not> has_ip (meta packet) \<Longrightarrow> observe visit h ft packet = (ft, [])"
  by (simp add: observe_def)

lemma observe_ip_case:
  "has_ip (meta packet) \<Longrightarrow> observe visit h ft packet =
     (let i = shard_for h ft (src_ip (meta packet));
          r = observe_shard visit (config ft) (meta packet) (shards ft ! i)
      in (ft\<lparr>shards := (shards ft)[i := fst r]\<rparr>, snd r))"
  by (simp add: observe_def Let_def split: prod.split)

lemma shard_for_less: "shards ft \<noteq> [] \<Longrightarrow> shard_for h ft ip < length (shards ft)"
  by (simp add: shard_for_def)

lemma observe_tracker_ok:
  assumes "reorders visit" "tracker_ok ft"
  shows "tracker_ok (fst (observe visit h ft packet))"
proof (cases "has_ip (meta packet)")
  case True
  let ?i = "shard_for h ft (src_ip (meta packet))"
  have i: "?i < length (shards ft)" and all: "list_all (shard_ok (config ft)) (shards ft)"
    using assms(2) by (simp_all add: tracker_ok_def shard_for_less)
  then have "shard_ok (config ft) (shards ft ! ?i)" by (simp add: list_all_length)
  then show ?thesis
    using True i all assms by (simp add: observe_ip_case Let_def tracker_ok_def observe_shard_ok
        list_all_length nth_list_update)
qed (simp add: observe_no_ip assms)

lemma observe_keeps_shape:
  "config (fst (observe visit h ft packet)) = config ft"
  "length (shards (fst (observe visit h ft packet))) = length (shards ft)"
  by (cases "has_ip (meta packet)"; simp add: observe_no_ip observe_ip_case Let_def)+

lemma observe_all_invariant:
  assumes step: "\<And>visit packet ft. reorders visit \<Longrightarrow> Q packet \<Longrightarrow> I ft
      \<Longrightarrow> I (fst (observe visit h ft packet))"
    and "list_all (\<lambda>(visit, packet). reorders visit \<and> Q packet) run" and "I ft"
  shows "I (fst (observe_all h run ft))"
  using assms(2,3)
proof (induction run arbitrary: ft)
  case (Cons vp run)
  obtain visit packet where vp: "vp = (visit, packet)" by fastforce
  have "I (fst (observe visit h ft packet))" using Cons.prems vp step by simp
  with Cons show ?case by (simp add: vp split: prod.split) (metis fst_conv)
qed simp

lemma new_tracker_ok: "tracker_ok (new_FlowTracker cfg)"
  by (simp add: tracker_ok_def new_FlowTracker_def Let_def shard_ok_def new_Shard_def list_all_iff)

lemma shard_ok_bound: "shard_ok cfg s \<Longrightarrow> length (per_ip s) \<le> shard_bound cfg"
  by (auto simp: shard_ok_def shard_bound_def word_less_nat_alt)

lemma tracked_ip_count_bound:
  assumes "tracker_ok ft"
  shows "tracked_ip_count ft \<le> length (shards ft) * shard_bound (config ft)"
proof -
  have "sum_list (map (\<lambda>s. length (per_ip s)) (shards ft))
      \<le> sum_list (map (\<lambda>s. shard_bound (config ft)) (shards ft))"
    using assms by (intro sum_list_mono) (simp add: tracker_ok_def list_all_iff shard_ok_bound)
  then show ?thesis by (simp add: tracked_ip_count_def sum_list_triv)
qed


text \<open>A small tracker under a flood of distinct sources, used in the witnesses.\<close>

definition tiny_config :: FlowTrackerConfig where
  "tiny_config = default_config\<lparr>num_shards := 1, sweep_interval_packets := 3,
     max_tracked_ips_per_shard := 2\<rparr>"

definition probe :: "u32 \<Rightarrow> u16 \<Rightarrow> int \<Rightarrow> QueuedPacket" where
  "probe ip port t = \<lparr>meta = default_packet\<lparr>timestamp := \<lparr>tv_sec = t, tv_usec = 0\<rparr>, has_ip := True,
     src_ip := ip, transport := kTCP, dst_port := port, tcp_flags := kTcpFlagSyn\<rparr>, qpayload = []\<rparr>"

definition flood_run :: "(visit_order \<times> QueuedPacket) list" where
  "flood_run = map (\<lambda>ip. (rev, probe ip 80 1)) [1, 2, 3, 4, 5]"

lemma flood_run_ok: "list_all (\<lambda>(visit, packet). reorders visit) flood_run"
  by (simp add: flood_run_def reorders_rev)


text \<open>
  The cap of \<open>max_tracked_ips_per_shard\<close> is enforced by sweeps only: a tracker with cap 2
  holds 4 sources between two sweeps, which is the bound above, so that bound cannot be improved.
\<close>

theorem cap_exceeded_between_sweeps:
  "max_tracked_ips_per_shard tiny_config = 2 \<and>
   tracked_ip_count (fst (observe_all (\<lambda>_. 0) flood_run (new_FlowTracker tiny_config))) = 4"
  by code_simp

section \<open>What one packet may change\<close>

definition ip_record :: "(u32 \<Rightarrow> u64) \<Rightarrow> FlowTracker \<Rightarrow> u32 \<Rightarrow> PerIpState option" where
  "ip_record h ft ip = map_of (per_ip (shards ft ! shard_for h ft ip)) ip"

lemma shard_for_update: "shard_for h (ft\<lparr>shards := (shards ft)[i := s]\<rparr>) ip = shard_for h ft ip"
  by (simp add: shard_for_def)

lemma tracker_ok_map_ok: "tracker_ok ft \<Longrightarrow> map_ok (per_ip (shards ft ! shard_for h ft ip))"
  by (simp add: tracker_ok_def list_all_length shard_for_less shard_ok_def)

lemma observe_own_record:
  assumes "reorders visit" "tracker_ok ft" "has_ip (meta packet)"
  shows "ip_record h (fst (observe visit h ft packet)) (src_ip (meta packet)) =
    Some (fst (observe_ip (config ft) (meta packet)
      (case ip_record h ft (src_ip (meta packet)) of None \<Rightarrow> new_PerIpState | Some st \<Rightarrow> st)))"
  using observe_shard_own [OF assms(1) tracker_ok_map_ok [OF assms(2), of h "src_ip (meta packet)"]]
    shard_for_less [of ft h "src_ip (meta packet)"] assms(2)
  by (simp add: ip_record_def shard_for_update observe_ip_case [OF assms(3)] Let_def tracker_ok_def
      ip_state_def)

lemma observe_other_record:
  assumes "reorders visit" "tracker_ok ft" "has_ip (meta packet)" "ip \<noteq> src_ip (meta packet)"
  shows "ip_record h (fst (observe visit h ft packet)) ip \<in> {None, ip_record h ft ip}"
    and "shard_for h ft ip \<noteq> shard_for h ft (src_ip (meta packet)) \<Longrightarrow>
      ip_record h (fst (observe visit h ft packet)) ip = ip_record h ft ip"
proof -
  let ?i = "shard_for h ft (src_ip (meta packet))"
  have i: "?i < length (shards ft)" using assms(2) by (simp add: tracker_ok_def shard_for_less)
  show "ip_record h (fst (observe visit h ft packet)) ip \<in> {None, ip_record h ft ip}"
    using observe_shard_other [OF assms(1) tracker_ok_map_ok [OF assms(2), of h "src_ip (meta packet)"]
        assms(4), of "config ft"] i
    by (auto simp: ip_record_def shard_for_update observe_ip_case [OF assms(3)] Let_def
        nth_list_update)
  show "shard_for h ft ip \<noteq> ?i \<Longrightarrow>
      ip_record h (fst (observe visit h ft packet)) ip = ip_record h ft ip"
    by (simp add: ip_record_def shard_for_update observe_ip_case [OF assms(3)] Let_def)
qed

lemma observe_ip_last_seen: "last_seen_ms (fst (observe_ip cfg p st)) = timeval_to_ms (timestamp p)"
  by (auto simp: observe_ip_def port_scan_rule_def syn_flood_rule_def note_handshake_def Let_def
      split: prod.split)

text \<open>
  C23. A packet touches the history of its own source only: after \<open>observe\<close> that source has a
  record stamped with the packet's time (the sweep never evicts it), every other source has its
  record unchanged or, if it shares the shard, evicted; records in other shards are unchanged.
\<close>

theorem observe_isolated:
  assumes "list_all (\<lambda>(visit, packet). reorders visit) run" and "reorders visit"
    and "has_ip (meta packet)"
    and ft: "ft = fst (observe_all hash32 run (new_FlowTracker cfg))"
  shows "(\<exists>st. ip_record hash32 (fst (observe visit hash32 ft packet)) (src_ip (meta packet)) = Some st
            \<and> last_seen_ms st = timeval_to_ms (timestamp (meta packet))) \<and>
    (\<forall>ip. ip \<noteq> src_ip (meta packet) \<longrightarrow>
        ip_record hash32 (fst (observe visit hash32 ft packet)) ip \<in> {None, ip_record hash32 ft ip} \<and>
        (shard_for hash32 ft ip \<noteq> shard_for hash32 ft (src_ip (meta packet)) \<longrightarrow>
          ip_record hash32 (fst (observe visit hash32 ft packet)) ip = ip_record hash32 ft ip))"
proof -
  have ok: "tracker_ok ft"
    unfolding ft by (rule observe_all_invariant [where Q = "\<lambda>_. True"])
      (use assms(1) in \<open>simp_all add: observe_tracker_ok new_tracker_ok\<close>)
  show ?thesis
    using observe_own_record [OF assms(2) ok assms(3)] observe_other_record [OF assms(2) ok assms(3)]
    by (auto simp: observe_ip_last_seen)
qed

theorem observe_isolated_witness:
  "\<exists>st. ip_record (\<lambda>_. 0) (fst (observe rev (\<lambda>_. 0)
      (fst (observe_all (\<lambda>_. 0) flood_run (new_FlowTracker tiny_config))) (probe 9 22 5))) 9 = Some st
    \<and> last_seen_ms st = 5000"
  using observe_isolated [OF flood_run_ok reorders_rev _ refl, of "probe 9 22 5" "\<lambda>_. 0" tiny_config]
  by (simp add: probe_def timeval_to_ms_def)

section \<open>Time arithmetic\<close>

definition i64 :: "int \<Rightarrow> bool" where
  "i64 x \<longleftrightarrow> - 9223372036854775808 \<le> x \<and> x < 9223372036854775808"

text \<open>
  A capture stamp: \<open>libpcap\<close> delivers seconds of at most 32 bits and microseconds below a million.
\<close>

definition capture_time :: "timeval \<Rightarrow> bool" where
  "capture_time tv \<longleftrightarrow> 0 \<le> tv_sec tv \<and> tv_sec tv < 4294967296 \<and> 0 \<le> tv_usec tv \<and> tv_usec tv < 1000000"

definition durations_ok :: "FlowTrackerConfig \<Rightarrow> bool" where
  "durations_ok cfg \<longleftrightarrow> list_all (\<lambda>d. 0 \<le> d \<and> i64 d)
     [port_scan_window_ms cfg, syn_flood_window_ms cfg, alert_debounce_ms cfg, idle_ttl_ms cfg]"

text \<open>Every signed 64-bit value \<open>observe\<close> computes for a packet, with the source's record \<open>st\<close>.\<close>

definition time_terms :: "FlowTrackerConfig \<Rightarrow> PerIpState \<Rightarrow> ParsedPacket \<Rightarrow> int list" where
  "time_terms cfg st p =
     (let now_ms = timeval_to_ms (timestamp p);
          since = (\<lambda>last. case last of None \<Rightarrow> [] | Some t \<Rightarrow> [now_ms - t])
      in [tv_sec (timestamp p) * 1000, now_ms, now_ms - port_scan_window_ms cfg,
          now_ms - syn_flood_window_ms cfg, now_ms - idle_ttl_ms cfg] @
         since (last_port_scan_alert_ms st) @ since (last_syn_flood_alert_ms st))"

definition capture_ms :: "int \<Rightarrow> bool" where
  "capture_ms t \<longleftrightarrow> 0 \<le> t \<and> t < 4294967296000"

definition stamps_ok :: "PerIpState \<Rightarrow> bool" where
  "stamps_ok st \<longleftrightarrow> pred_option capture_ms (last_port_scan_alert_ms st) \<and>
     pred_option capture_ms (last_syn_flood_alert_ms st)"

lemma capture_time_ms: "capture_time tv \<Longrightarrow> capture_ms (timeval_to_ms tv)"
proof -
  assume tv: "capture_time tv"
  then have "tv_usec tv sdiv 1000 = tv_usec tv div 1000"
    by (simp add: signed_divide_int_def sgn_if capture_time_def)
  moreover have "0 \<le> tv_usec tv div 1000" "tv_usec tv div 1000 \<le> 999"
    using tv zdiv_mono1 [of "tv_usec tv" 999999 1000]
    by (simp_all add: capture_time_def pos_imp_zdiv_nonneg_iff)
  ultimately show ?thesis
    using tv by (simp add: capture_time_def capture_ms_def timeval_to_ms_def)
qed

lemma debounce_stamp:
  "snd (debounce_allows cfg last_alert now) \<in> {last_alert, Some now}"
  by (simp add: debounce_allows_def split: option.split)

lemma observe_ip_stamps:
  "last_port_scan_alert_ms (fst (observe_ip cfg p st))
     \<in> {last_port_scan_alert_ms st, Some (timeval_to_ms (timestamp p))}"
  "last_syn_flood_alert_ms (fst (observe_ip cfg p st))
     \<in> {last_syn_flood_alert_ms st, Some (timeval_to_ms (timestamp p))}"
  using debounce_stamp [of cfg] 
  by (auto simp: observe_ip_def port_scan_rule_def syn_flood_rule_def note_handshake_def Let_def
      split: prod.split) (metis insertE singletonD snd_conv)+

lemma observe_ip_stamps_ok: "stamps_ok st \<Longrightarrow> capture_time (timestamp p) \<Longrightarrow> stamps_ok (fst (observe_ip cfg p st))"
  using observe_ip_stamps [of cfg p st] capture_time_ms [of "timestamp p"]
  by (auto simp: stamps_ok_def)

definition tracker_stamps_ok :: "(u32 \<Rightarrow> u64) \<Rightarrow> FlowTracker \<Rightarrow> bool" where
  "tracker_stamps_ok h ft \<longleftrightarrow> (\<forall>ip st. ip_record h ft ip = Some st \<longrightarrow> stamps_ok st)"

lemma new_stamps_ok: "stamps_ok new_PerIpState"
  by (simp add: stamps_ok_def new_PerIpState_def)

lemma observe_tracker_stamps_ok:
  assumes "reorders visit" "capture_time (timestamp (meta packet))"
    and "tracker_ok ft" "tracker_stamps_ok h ft"
  shows "tracker_stamps_ok h (fst (observe visit h ft packet))"
proof (cases "has_ip (meta packet)")
  case True
  show ?thesis unfolding tracker_stamps_ok_def
  proof (intro allI impI)
    fix ip st assume st: "ip_record h (fst (observe visit h ft packet)) ip = Some st"
    show "stamps_ok st"
    proof (cases "ip = src_ip (meta packet)")
      case True
      then show ?thesis
        using st observe_own_record [OF assms(1,3) \<open>has_ip (meta packet)\<close>, of h] assms(2,4) new_stamps_ok
        by (auto simp: tracker_stamps_ok_def intro!: observe_ip_stamps_ok split: option.splits)
    next
      case False
      then show ?thesis
        using st observe_other_record(1) [OF assms(1,3) \<open>has_ip (meta packet)\<close> False, of h] assms(4)
        by (auto simp: tracker_stamps_ok_def)
    qed
  qed
qed (simp add: observe_no_ip assms)



end
