(* ===== verification/Flow_Refinement.thy ===== *)
theory Flow_Refinement
  imports Flow_Window Flow_Bounds
begin

text \<open>
  The whole tracker against the specification of \<open>Flow_Window\<close>: sharding, the map and the eviction
  of idle sources are invisible in the alerts. The locale \<open>evictable\<close> is the contract between the
  map and the per-source state, interpreted on \<open>observe_ip\<close>.
\<close>

section \<open>State that may be forgotten\<close>

locale evictable =
  fixes step :: "'p \<Rightarrow> 's \<Rightarrow> 's \<times> 'a list"
    and fresh :: 's
    and time :: "'p \<Rightarrow> int"
    and seen :: "'s \<Rightarrow> int"
    and horizon :: int
    and limit :: nat
    and spec :: "'p list \<Rightarrow> 'p \<Rightarrow> 'a list"
    and rel :: "int \<Rightarrow> 'p list \<Rightarrow> 's \<Rightarrow> bool"
  assumes rel_start: "rel now [] fresh"
    and rel_later: "rel now older st \<Longrightarrow> now \<le> now' \<Longrightarrow> rel now' older st"
    and rel_alerts: "rel now older st \<Longrightarrow> now \<le> time p \<Longrightarrow> length older < limit \<Longrightarrow>
      snd (step p st) = spec older p"
    and rel_step: "rel now older st \<Longrightarrow> now \<le> time p \<Longrightarrow> length older < limit \<Longrightarrow>
      rel (time p) (p # older) (fst (step p st))"
    and rel_forget: "rel now older st \<Longrightarrow> seen st < now - horizon \<Longrightarrow> rel now older fresh"
begin

text \<open>A map from sources to their state, with a missing entry standing for the fresh state.\<close>

definition tracks :: "int \<Rightarrow> ('k \<Rightarrow> 'p list) \<Rightarrow> ('k \<Rightarrow> 's option) \<Rightarrow> bool" where
  "tracks now hist m \<longleftrightarrow> (\<forall>k. rel now (hist k) (case m k of None \<Rightarrow> fresh | Some st \<Rightarrow> st))"

lemma tracks_start: "tracks now (\<lambda>_. []) (\<lambda>_. None)"
  by (simp add: tracks_def rel_start)

lemma tracks_later: "tracks now hist m \<Longrightarrow> now \<le> now' \<Longrightarrow> tracks now' hist m"
  by (auto simp: tracks_def intro: rel_later)

lemma tracks_alerts:
  "tracks now hist m \<Longrightarrow> now \<le> time p \<Longrightarrow> length (hist k) < limit \<Longrightarrow>
    snd (step p (case m k of None \<Rightarrow> fresh | Some st \<Rightarrow> st)) = spec (hist k) p"
  by (auto simp: tracks_def intro: rel_alerts)

lemma tracks_observe:
  assumes "tracks now hist m" "now \<le> time p" "length (hist k) < limit"
    and "m' k = Some (fst (step p (case m k of None \<Rightarrow> fresh | Some st \<Rightarrow> st)))"
    and "\<forall>j. j \<noteq> k \<longrightarrow> m' j = m j \<or> (m' j = None \<and> (\<forall>st. m j = Some st \<longrightarrow> seen st < time p - horizon))"
  shows "tracks (time p) (hist(k := p # hist k)) m'"
  unfolding tracks_def
proof
  fix j
  have later: "rel (time p) (hist j) (case m j of None \<Rightarrow> fresh | Some st \<Rightarrow> st)"
    using tracks_later [OF assms(1,2)] by (simp add: tracks_def)
  show "rel (time p) ((hist(k := p # hist k)) j) (case m' j of None \<Rightarrow> fresh | Some st \<Rightarrow> st)"
  proof (cases "j = k")
    case True
    then show ?thesis using assms by (auto simp: tracks_def intro: rel_step)
  next
    case False
    then show ?thesis using assms(5) later rel_forget by (fastforce split: option.splits)
  qed
qed

end

section \<open>The rules as evictable state\<close>

definition ip_rel :: "FlowTrackerConfig \<Rightarrow> int \<Rightarrow> ParsedPacket list \<Rightarrow> PerIpState \<Rightarrow> bool" where
  "ip_rel cfg now older st \<longleftrightarrow> (\<forall>q \<in> set older. ms q \<le> now) \<and>
     (st = new_PerIpState \<or> (\<forall>q \<in> set older. ms q \<le> last_seen_ms st)) \<and>
     scan_rel cfg now older st \<and> syn_rel cfg now older st \<and>
     debounce_rel cfg (scan_due cfg) now older (last_port_scan_alert_ms st) \<and>
     debounce_rel cfg (flood_due cfg) now older (last_syn_flood_alert_ms st)"

text \<open>How far back the rules look: an older history no longer matters.\<close>

definition memory_horizon :: "FlowTrackerConfig \<Rightarrow> int" where
  "memory_horizon cfg = max (idle_ttl_ms cfg) (max (alert_debounce_ms cfg)
     (max (port_scan_window_ms cfg) (syn_flood_window_ms cfg)))"

lemma ip_rel_fresh:
  assumes "\<forall>q \<in> set older. ms q < now - memory_horizon cfg" and "\<forall>q \<in> set older. ms q \<le> now"
  shows "ip_rel cfg now older new_PerIpState"
proof -
  have old: "ms q < now - port_scan_window_ms cfg" "ms q < now - syn_flood_window_ms cfg"
    "ms q < now - alert_debounce_ms cfg" if "q \<in> set older" for q
    using assms(1) that by (auto simp: memory_horizon_def)
  have "quiet due (alert_debounce_ms cfg) older t" if "now \<le> t" for due t
    using old(3) alert_times_subset [of due "alert_debounce_ms cfg" older] that
    by (fastforce simp: quiet_def)
  moreover have "filter (\<lambda>e. now - port_scan_window_ms cfg \<le> fst e) (attempts older) = []"
    using old(1) by (force simp: attempts_def filter_empty_conv)
  moreover have "half_open c older = {}" if "now - syn_flood_window_ms cfg \<le> c" for c
    using old(2) that by (intro half_open_expired) force
  ultimately show ?thesis
    using assms(2) by (simp add: ip_rel_def scan_rel_def syn_rel_def debounce_rel_def new_PerIpState_def
        counts_ok_def debounce_allows_def)
qed

lemma observe_ip_split:
  "observe_ip cfg p st =
    (let r1 = port_scan_rule cfg p (ms p) (st\<lparr>last_seen_ms := ms p\<rparr>);
         r2 = syn_flood_rule cfg p (ms p) (fst r1)
     in (fst r2, snd r1 @ snd r2))"
  by (simp add: observe_ip_def ms_def Let_def split: prod.split)

lemma port_scan_rule_frame:
  "pending_syns (fst (port_scan_rule cfg p now st)) = pending_syns st"
  "pending_syn_order (fst (port_scan_rule cfg p now st)) = pending_syn_order st"
  "last_syn_flood_alert_ms (fst (port_scan_rule cfg p now st)) = last_syn_flood_alert_ms st"
  by (simp_all add: port_scan_rule_def Let_def split: prod.split)

lemma syn_flood_rule_frame:
  "recent_dst_ports (fst (syn_flood_rule cfg p now st)) = recent_dst_ports st"
  "port_counts (fst (syn_flood_rule cfg p now st)) = port_counts st"
  "last_port_scan_alert_ms (fst (syn_flood_rule cfg p now st)) = last_port_scan_alert_ms st"
  by (simp_all add: syn_flood_rule_def note_handshake_def Let_def split: prod.split)

lemma observe_ip_correct:
  assumes rel: "ip_rel cfg now older st" and "now \<le> ms p" "length older < 4294967295"
  shows "snd (observe_ip cfg p st) = spec_alerts cfg older p"
    and "ip_rel cfg (ms p) (p # older) (fst (observe_ip cfg p st))"
proof -
  let ?st = "st\<lparr>last_seen_ms := ms p\<rparr>"
  let ?r1 = "port_scan_rule cfg p (ms p) ?st"
  have "scan_rel cfg now older ?st" "debounce_rel cfg (scan_due cfg) now older (last_port_scan_alert_ms ?st)"
    and past: "\<forall>q \<in> set older. ms q \<le> now"
    using rel by (simp_all add: ip_rel_def scan_rel_def)
  note scan = port_scan_rule_correct [OF this(1,2) assms(2,3) past]
  have "syn_rel cfg now older (fst ?r1)"
    "debounce_rel cfg (flood_due cfg) now older (last_syn_flood_alert_ms (fst ?r1))"
    using rel by (simp_all add: ip_rel_def syn_rel_def port_scan_rule_frame)
  note syn = syn_flood_rule_correct [OF this assms(2) past]
  show "snd (observe_ip cfg p st) = spec_alerts cfg older p"
    using scan(1) syn(1) by (simp add: observe_ip_split Let_def spec_alerts_def)
  show "ip_rel cfg (ms p) (p # older) (fst (observe_ip cfg p st))"
    using scan(2,3) syn(2,3) past assms(2) observe_ip_last_seen [of cfg p st]
    by (auto simp: ip_rel_def observe_ip_split Let_def scan_rel_def syn_flood_rule_frame ms_def)
qed

interpretation ip_rules: evictable "observe_ip cfg" new_PerIpState ms last_seen_ms
  "memory_horizon cfg" 4294967295 "spec_alerts cfg" "ip_rel cfg" for cfg :: FlowTrackerConfig
proof unfold_locales
  fix now now' older p and st :: PerIpState
  show "ip_rel cfg now [] new_PerIpState" by (rule ip_rel_fresh) simp_all
  show "ip_rel cfg now older st \<Longrightarrow> now \<le> now' \<Longrightarrow> ip_rel cfg now' older st"
    by (auto simp: ip_rel_def intro: scan_rel_later syn_rel_later debounce_rel_later)
  show "ip_rel cfg now older st \<Longrightarrow> now \<le> ms p \<Longrightarrow> length older < 4294967295 \<Longrightarrow>
      snd (observe_ip cfg p st) = spec_alerts cfg older p"
    by (rule observe_ip_correct)
  show "ip_rel cfg now older st \<Longrightarrow> now \<le> ms p \<Longrightarrow> length older < 4294967295 \<Longrightarrow>
      ip_rel cfg (ms p) (p # older) (fst (observe_ip cfg p st))"
    by (rule observe_ip_correct)
  show "ip_rel cfg now older st \<Longrightarrow> last_seen_ms st < now - memory_horizon cfg \<Longrightarrow>
      ip_rel cfg now older new_PerIpState"
  proof -
    assume rel: "ip_rel cfg now older st" and idle: "last_seen_ms st < now - memory_horizon cfg"
    show "ip_rel cfg now older new_PerIpState"
    proof (cases "st = new_PerIpState")
      case False
      then have "\<forall>q \<in> set older. ms q \<le> last_seen_ms st" and "\<forall>q \<in> set older. ms q \<le> now"
        using rel by (simp_all add: ip_rel_def)
      then show ?thesis using idle by (intro ip_rel_fresh) force+
    qed (use rel in simp)
  qed
qed

section \<open>Sweeps that stay under the cap\<close>

definition sources_in :: "u32 set \<Rightarrow> Shard \<Rightarrow> bool" where
  "sources_in K s \<longleftrightarrow> fst ` set (per_ip s) \<subseteq> K"

lemma sources_in_length:
  "map_ok (per_ip s) \<Longrightarrow> sources_in K s \<Longrightarrow> finite K \<Longrightarrow> length (per_ip s) \<le> card K"
  unfolding sources_in_def map_ok_def by (metis card_mono distinct_card length_map list.set_map)

lemma recorded_sources: "sources_in K s \<Longrightarrow> src_ip p \<in> K \<Longrightarrow> sources_in K (recorded cfg p s)"
  by (simp add: sources_in_def recorded_def dom_update)

lemma observe_shard_sources:
  assumes "reorders visit" "map_ok (per_ip s)" "sources_in K s" "src_ip p \<in> K"
  shows "sources_in K (fst (observe_shard visit cfg p s))"
  using observe_shard_subset [OF assms(1,2), of cfg p] recorded_sources [OF assms(3,4), of cfg]
  unfolding sources_in_def by (meson image_mono order_trans)

lemma sweep_evicts_idle_only:
  assumes "reorders visit" "map_ok (per_ip s)" "sources_in K s" "finite K"
    and "card K \<le> max_tracked_ips_per_shard cfg"
    and "map_of (per_ip s) ip = Some st" "map_of (per_ip (evict_stale visit cfg s now k)) ip = None"
  shows "last_seen_ms st < now - idle_ttl_ms cfg"
proof (rule ccontr)
  let ?kept = "evict_idle (now - idle_ttl_ms cfg) k (visit (per_ip s))"
  assume "\<not> ?thesis"
  then have "(ip, st) \<in> set ?kept"
    using map_of_SomeD [OF assms(6)] by (simp add: evict_idle_filter reorders_set [OF assms(1)])
  moreover have "length ?kept \<le> length (visit (per_ip s))"
    by (simp add: evict_idle_filter)
  moreover have "length (visit (per_ip s)) = length (per_ip s)"
    using assms(1) unfolding reorders_def by (metis size_mset)
  ultimately have "(ip, st) \<in> set (per_ip (evict_stale visit cfg s now k))"
    using sources_in_length [OF assms(2,3,4)] assms(5)
    by (simp add: evict_stale_def Let_def evict_over_cap_id)
  then show False using assms(7) by (force simp: map_of_eq_None_iff)
qed

lemma observe_shard_forgets_idle:
  assumes "reorders visit" "map_ok (per_ip s)" "sources_in K s" "finite K" "src_ip p \<in> K"
    and "card K \<le> max_tracked_ips_per_shard cfg" "ip \<noteq> src_ip p"
  shows "map_of (per_ip (fst (observe_shard visit cfg p s))) ip = map_of (per_ip s) ip \<or>
    map_of (per_ip (fst (observe_shard visit cfg p s))) ip = None \<and>
    (\<forall>st. map_of (per_ip s) ip = Some st \<longrightarrow> last_seen_ms st < ms p - idle_ttl_ms cfg)"
proof -
  let ?r = "(recorded cfg p s)\<lparr>observations_since_sweep := 0\<rparr>"
  have r: "map_ok (per_ip ?r)" "sources_in K ?r" "map_of (per_ip ?r) ip = map_of (per_ip s) ip"
    using map_ok_recorded [OF assms(2)] recorded_sources [OF assms(3,5)] assms(7)
    by (simp_all add: sources_in_def map_of_recorded)
  have "map_of (per_ip (fst (observe_shard visit cfg p s))) ip \<in> {None, map_of (per_ip s) ip}"
    using assms(1,2,7) by (rule observe_shard_other)
  moreover have "last_seen_ms st < ms p - idle_ttl_ms cfg"
    if "map_of (per_ip (fst (observe_shard visit cfg p s))) ip = None" "map_of (per_ip s) ip = Some st" for st
    using that r(3) sweep_evicts_idle_only [OF assms(1) r(1,2) assms(4,6), of ip st "ms p"]
    by (auto simp: observe_shard_cases ms_def split: if_splits)
  ultimately show ?thesis by blast
qed

section \<open>The tracker refines the specification\<close>

text \<open>
  What the specification asks of a run: packet by packet, the alerts of \<open>spec_alerts\<close> on the earlier
  packets of the same source. \<open>seen\<close> holds all earlier IP packets, newest first.
\<close>

definition from_source :: "u32 \<Rightarrow> ParsedPacket list \<Rightarrow> ParsedPacket list" where
  "from_source ip seen = filter (\<lambda>q. src_ip q = ip) seen"

fun expected_alerts :: "FlowTrackerConfig \<Rightarrow> ParsedPacket list \<Rightarrow> ParsedPacket list \<Rightarrow> Alert list list" where
  "expected_alerts cfg seen [] = []"
| "expected_alerts cfg seen (p # ps) =
     (if has_ip p then spec_alerts cfg (from_source (src_ip p) seen) p # expected_alerts cfg (p # seen) ps
      else [] # expected_alerts cfg seen ps)"

text \<open>The idle time covers what the rules look back on.\<close>

definition ttl_covers :: "FlowTrackerConfig \<Rightarrow> bool" where
  "ttl_covers cfg \<longleftrightarrow> port_scan_window_ms cfg \<le> idle_ttl_ms cfg \<and> syn_flood_window_ms cfg \<le> idle_ttl_ms cfg
     \<and> alert_debounce_ms cfg \<le> idle_ttl_ms cfg"

definition run_inv :: "(u32 \<Rightarrow> u64) \<Rightarrow> u32 set \<Rightarrow> int \<Rightarrow> ParsedPacket list \<Rightarrow> FlowTracker \<Rightarrow> bool" where
  "run_inv h K now seen ft \<longleftrightarrow> tracker_ok ft \<and> list_all (sources_in K) (shards ft) \<and>
     ip_rules.tracks (config ft) now (\<lambda>ip. from_source ip seen) (ip_record h ft)"

lemma run_inv_observe:
  assumes inv: "run_inv h K now seen ft" and "reorders visit" and ip: "has_ip (meta packet)"
    and "now \<le> ms (meta packet)" "length seen < 4294967295"
    and cfg: "ttl_covers (config ft)" "card K \<le> max_tracked_ips_per_shard (config ft)"
    and K: "finite K" "src_ip (meta packet) \<in> K"
  shows "snd (observe visit h ft packet) =
      spec_alerts (config ft) (from_source (src_ip (meta packet)) seen) (meta packet)"
    and "run_inv h K (ms (meta packet)) (meta packet # seen) (fst (observe visit h ft packet))"
proof -
  let ?p = "meta packet" and ?ft = "fst (observe visit h ft packet)"
  let ?i = "shard_for h ft (src_ip (meta packet))"
  have ok: "tracker_ok ft" and i: "?i < length (shards ft)"
    and src: "sources_in K (shards ft ! ?i)" "list_all (sources_in K) (shards ft)"
    and tr: "ip_rules.tracks (config ft) now (\<lambda>ip. from_source ip seen) (ip_record h ft)"
    using inv by (auto simp: run_inv_def tracker_ok_def shard_for_less list_all_length)
  have m: "map_ok (per_ip (shards ft ! ?i))" using ok by (rule tracker_ok_map_ok)
  have len: "length (from_source (src_ip ?p) seen) < 4294967295"
    using assms(5) length_filter_le [of _ seen] unfolding from_source_def by (rule le_less_trans [rotated])
  show "snd (observe visit h ft packet) = spec_alerts (config ft) (from_source (src_ip ?p) seen) ?p"
    using ip_rules.tracks_alerts [OF tr assms(4) len]
    by (simp add: observe_ip_case [OF ip] Let_def observe_shard_cases ip_state_def ip_record_def)
  have horizon: "memory_horizon (config ft) = idle_ttl_ms (config ft)"
    using cfg(1) by (simp add: memory_horizon_def ttl_covers_def)
  have others: "ip_record h ?ft j = ip_record h ft j \<or> (ip_record h ?ft j = None \<and>
      (\<forall>st. ip_record h ft j = Some st \<longrightarrow> last_seen_ms st < ms ?p - memory_horizon (config ft)))"
    if "j \<noteq> src_ip ?p" for j
  proof (cases "shard_for h ft j = ?i")
    case True
    then show ?thesis
      using observe_shard_forgets_idle [OF assms(2) m src(1) K cfg(2) that] i
      by (simp add: ip_record_def observe_ip_case [OF ip] Let_def shard_for_update horizon)
  next
    case False
    then show ?thesis using observe_other_record(2) [OF assms(2) ok ip that] by simp
  qed
  have "ip_rules.tracks (config ft) (ms ?p)
      ((\<lambda>ip. from_source ip seen)(src_ip ?p := ?p # from_source (src_ip ?p) seen)) (ip_record h ?ft)"
    using len others observe_own_record [OF assms(2) ok ip]
    by (intro ip_rules.tracks_observe [OF tr assms(4)]) auto
  moreover have "(\<lambda>ip. from_source ip seen)(src_ip ?p := ?p # from_source (src_ip ?p) seen)
      = (\<lambda>ip. from_source ip (?p # seen))" by (auto simp: from_source_def)
  moreover have "list_all (sources_in K) (shards ?ft)"
    using src i observe_shard_sources [OF assms(2) m src(1) K(2)]
    by (auto simp: observe_ip_case [OF ip] Let_def list_all_length nth_list_update)
  ultimately show "run_inv h K (ms ?p) (?p # seen) ?ft"
    using observe_tracker_ok [OF assms(2) ok] by (simp add: run_inv_def observe_keeps_shape)
qed

lemma observe_all_expected:
  assumes "run_inv h K now seen ft" and "ttl_covers (config ft)"
    and "card K \<le> max_tracked_ips_per_shard (config ft)" "finite K"
    and "list_all (\<lambda>(visit, packet). reorders visit \<and> (has_ip (meta packet) \<longrightarrow> src_ip (meta packet) \<in> K)) run"
    and "sorted (map ms (filter has_ip (map (meta \<circ> snd) run)))"
    and "\<forall>p \<in> set (map (meta \<circ> snd) run). has_ip p \<longrightarrow> now \<le> ms p"
    and "length seen + length run \<le> 4294967295"
  shows "snd (observe_all h run ft) = expected_alerts (config ft) seen (map (meta \<circ> snd) run)"
  using assms
proof (induction run arbitrary: now seen ft)
  case Nil
  then show ?case by simp
next
  case (Cons vp run)
  obtain visit packet where vp: "vp = (visit, packet)" by fastforce
  let ?ft = "fst (observe visit h ft packet)"
  have split: "snd (observe_all h (vp # run) ft) = snd (observe visit h ft packet) # snd (observe_all h run ?ft)"
    by (simp add: vp split: prod.split)
  show ?case
  proof (cases "has_ip (meta packet)")
    case True
    have step: "snd (observe visit h ft packet) =
        spec_alerts (config ft) (from_source (src_ip (meta packet)) seen) (meta packet)"
      "run_inv h K (ms (meta packet)) (meta packet # seen) ?ft"
      using Cons.prems True run_inv_observe [OF Cons.prems(1), of visit packet] by (auto simp: vp)
    have "snd (observe_all h run ?ft) = expected_alerts (config ?ft) (meta packet # seen) (map (meta \<circ> snd) run)"
      using Cons.prems True by (intro Cons.IH [OF step(2)]) (auto simp: vp observe_keeps_shape)
    then show ?thesis using step(1) True split by (simp add: vp observe_keeps_shape comp_def)
  next
    case False
    then have "observe visit h ft packet = (ft, [])" by (rule observe_no_ip)
    then show ?thesis using Cons.IH [OF Cons.prems(1)] Cons.prems False split by (simp add: vp comp_def)
  qed
qed

lemma spec_alerts_shards: "spec_alerts (cfg\<lparr>num_shards := n\<rparr>) = spec_alerts cfg"
proof -
  have "scan_due (cfg\<lparr>num_shards := n\<rparr>) = scan_due cfg" "flood_due (cfg\<lparr>num_shards := n\<rparr>) = flood_due cfg"
    by (simp_all add: fun_eq_iff scan_due_def flood_due_def)
  then show ?thesis by (intro ext) (simp add: spec_alerts_def scan_alert_def flood_alert_def)
qed

lemma expected_alerts_shards: "expected_alerts (cfg\<lparr>num_shards := n\<rparr>) seen ps = expected_alerts cfg seen ps"
  by (induction cfg seen ps rule: expected_alerts.induct) (simp_all add: spec_alerts_shards)

lemma run_inv_start: "run_inv h K now [] (new_FlowTracker cfg)"
proof -
  have "ip_record h (new_FlowTracker cfg) = (\<lambda>_. None)"
    using shard_for_less [of "new_FlowTracker cfg" h] new_tracker_ok [of cfg]
    by (simp add: fun_eq_iff ip_record_def new_FlowTracker_def Let_def new_Shard_def)
  moreover have "(\<lambda>ip. from_source ip []) = (\<lambda>_. [])" by (simp add: from_source_def)
  moreover have "list_all (sources_in K) (shards (new_FlowTracker cfg))"
    by (simp add: new_FlowTracker_def Let_def new_Shard_def sources_in_def list_all_iff)
  ultimately show ?thesis using new_tracker_ok ip_rules.tracks_start by (simp add: run_inv_def)
qed

lemma tracker_refines:
  assumes "list_all (\<lambda>(visit, packet). reorders visit) run"
    and "sorted (map ms (filter has_ip (map (meta \<circ> snd) run)))"
    and "length run < 4294967296" and "ttl_covers cfg"
    and "card (src_ip ` set (map (meta \<circ> snd) run)) \<le> max_tracked_ips_per_shard cfg"
  shows "snd (observe_all hash32 run (new_FlowTracker cfg)) =
    expected_alerts cfg [] (map (meta \<circ> snd) run)"
proof -
  let ?K = "src_ip ` set (map (meta \<circ> snd) run)" and ?ps = "filter has_ip (map (meta \<circ> snd) run)"
  let ?ft = "new_FlowTracker cfg"
  have cfg: "\<exists>n. config ?ft = cfg\<lparr>num_shards := n\<rparr>"
    by (cases "num_shards cfg = 0") (auto simp: new_FlowTracker_def Let_def intro: exI [of _ "num_shards cfg"])
  then have covers: "ttl_covers (config ?ft)" and cap: "card ?K \<le> max_tracked_ips_per_shard (config ?ft)"
    using assms(4,5) by (auto simp: ttl_covers_def)
  have "\<forall>p \<in> set (map (meta \<circ> snd) run). has_ip p \<longrightarrow> (if ?ps = [] then 0 else ms (hd ?ps)) \<le> ms p"
  proof (intro ballI impI)
    fix p assume "p \<in> set (map (meta \<circ> snd) run)" "has_ip p"
    then have "p \<in> set ?ps" by simp
    then show "(if ?ps = [] then 0 else ms (hd ?ps)) \<le> ms p"
      using assms(2) by (cases ?ps) auto
  qed
  moreover have "list_all (\<lambda>(visit, packet). reorders visit \<and>
      (has_ip (meta packet) \<longrightarrow> src_ip (meta packet) \<in> ?K)) run"
    using assms(1) by (force simp: list_all_iff)
  ultimately have "snd (observe_all hash32 run ?ft) = expected_alerts (config ?ft) [] (map (meta \<circ> snd) run)"
    using observe_all_expected [OF run_inv_start covers cap _ _ assms(2), where h = hash32] assms(3) by simp
  then show ?thesis using cfg expected_alerts_shards by metis
qed


definition scan_run :: "(visit_order \<times> QueuedPacket) list" where
  "scan_run = map (\<lambda>(port, t). (rev, probe 7 port t))
     [(1, 1), (2, 1), (3, 2), (4, 2), (5, 3), (6, 3), (7, 4), (8, 4), (9, 5), (10, 5)]"


end
