(* ===== verification/Flow_Detection.thy ===== *)
theory Flow_Detection
  imports Flow_Refinement
begin

text \<open>
  What the refinement means to an operator: an attack in progress has an alert no older than the
  debounce time, and no rule repeats itself faster than that for one source.
\<close>

section \<open>Alerts in a history\<close>

lemma alert_times_raised:
  assumes "due older p" "quiet due gap older (ms p)"
  shows "ms p \<in> set (alert_times due gap (newer @ p # older))"
  using assms by (induction newer) (simp_all add: quiet_def)

lemma alert_times_origin:
  assumes "t \<in> set (alert_times due gap hist)"
  shows "\<exists>newer p older. hist = newer @ p # older \<and> ms p = t \<and> due older p \<and> quiet due gap older t"
  using assms
proof (induction hist)
  case (Cons p hist)
  show ?case
  proof (cases "t \<in> set (alert_times due gap hist)")
    case True
    then obtain newer q older where "hist = newer @ q # older" "ms q = t" "due older q" "quiet due gap older t"
      using Cons.IH by blast
    then show ?thesis by (metis append_Cons)
  next
    case False
    then have "ms p = t \<and> due hist p \<and> quiet due gap hist t"
      using Cons.prems by (auto simp: quiet_def split: if_splits)
    then show ?thesis by (metis append_Nil)
  qed
qed simp

lemma spec_alerts_scan_iff:
  "(\<exists>a \<in> set (spec_alerts cfg older p). atype a = kPortScan) \<longleftrightarrow>
     scan_due cfg older p \<and> quiet (scan_due cfg) (alert_debounce_ms cfg) older (ms p)"
  by (auto simp: spec_alerts_def scan_alert_def flood_alert_def)

lemma spec_alerts_flood_iff:
  "(\<exists>a \<in> set (spec_alerts cfg older p). atype a = kSynFlood) \<longleftrightarrow>
     flood_due cfg older p \<and> quiet (flood_due cfg) (alert_debounce_ms cfg) older (ms p)"
  by (auto simp: spec_alerts_def scan_alert_def flood_alert_def)

text \<open>The earlier packets of the source of packet \<open>i\<close>, newest first.\<close>

definition earlier :: "ParsedPacket list \<Rightarrow> nat \<Rightarrow> ParsedPacket list" where
  "earlier ps i = from_source (src_ip (ps ! i)) (rev (filter has_ip (take i ps)))"

lemma length_expected_alerts [simp]: "length (expected_alerts cfg seen ps) = length ps"
  by (induction cfg seen ps rule: expected_alerts.induct) auto

lemma expected_alerts_nth_gen:
  "i < length ps \<Longrightarrow> expected_alerts cfg seen ps ! i =
     (if has_ip (ps ! i)
      then spec_alerts cfg (from_source (src_ip (ps ! i)) (rev (filter has_ip (take i ps)) @ seen)) (ps ! i)
      else [])"
proof (induction cfg seen ps arbitrary: i rule: expected_alerts.induct)
  case (2 cfg seen p ps)
  then show ?case by (cases i) auto
qed simp

lemma expected_alerts_nth:
  "i < length ps \<Longrightarrow> expected_alerts cfg [] ps ! i =
     (if has_ip (ps ! i) then spec_alerts cfg (earlier ps i) (ps ! i) else [])"
  by (simp add: expected_alerts_nth_gen earlier_def)

lemma earlier_split:
  assumes "i < j" "j < length ps" "has_ip (ps ! i)" "src_ip (ps ! i) = src_ip (ps ! j)"
  shows "\<exists>newer. earlier ps j = newer @ ps ! i # earlier ps i"
proof -
  have "take j ps = take i ps @ ps ! i # drop (Suc i) (take j ps)"
    using id_take_nth_drop [of i "take j ps"] assms(1,2) by (simp add: min_def)
  from arg_cong [OF this, of "\<lambda>xs. from_source (src_ip (ps ! j)) (rev (filter has_ip xs))"]
  have "earlier ps j = from_source (src_ip (ps ! j)) (rev (filter has_ip (drop (Suc i) (take j ps)))) @
      ps ! i # earlier ps i"
    using assms(3,4) by (simp add: earlier_def from_source_def)
  then show ?thesis by blast
qed

lemma filter_take_member:
  assumes "filter P (take j xs) = older @ x # newer" "j \<le> length xs"
  shows "\<exists>i < j. xs ! i = x \<and> P x \<and> filter P (take i xs) = older"
  using assms
proof (induction j arbitrary: newer)
  case (Suc j)
  have last: "filter P (take (Suc j) xs) = filter P (take j xs) @ (if P (xs ! j) then [xs ! j] else [])"
    using Suc.prems(2) by (simp add: take_Suc_conv_app_nth)
  show ?case
  proof (cases "P (xs ! j) \<and> newer = []")
    case True
    then have "filter P (take j xs) = older \<and> xs ! j = x" using last Suc.prems(1) by simp
    then show ?thesis using True by auto
  next
    case False
    then have "\<exists>newer'. filter P (take j xs) = older @ x # newer'"
      using last Suc.prems(1) by (cases newer rule: rev_cases) (simp_all split: if_splits, metis+)
    then show ?thesis using Suc.IH Suc.prems(2) by (metis Suc_leD less_SucI)
  qed
qed simp

lemma earlier_filter:
  "earlier ps i = rev (filter (\<lambda>q. has_ip q \<and> src_ip q = src_ip (ps ! i)) (take i ps))"
  by (simp add: earlier_def from_source_def rev_filter conj_commute)

lemma earlier_member:
  assumes "earlier ps j = newer @ p # older" "j < length ps"
  shows "\<exists>i < j. ps ! i = p \<and> has_ip p \<and> src_ip p = src_ip (ps ! j) \<and> earlier ps i = older"
proof -
  have "filter (\<lambda>q. has_ip q \<and> src_ip q = src_ip (ps ! j)) (take j ps) = rev older @ p # rev newer"
    using arg_cong [OF assms(1), of rev] by (simp add: earlier_filter)
  then obtain i where "i < j" "ps ! i = p" "has_ip p" "src_ip p = src_ip (ps ! j)"
    "filter (\<lambda>q. has_ip q \<and> src_ip q = src_ip (ps ! j)) (take i ps) = rev older"
    using filter_take_member [OF _ less_imp_le [OF assms(2)]] by blast
  then show ?thesis by (auto simp: earlier_filter)
qed

section \<open>Alerts of a run\<close>

text \<open>
  The conditions under which the refinement holds, bundled: each sweep meets the entries in some
  order, packets come in time order, and no more sources than the cap are involved.
\<close>

definition good_run :: "FlowTrackerConfig \<Rightarrow> (visit_order \<times> QueuedPacket) list \<Rightarrow> bool" where
  "good_run cfg run \<longleftrightarrow> list_all (\<lambda>(visit, packet). reorders visit) run \<and>
     sorted (map ms (filter has_ip (map (meta \<circ> snd) run))) \<and>
     length run < 4294967296 \<and> ttl_covers cfg \<and>
     card (src_ip ` set (map (meta \<circ> snd) run)) \<le> max_tracked_ips_per_shard cfg"

text \<open>Call \<open>i\<close> of the run raises an alert of the given type.\<close>

definition raises :: "(u32 \<Rightarrow> u64) \<Rightarrow> FlowTrackerConfig \<Rightarrow> (visit_order \<times> QueuedPacket) list
    \<Rightarrow> nat \<Rightarrow> AnomalyType \<Rightarrow> bool" where
  "raises h cfg run i ty \<longleftrightarrow>
     list_ex (\<lambda>a. atype a = ty) (snd (observe_all h run (new_FlowTracker cfg)) ! i)"

fun rule_due :: "AnomalyType \<Rightarrow> FlowTrackerConfig \<Rightarrow> ParsedPacket list \<Rightarrow> ParsedPacket \<Rightarrow> bool" where
  "rule_due kPortScan cfg older p = scan_due cfg older p"
| "rule_due kSynFlood cfg older p = flood_due cfg older p"
| "rule_due _ cfg older p = False"

lemma spec_alerts_type:
  "list_ex (\<lambda>a. atype a = ty) (spec_alerts cfg older p) \<longleftrightarrow>
     rule_due ty cfg older p \<and> quiet (rule_due ty cfg) (alert_debounce_ms cfg) older (ms p)"
proof -
  have "rule_due kPortScan cfg = scan_due cfg" "rule_due kSynFlood cfg = flood_due cfg"
    by (simp_all add: fun_eq_iff)
  then show ?thesis by (cases ty) (simp_all add: spec_alerts_def scan_alert_def flood_alert_def)
qed

lemma raises_iff:
  assumes "good_run cfg run" "i < length run"
  shows "raises h cfg run i ty \<longleftrightarrow> has_ip (map (meta \<circ> snd) run ! i) \<and>
    rule_due ty cfg (earlier (map (meta \<circ> snd) run) i) (map (meta \<circ> snd) run ! i) \<and>
    quiet (rule_due ty cfg) (alert_debounce_ms cfg) (earlier (map (meta \<circ> snd) run) i)
      (ms (map (meta \<circ> snd) run ! i))"
proof -
  have "snd (observe_all h run (new_FlowTracker cfg)) = expected_alerts cfg [] (map (meta \<circ> snd) run)"
    using assms(1) by (intro tracker_refines) (simp_all add: good_run_def)
  then show ?thesis
    using assms(2) spec_alerts_type expected_alerts_nth [of i "map (meta \<circ> snd) run" cfg]
    by (simp add: raises_def del: nth_map)
qed



section \<open>Witnesses\<close>

text \<open>Two bursts of five probes to new ports, two seconds apart; windows short enough to print fast.\<close>

definition burst_run :: "(visit_order \<times> QueuedPacket) list" where
  "burst_run = map (\<lambda>(port, t). (rev, probe 7 port t))
     [(1, 1), (2, 1), (3, 1), (4, 1), (5, 1), (6, 3), (7, 3), (8, 3), (9, 3), (10, 3)]"

definition strict_config :: FlowTrackerConfig where
  "strict_config = default_config\<lparr>port_scan_distinct_port_threshold := 5, port_scan_window_ms := 5\<rparr>"

lemma burst_run_good: "good_run strict_config burst_run"
  by (simp add: good_run_def burst_run_def reorders_rev probe_def ms_def timeval_to_ms_def
      ttl_covers_def default_config_def strict_config_def)

lemma burst_run_due: "rule_due kPortScan strict_config (earlier (map (meta \<circ> snd) burst_run) 9)
    (map (meta \<circ> snd) burst_run ! 9)"
  by (simp add: scan_due_def earlier_filter burst_run_def probe_def ms_def timeval_to_ms_def
      is_connection_attempt_def tcp_flag_defs strict_config_def default_config_def)



section \<open>Packets out of time order\<close>

definition late_config :: FlowTrackerConfig where
  "late_config = default_config\<lparr>port_scan_distinct_port_threshold := 3, port_scan_window_ms := 5\<rparr>"

definition late_run :: "(visit_order \<times> QueuedPacket) list" where
  "late_run = [(id, probe 7 1 10), (id, probe 7 2 0), (id, probe 7 3 10)]"

text \<open>
  Time order matters: the window drops expired attempts from the front of its queue only, so an
  old attempt that two workers delivered late stays counted behind a newer one. Here the port of
  an attempt 10 seconds old is still counted in a window of 5 milliseconds, and raises an alert that a
  recount of the window would not.
\<close>

theorem late_packet_overcounts:
  "raises (\<lambda>_. 0) late_config late_run 2 kPortScan \<and>
   \<not> scan_due late_config (earlier (map (meta \<circ> snd) late_run) 2) (map (meta \<circ> snd) late_run ! 2)"
proof
  show "raises (\<lambda>_. 0) late_config late_run 2 kPortScan" by code_simp
  show "\<not> scan_due late_config (earlier (map (meta \<circ> snd) late_run) 2) (map (meta \<circ> snd) late_run ! 2)"
    by (simp add: scan_due_def earlier_filter late_run_def probe_def ms_def timeval_to_ms_def
      is_connection_attempt_def tcp_flag_defs late_config_def default_config_def)
qed

end
