(* ===== verification/Analysis_Engine.thy ===== *)
theory Analysis_Engine
  imports Entropy Signature_DB Flow_Detection
begin

text \<open>
  The engine of \<open>src/analysis/analysis_engine.cpp\<close> and the entropy backends it computes with
  (\<open>include/netsentinel/entropy_backend.hpp\<close>, \<open>src/analysis/entropy_backend.cpp\<close>). A backend is a
  pair of functions, one to start a computation and one to wait for its result, either of which
  may fail. The locale \<open>entropy_backend\<close> is its documented contract: results that do arrive are
  the entropies, up to an error. Alerts handed to the sink are the output list.
\<close>

section \<open>Doubles as the engine compares them\<close>

datatype double = NaN | MinusInf | PlusInf | Num real

fun dbl_ge :: "double \<Rightarrow> double \<Rightarrow> bool" where
  "dbl_ge NaN _ = False"
| "dbl_ge _ NaN = False"
| "dbl_ge PlusInf _ = True"
| "dbl_ge _ MinusInf = True"
| "dbl_ge (Num x) (Num y) = (x \<ge> y)"
| "dbl_ge (Num x) PlusInf = False"
| "dbl_ge MinusInf (Num y) = False"
| "dbl_ge MinusInf PlusInf = False"

text \<open>\<open>%.2f\<close>: the nearest multiple of a hundredth, ties to the even one.\<close>

definition round_half_even :: "real \<Rightarrow> int" where
  "round_half_even x =
     (let f = \<lfloor>x\<rfloor>; d = x - of_int f
      in if d < 1 / 2 \<or> (d = 1 / 2 \<and> even f) then f else f + 1)"

definition fixed2 :: "real \<Rightarrow> string" where
  "fixed2 x =
     (let n = nat (round_half_even (100 * \<bar>x\<bar>))
      in (if x < 0 then ''-'' else []) @ dec_nat (n div 100) @ ''.'' @
         [digit_char (n div 10 mod 10), digit_char (n mod 10)])"

section \<open>Entropy backends\<close>

record 'w EntropyBackend =
  start :: "QueuedPacket list \<Rightarrow> 'w option"
  wait :: "'w \<Rightarrow> real list option"

definition compute :: "'w EntropyBackend \<Rightarrow> QueuedPacket list \<Rightarrow> real list option" where
  "compute backend packets =
     (case start backend packets of None \<Rightarrow> None | Some pending \<Rightarrow> wait backend pending)"

datatype ReadyEntropy = ReadyEntropy (ready_values: "real list")

definition CpuEntropyBackend :: "ReadyEntropy EntropyBackend" where
  "CpuEntropyBackend =
     \<lparr>start = \<lambda>packets. Some (ReadyEntropy (map (\<lambda>p. shannon_entropy (qpayload p)) packets)),
      wait = \<lambda>pending. Some (ready_values pending)\<rparr>"

section \<open>The engine\<close>

record AnalysisConfig =
  flow :: FlowTrackerConfig
  entropy_threshold :: double
  entropy_min_payload_bytes :: size_t

definition default_analysis_config :: AnalysisConfig where
  "default_analysis_config =
     \<lparr>flow = default_config, entropy_threshold = Num 7, entropy_min_payload_bytes = 32\<rparr>"

record AnalysisEngine =
  engine_config :: AnalysisConfig
  fallbacks :: u64
  flow_tracker :: FlowTracker
  signatures :: SignatureDatabase

definition new_AnalysisEngine :: "AnalysisConfig \<Rightarrow> AnalysisEngine" where
  "new_AnalysisEngine cfg = \<lparr>engine_config = cfg, fallbacks = 0,
     flow_tracker = new_FlowTracker (flow cfg), signatures = new_SignatureDatabase\<rparr>"

definition alert_for :: "AnomalyType \<Rightarrow> QueuedPacket \<Rightarrow> string \<Rightarrow> Alert" where
  "alert_for ty packet text = \<lparr>atype = ty, alert_src_ip = src_ip (meta packet),
     alert_dst_ip = dst_ip (meta packet), alert_src_port = src_port (meta packet),
     alert_dst_port = dst_port (meta packet), detail = text\<rparr>"

definition signature_alerts :: "SignatureDatabase \<Rightarrow> QueuedPacket \<Rightarrow> Alert list" where
  "signature_alerts db packet =
     (if payload_size packet > 0 \<and> matches db (qpayload packet)
      then [alert_for kSignatureMatch packet ''payload matches a known-bad signature hash''] else [])"

text \<open>The loop over the batch between \<open>start\<close> and \<open>wait\<close>.\<close>

fun inspect_packets :: "(u32 \<Rightarrow> u64) \<Rightarrow> SignatureDatabase \<Rightarrow> (visit_order \<times> QueuedPacket) list
    \<Rightarrow> FlowTracker \<Rightarrow> FlowTracker \<times> Alert list" where
  "inspect_packets hash32 db [] ft = (ft, [])"
| "inspect_packets hash32 db ((visit, packet) # rest) ft =
     (let (ft, flow_alerts) = observe visit hash32 ft packet;
          (ft, later) = inspect_packets hash32 db rest ft
      in (ft, signature_alerts db packet @ flow_alerts @ later))"

definition entropy_detail :: "real \<Rightarrow> QueuedPacket \<Rightarrow> string" where
  "entropy_detail e packet = snprintf 96 (''entropy='' @ fixed2 e @ '' bits/byte over '' @
     dec_nat (payload_size packet) @ ''B'')"

definition entropy_alerts :: "AnalysisConfig \<Rightarrow> QueuedPacket list \<Rightarrow> real list \<Rightarrow> Alert list" where
  "entropy_alerts cfg eligible entropies =
     concat (map (\<lambda>(packet, e). if dbl_ge (Num e) (entropy_threshold cfg)
               then [alert_for kHighEntropyPayload packet (entropy_detail e packet)] else [])
            (zip eligible entropies))"

definition analyze_batch :: "'w EntropyBackend \<Rightarrow> (u32 \<Rightarrow> u64) \<Rightarrow> (visit_order \<times> QueuedPacket) list
    \<Rightarrow> AnalysisEngine \<Rightarrow> AnalysisEngine \<times> Alert list" where
  "analyze_batch backend hash32 batch engine =
     (let cfg = engine_config engine;
          eligible = filter (\<lambda>p. payload_size p \<ge> entropy_min_payload_bytes cfg) (map snd batch);
          pending = (if eligible \<noteq> [] then start backend eligible else None);
          (ft, alerts) = inspect_packets hash32 (signatures engine) batch (flow_tracker engine);
          engine = engine\<lparr>flow_tracker := ft\<rparr>
      in if eligible = [] then (engine, alerts)
         else
           let waited = (case pending of None \<Rightarrow> None | Some w \<Rightarrow> wait backend w);
               good = (case waited of None \<Rightarrow> False | Some es \<Rightarrow> length es = length eligible);
               engine = (if good then engine else engine\<lparr>fallbacks := fallbacks engine + 1\<rparr>);
               entropies = (if good then the waited
                            else case compute CpuEntropyBackend eligible of None \<Rightarrow> [] | Some es \<Rightarrow> es)
           in (engine, alerts @ entropy_alerts cfg eligible entropies))"

end
