(* ===== verification/Engine_Correct.thy ===== *)
theory Engine_Correct
  imports Analysis_Engine
begin

text \<open>
  Correctness of the engine: whatever a backend does, every batch gets its entropies (from the
  CPU when the backend fails); cutting the traffic into batches does not change what is reported;
  and the alerts of a whole run are those of the three rules' specifications.
\<close>

section \<open>The contract of a backend\<close>

abbreviation cpu_entropies :: "QueuedPacket list \<Rightarrow> real list" where
  "cpu_entropies ps \<equiv> map (\<lambda>p. shannon_entropy (qpayload p)) ps"

text \<open>The entropies the engine ends up with for a batch of eligible packets.\<close>

definition chosen :: "(QueuedPacket list \<Rightarrow> 'w option) \<Rightarrow> ('w \<Rightarrow> real list option) \<Rightarrow> QueuedPacket list
    \<Rightarrow> real list" where
  "chosen begin_with collect ps =
     (case begin_with ps of None \<Rightarrow> cpu_entropies ps
      | Some w \<Rightarrow> (case collect w of None \<Rightarrow> cpu_entropies ps
          | Some es \<Rightarrow> if length es = length ps then es else cpu_entropies ps))"

text \<open>\<open>fits\<close> says for which batches the backend's results are trusted.\<close>

locale entropy_backend =
  fixes begin_with :: "QueuedPacket list \<Rightarrow> 'w option"
    and collect :: "'w \<Rightarrow> real list option"
    and fits :: "QueuedPacket list \<Rightarrow> bool"
    and err :: real
  assumes accurate: "fits ps \<Longrightarrow> begin_with ps = Some w \<Longrightarrow> collect w = Some es \<Longrightarrow> length es = length ps \<Longrightarrow>
      i < length ps \<Longrightarrow> \<bar>es ! i - shannon_entropy (qpayload (ps ! i))\<bar> \<le> err"
    and err_nonneg: "0 \<le> err"
begin

lemma chosen_length: "length (chosen begin_with collect ps) = length ps"
  by (simp add: chosen_def split: option.split)

lemma chosen_close:
  "fits ps \<Longrightarrow> i < length ps \<Longrightarrow>
     \<bar>chosen begin_with collect ps ! i - shannon_entropy (qpayload (ps ! i))\<bar> \<le> err"
  using accurate err_nonneg by (auto simp: chosen_def split: option.split)

text \<open>Away from the threshold the error does not matter.\<close>

lemma chosen_same_side:
  assumes "fits ps" "i < length ps" "\<bar>shannon_entropy (qpayload (ps ! i)) - t\<bar> > err"
  shows "chosen begin_with collect ps ! i \<ge> t \<longleftrightarrow> shannon_entropy (qpayload (ps ! i)) \<ge> t"
  using chosen_close [OF assms(1,2)] assms(3) by linarith

end

locale exact_backend = entropy_backend begin_with collect fits 0 for
  begin_with :: "QueuedPacket list \<Rightarrow> 'w option" and collect :: "'w \<Rightarrow> real list option"
  and fits :: "QueuedPacket list \<Rightarrow> bool"
begin

lemma chosen_exact: "fits ps \<Longrightarrow> chosen begin_with collect ps = cpu_entropies ps"
  using chosen_close [of ps] by (intro nth_equalityI) (simp_all add: chosen_length)

end

interpretation cpu: exact_backend "start CpuEntropyBackend" "wait CpuEntropyBackend" "\<lambda>_. True"
  by unfold_locales (auto simp: CpuEntropyBackend_def)

section \<open>One batch\<close>

definition eligible_packets :: "AnalysisConfig \<Rightarrow> QueuedPacket list \<Rightarrow> QueuedPacket list" where
  "eligible_packets cfg ps = filter (\<lambda>p. payload_size p \<ge> entropy_min_payload_bytes cfg) ps"

lemma compute_cpu: "compute CpuEntropyBackend ps = Some (cpu_entropies ps)"
  by (simp add: compute_def CpuEntropyBackend_def)

definition batch_failed :: "'w EntropyBackend \<Rightarrow> QueuedPacket list \<Rightarrow> bool" where
  "batch_failed backend eligible \<longleftrightarrow> eligible \<noteq> [] \<and>
     (case start backend eligible of None \<Rightarrow> True
      | Some w \<Rightarrow> (case wait backend w of None \<Rightarrow> True | Some es \<Rightarrow> length es \<noteq> length eligible))"

lemma analyze_batch_eq:
  fixes batch engine
  defines "eligible \<equiv> eligible_packets (engine_config engine) (map snd batch)"
  shows "analyze_batch backend h batch engine =
    (engine\<lparr>flow_tracker := fst (inspect_packets h (signatures engine) batch (flow_tracker engine)),
            fallbacks := fallbacks engine + (if batch_failed backend eligible then 1 else 0)\<rparr>,
     snd (inspect_packets h (signatures engine) batch (flow_tracker engine)) @
     entropy_alerts (engine_config engine) eligible
       (chosen (start backend) (wait backend) eligible))"
  by (cases "inspect_packets h (signatures engine) batch (flow_tracker engine)")
    (auto simp: analyze_batch_def eligible_def eligible_packets_def [symmetric] Let_def compute_cpu
      batch_failed_def chosen_def entropy_alerts_def split: option.split)

lemma observe_all_Cons: "observe_all h (vp # run) ft =
    (let r = observe (fst vp) h ft (snd vp); later = observe_all h run (fst r)
     in (fst later, snd r # snd later))"
  by (cases vp) (simp add: Let_def split_beta)

lemma inspect_packets_Cons: "inspect_packets h db (vp # rest) ft =
    (let r = observe (fst vp) h ft (snd vp); later = inspect_packets h db rest (fst r)
     in (fst later, signature_alerts db (snd vp) @ snd r @ snd later))"
  by (cases vp) (simp add: Let_def split_beta)

lemma inspect_packets_tracker:
  "fst (inspect_packets h db batch ft) = fst (observe_all h batch ft)"
  by (induction batch arbitrary: ft) (simp_all add: observe_all_Cons inspect_packets_Cons Let_def
      del: observe_all.simps(2) inspect_packets.simps(2))

lemma inspect_packets_alerts:
  "mset (snd (inspect_packets h db batch ft)) =
     mset (concat (map (signature_alerts db \<circ> snd) batch)) + mset (concat (snd (observe_all h batch ft)))"
  by (induction batch arbitrary: ft) (simp_all add: observe_all_Cons inspect_packets_Cons Let_def
      del: observe_all.simps(2) inspect_packets.simps(2))

text \<open>
  C19. A failing backend costs nothing but time: when it cannot start, does not finish or returns
  the wrong number of values, the engine reports exactly the alerts it reports with the CPU
  backend, and counts one fallback.
\<close>

theorem analyze_batch_fallback:
  assumes "batch_failed backend (eligible_packets (engine_config engine) (map snd batch))"
  shows "analyze_batch backend hash32 batch engine =
    ((fst (analyze_batch CpuEntropyBackend hash32 batch engine))\<lparr>fallbacks := fallbacks engine + 1\<rparr>,
     snd (analyze_batch CpuEntropyBackend hash32 batch engine))"
proof -
  let ?el = "eligible_packets (engine_config engine) (map snd batch)"
  have "chosen (start backend) (wait backend) ?el = cpu_entropies ?el"
    using assms by (auto simp: batch_failed_def chosen_def split: option.splits)
  then show ?thesis using assms by (simp add: analyze_batch_eq cpu.chosen_exact)
qed

theorem analyze_batch_fallback_witness:
  "analyze_batch \<lparr>start = (\<lambda>_. Some ()), wait = (\<lambda>_. Some [1, 2])\<rparr> (\<lambda>_. 0)
      [(id, \<lparr>meta = default_packet, qpayload = replicate 32 0\<rparr>)] (new_AnalysisEngine default_analysis_config) =
    ((fst (analyze_batch CpuEntropyBackend (\<lambda>_. 0) [(id, \<lparr>meta = default_packet, qpayload = replicate 32 0\<rparr>)]
        (new_AnalysisEngine default_analysis_config)))\<lparr>fallbacks := 1\<rparr>,
     snd (analyze_batch CpuEntropyBackend (\<lambda>_. 0) [(id, \<lparr>meta = default_packet, qpayload = replicate 32 0\<rparr>)]
        (new_AnalysisEngine default_analysis_config)))"
proof -
  have "batch_failed \<lparr>start = (\<lambda>_. Some ()), wait = (\<lambda>_. Some [1, 2])\<rparr>
      (eligible_packets (engine_config (new_AnalysisEngine default_analysis_config))
         (map snd [(id :: visit_order, \<lparr>meta = default_packet, qpayload = replicate 32 0\<rparr>)]))"
    by (simp add: batch_failed_def eligible_packets_def new_AnalysisEngine_def default_analysis_config_def
        payload_size_def)
  from analyze_batch_fallback [OF this, of "\<lambda>_. 0"] show ?thesis by (simp add: new_AnalysisEngine_def)
qed

section \<open>A whole run\<close>

text \<open>Batches in the order the workers' calls take effect, each with the backend as it behaves then.\<close>

fun analyze_all :: "(u32 \<Rightarrow> u64) \<Rightarrow> ('w EntropyBackend \<times> (visit_order \<times> QueuedPacket) list) list
    \<Rightarrow> AnalysisEngine \<Rightarrow> AnalysisEngine \<times> Alert list" where
  "analyze_all hash32 [] engine = (engine, [])"
| "analyze_all hash32 ((backend, batch) # batches) engine =
     (let (engine, alerts) = analyze_batch backend hash32 batch engine;
          (engine, later) = analyze_all hash32 batches engine
      in (engine, alerts @ later))"

text \<open>The batch is one for which its backend is correct whenever it returns.\<close>

definition exact_on :: "AnalysisConfig \<Rightarrow> 'w EntropyBackend \<times> (visit_order \<times> QueuedPacket) list \<Rightarrow> bool" where
  "exact_on cfg bb \<longleftrightarrow> chosen (start (fst bb)) (wait (fst bb)) (eligible_packets cfg (map snd (snd bb))) =
     cpu_entropies (eligible_packets cfg (map snd (snd bb)))"

lemma exact_on_cpu: "exact_on cfg (CpuEntropyBackend, batch)"
  by (simp add: exact_on_def cpu.chosen_exact)

lemma exact_on_backend:
  "exact_backend (start backend) (wait backend) fits \<Longrightarrow> fits (eligible_packets cfg (map snd batch)) \<Longrightarrow>
     exact_on cfg (backend, batch)"
  by (simp add: exact_on_def exact_backend.chosen_exact)

text \<open>What the payload rules ask of one packet, independent of batches and backends.\<close>

definition payload_alerts :: "AnalysisConfig \<Rightarrow> SignatureDatabase \<Rightarrow> QueuedPacket \<Rightarrow> Alert list" where
  "payload_alerts cfg db p = signature_alerts db p @
     (if payload_size p \<ge> entropy_min_payload_bytes cfg \<and>
         dbl_ge (Num (shannon_entropy (qpayload p))) (entropy_threshold cfg)
      then [alert_for kHighEntropyPayload p (entropy_detail (shannon_entropy (qpayload p)) p)] else [])"

lemma entropy_alerts_exact:
  "mset (concat (map (signature_alerts db) ps)) +
   mset (entropy_alerts cfg (eligible_packets cfg ps) (cpu_entropies (eligible_packets cfg ps))) =
   mset (concat (map (payload_alerts cfg db) ps))"
  by (induction ps) (simp_all add: entropy_alerts_def eligible_packets_def payload_alerts_def)

lemma observe_all_append:
  "fst (observe_all h (xs @ ys) ft) = fst (observe_all h ys (fst (observe_all h xs ft)))"
  "snd (observe_all h (xs @ ys) ft) = snd (observe_all h xs ft) @ snd (observe_all h ys (fst (observe_all h xs ft)))"
  by (induction xs arbitrary: ft)
    (simp_all add: observe_all_Cons Let_def del: observe_all.simps(2))

lemma analyze_all_alerts:
  assumes "list_all (exact_on (engine_config engine)) batches"
  shows "mset (snd (analyze_all h batches engine)) =
    mset (concat (map (payload_alerts (engine_config engine) (signatures engine))
        (map snd (concat (map snd batches))))) +
    mset (concat (snd (observe_all h (concat (map snd batches)) (flow_tracker engine))))"
  using assms
proof (induction batches arbitrary: engine)
  case (Cons bb batches)
  obtain backend batch where bb: "bb = (backend, batch)" by fastforce
  let ?e = "fst (analyze_batch backend h batch engine)"
  have exact: "chosen (start backend) (wait backend) (eligible_packets (engine_config engine) (map snd batch)) =
      cpu_entropies (eligible_packets (engine_config engine) (map snd batch))"
    using Cons.prems bb by (simp add: exact_on_def)
  have eng: "engine_config ?e = engine_config engine" "signatures ?e = signatures engine"
    "flow_tracker ?e = fst (observe_all h batch (flow_tracker engine))"
    by (simp_all add: analyze_batch_eq inspect_packets_tracker)
  have "mset (snd (analyze_batch backend h batch engine)) =
      mset (concat (map (payload_alerts (engine_config engine) (signatures engine)) (map snd batch))) +
      mset (concat (snd (observe_all h batch (flow_tracker engine))))"
    using entropy_alerts_exact [of "signatures engine" "map snd batch" "engine_config engine"]
    by (simp add: analyze_batch_eq inspect_packets_alerts exact ac_simps)
  moreover have "snd (analyze_all h (bb # batches) engine)
      = snd (analyze_batch backend h batch engine) @ snd (analyze_all h batches ?e)"
    by (simp add: bb Let_def split_beta)
  ultimately show ?case
    using Cons.IH [of ?e] Cons.prems by (simp add: bb eng observe_all_append ac_simps)
qed simp



text \<open>
  C24. How the traffic is cut into batches does not matter: two runs over the same packets, in
  batches of any sizes and with any correct backends, leave the same flow state and report the
  same alerts up to their order.
\<close>

theorem batching_irrelevant:
  assumes "list_all (exact_on (engine_config engine)) batches"
    and "list_all (exact_on (engine_config engine)) batches'"
    and "concat (map snd batches) = concat (map snd batches')"
  shows "mset (snd (analyze_all hash32 batches engine)) = mset (snd (analyze_all hash32 batches' engine)) \<and>
    flow_tracker (fst (analyze_all hash32 batches engine)) = flow_tracker (fst (analyze_all hash32 batches' engine))"
proof
  show "mset (snd (analyze_all hash32 batches engine)) = mset (snd (analyze_all hash32 batches' engine))"
    using analyze_all_alerts [OF assms(1)] analyze_all_alerts [OF assms(2)] assms(3) by simp
  have tracker: "flow_tracker (fst (analyze_all hash32 bs engine)) =
      fst (observe_all hash32 (concat (map snd bs)) (flow_tracker engine))"
    for bs :: "('c EntropyBackend \<times> (visit_order \<times> QueuedPacket) list) list" and engine
  proof (induction bs arbitrary: engine)
    case (Cons bb bs)
    then show ?case
      by (cases bb) (simp add: Let_def split_beta observe_all_append analyze_batch_eq inspect_packets_tracker)
  qed simp
  show "flow_tracker (fst (analyze_all hash32 batches engine)) = flow_tracker (fst (analyze_all hash32 batches' engine))"
    unfolding tracker assms(3) ..
qed

theorem batching_irrelevant_witness:
  "mset (snd (analyze_all (\<lambda>_. 0) [(CpuEntropyBackend, burst_run)] (new_AnalysisEngine default_analysis_config))) =
   mset (snd (analyze_all (\<lambda>_. 0) [(CpuEntropyBackend, take 3 burst_run), (CpuEntropyBackend, drop 3 burst_run)]
     (new_AnalysisEngine default_analysis_config)))"
proof -
  have "list_all (exact_on (engine_config (new_AnalysisEngine default_analysis_config))) [(CpuEntropyBackend, burst_run)]"
    and "list_all (exact_on (engine_config (new_AnalysisEngine default_analysis_config)))
      [(CpuEntropyBackend, take 3 burst_run), (CpuEntropyBackend, drop 3 burst_run)]"
    by (simp_all add: exact_on_cpu)
  from batching_irrelevant [OF this] show ?thesis by simp
qed

section \<open>Backends with rounding error\<close>

definition without_detail :: "Alert \<Rightarrow> Alert" where
  "without_detail a = a\<lparr>detail := []\<rparr>"

lemma without_detail_alert_for [simp]: "without_detail (alert_for ty p x) = alert_for ty p []"
  by (simp add: without_detail_def alert_for_def)

lemma entropy_alerts_same_flags:
  assumes "length es = length ps" "length es' = length ps"
    and "\<And>i. i < length ps \<Longrightarrow> dbl_ge (Num (es ! i)) (entropy_threshold cfg)
      = dbl_ge (Num (es' ! i)) (entropy_threshold cfg)"
  shows "map without_detail (entropy_alerts cfg ps es) = map without_detail (entropy_alerts cfg ps es')"
  using assms
proof (induction ps arbitrary: es es')
  case (Cons p ps)
  obtain e es1 e' es1' where es: "es = e # es1" "es' = e' # es1'"
    using Cons.prems(1,2) by (metis length_Suc_conv)
  have "dbl_ge (Num e) (entropy_threshold cfg) = dbl_ge (Num e') (entropy_threshold cfg)"
    using Cons.prems(3) [of 0] by (simp add: es)
  moreover have "map without_detail (entropy_alerts cfg ps es1) = map without_detail (entropy_alerts cfg ps es1')"
    using Cons.prems by (intro Cons.IH) (use Cons.prems(3) [of "Suc _"] in \<open>auto simp: es\<close>)
  ultimately show ?case by (auto simp: es entropy_alerts_def)
qed simp


text \<open>A backend that is off by a thousandth, on a payload of 32 equal bytes.\<close>

definition drifting_backend :: "QueuedPacket list EntropyBackend" where
  "drifting_backend = \<lparr>start = Some, wait = \<lambda>ps. Some (map (\<lambda>p. shannon_entropy (qpayload p) + 1 / 1000) ps)\<rparr>"

lemma drifting_backend_contract:
  "entropy_backend (start drifting_backend) (wait drifting_backend) (\<lambda>_. True) (1 / 1000)"
  by unfold_locales (auto simp: drifting_backend_def)

lemma zeros_entropy: "shannon_entropy (replicate 32 0) \<le> 0"
  using shannon_entropy_spec [of "replicate 32 0"] entropy_le_log_distinct [of "replicate 32 0"] by simp


section \<open>Alert lines\<close>

lemma flow_details: "a \<in> set (snd (observe visit h ft packet)) \<Longrightarrow> length (detail a) < 96"
proof (cases "has_ip (meta packet)")
  case True
  assume "a \<in> set (snd (observe visit h ft packet))"
  then obtain st where "a \<in> set (snd (observe_ip (config ft) (meta packet) st))"
    using True by (auto simp: observe_ip_case Let_def observe_shard_cases)
  then show ?thesis
    by (auto simp: observe_ip_def port_scan_rule_def syn_flood_rule_def Let_def port_scan_detail_def
        syn_flood_detail_def intro!: length_snprintf split: prod.splits if_splits)
qed (simp add: observe_no_ip)

lemma inspect_details: "a \<in> set (snd (inspect_packets h db batch ft)) \<Longrightarrow> length (detail a) < 96"
proof (induction batch arbitrary: ft)
  case (Cons vp batch)
  then show ?case using flow_details
    by (auto simp: inspect_packets_Cons Let_def signature_alerts_def alert_for_def split: if_splits
        simp del: inspect_packets.simps(2))
qed simp

text \<open>
  C27. No alert line is cut off: every alert \<open>analyze_batch\<close> hands to the sink, from any batch,
  backend and state, is printed in full by \<open>format_alert\<close>.
\<close>

theorem alert_lines_complete:
  "list_all (\<lambda>a. format_alert a = alert_text a) (snd (analyze_batch backend hash32 batch engine))"
proof -
  have "length (detail a) < 96" if "a \<in> set (entropy_alerts cfg ps es)" for a cfg ps es
    using that by (auto simp: entropy_alerts_def alert_for_def entropy_detail_def intro!: length_snprintf
        split: if_splits)
  then have "\<forall>a \<in> set (snd (analyze_batch backend hash32 batch engine)). length (detail a) < 96"
    using inspect_details by (auto simp: analyze_batch_eq)
  then show ?thesis by (simp add: list_all_iff format_alert_fits)
qed

end
