(* ===== verification/Worker_Pool.thy ===== *)
theory Worker_Pool
  imports Packet_Queue
begin

text \<open>
  The pipeline that \<open>src/main.cpp\<close> builds: one capture thread that pushes the packets of its
  source, a pool of workers (\<open>src/queue/worker_pool.cpp\<close>) and the main thread that joins the
  capture thread, shuts the queue down and joins the pool. A step is one region under the queue's
  mutex, one notification, or one action of a thread outside it; the order of steps is arbitrary.
  Both waits of \<open>pop_batch\<close> are timed, so a waiting worker may go on at any time; the wait of
  \<open>push\<close> is not, so the model keeps track of who sleeps there and who has been notified.
\<close>

section \<open>Threads\<close>

text \<open>The capture thread: between packets, asleep in \<open>not_full_.wait\<close>, notified, or returned.\<close>

datatype 'a capture_pc = CIdle | CBlocked 'a | CWoken 'a | CDone

text \<open>
  A worker: before \<open>pop_batch\<close>, in its first and second wait, between unlocking and its
  notifications with the batch taken, back from \<open>pop_batch\<close>, or out of its loop.
\<close>

datatype 'a worker_pc = WStart | WWait | WLinger | WNotify "'a list" bool | WGot "'a list" | WExit

datatype main_pc = MJoinCapture | MShutNotify | MJoinPool | MDone

text \<open>
  \<open>pushed\<close>, \<open>popped\<close> and \<open>analysed\<close> record the history: packets accepted by the queue, packets
  taken from it, and the batches handed to the analysis callback, in order.
\<close>

record 'a pipeline =
  queue :: "'a PacketQueue"
  source :: "'a list"
  capture_pc :: "'a capture_pc"
  workers :: "'a worker_pc list"
  main_pc :: main_pc
  processed :: u64
  batches :: u64
  pushed :: "'a list"
  popped :: "'a list"
  analysed :: "'a list list"

definition pool_size :: "size_t \<Rightarrow> size_t" where
  "pool_size num_workers = (if num_workers = 0 then 1 else num_workers)"

definition pipeline_start :: "size_t \<Rightarrow> size_t \<Rightarrow> 'a list \<Rightarrow> 'a pipeline" where
  "pipeline_start cap num_workers packets =
     \<lparr>queue = new_PacketQueue cap, source = packets, capture_pc = CIdle,
      workers = replicate (pool_size num_workers) WStart, main_pc = MJoinCapture,
      processed = 0, batches = 0, pushed = [], popped = [], analysed = []\<rparr>"

section \<open>Steps\<close>

text \<open>The region of \<open>push\<close> after its wait, for the packet \<open>x\<close> of the capture thread.\<close>

definition do_push :: "'a \<Rightarrow> 'a pipeline \<Rightarrow> 'a pipeline" where
  "do_push x s = (case push_now x (queue s) of (ok, q) \<Rightarrow>
     s\<lparr>queue := q, capture_pc := CIdle, pushed := (if ok then pushed s @ [x] else pushed s)\<rparr>)"

text \<open>\<open>not_full_.notify_all()\<close>: a sleeping capture thread is woken.\<close>

definition notify_not_full :: "'a capture_pc \<Rightarrow> 'a capture_pc" where
  "notify_not_full c = (case c of CBlocked x \<Rightarrow> CWoken x | _ \<Rightarrow> c)"

definition set_worker :: "nat \<Rightarrow> 'a worker_pc \<Rightarrow> 'a pipeline \<Rightarrow> 'a pipeline" where
  "set_worker i w s = s\<lparr>workers := (workers s)[i := w]\<rparr>"

text \<open>The last region of \<open>pop_batch\<close> in worker \<open>i\<close>.\<close>

definition do_drain :: "size_t \<Rightarrow> u64 \<Rightarrow> nat \<Rightarrow> 'a pipeline \<Rightarrow> 'a pipeline" where
  "do_drain batch_size ns i s = (case pop_drain batch_size ns (queue s) of (b, left_over, q) \<Rightarrow>
     set_worker i (WNotify b left_over) (s\<lparr>queue := q, popped := popped s @ b\<rparr>))"

text \<open>The body of \<open>worker_loop\<close> on a batch: the callback, then the two counters.\<close>

definition do_analyse :: "'a list \<Rightarrow> nat \<Rightarrow> 'a pipeline \<Rightarrow> 'a pipeline" where
  "do_analyse b i s = set_worker i WStart
     (s\<lparr>analysed := analysed s @ [b], processed := processed s + of_nat (length b),
        batches := batches s + 1\<rparr>)"

inductive pipeline_step :: "size_t \<Rightarrow> int \<Rightarrow> 'a pipeline \<Rightarrow> 'a pipeline \<Rightarrow> bool"
  for batch_size linger_us where
  cap_push: "capture_pc s = CIdle \<Longrightarrow> source s = x # xs \<Longrightarrow> push_ready (queue s) \<Longrightarrow>
     pipeline_step batch_size linger_us s (do_push x (s\<lparr>source := xs\<rparr>))"
| cap_block: "capture_pc s = CIdle \<Longrightarrow> source s = x # xs \<Longrightarrow> \<not> push_ready (queue s) \<Longrightarrow>
     pipeline_step batch_size linger_us s (s\<lparr>source := xs, capture_pc := CBlocked x\<rparr>)"
| cap_spurious: "capture_pc s = CBlocked x \<Longrightarrow>
     pipeline_step batch_size linger_us s (s\<lparr>capture_pc := CWoken x\<rparr>)"
| cap_sleep: "capture_pc s = CWoken x \<Longrightarrow> \<not> push_ready (queue s) \<Longrightarrow>
     pipeline_step batch_size linger_us s (s\<lparr>capture_pc := CBlocked x\<rparr>)"
| cap_retry: "capture_pc s = CWoken x \<Longrightarrow> push_ready (queue s) \<Longrightarrow>
     pipeline_step batch_size linger_us s (do_push x (s\<lparr>queue := push_waited ns (queue s)\<rparr>))"
| cap_done: "capture_pc s = CIdle \<Longrightarrow> source s = [] \<Longrightarrow>
     pipeline_step batch_size linger_us s (s\<lparr>capture_pc := CDone\<rparr>)"
| main_shutdown: "main_pc s = MJoinCapture \<Longrightarrow> capture_pc s = CDone \<Longrightarrow>
     pipeline_step batch_size linger_us s (s\<lparr>queue := queue_shutdown (queue s), main_pc := MShutNotify\<rparr>)"
| main_notify: "main_pc s = MShutNotify \<Longrightarrow>
     pipeline_step batch_size linger_us s
       (s\<lparr>capture_pc := notify_not_full (capture_pc s), main_pc := MJoinPool\<rparr>)"
| main_join: "main_pc s = MJoinPool \<Longrightarrow> list_all (\<lambda>w. w = WExit) (workers s) \<Longrightarrow>
     pipeline_step batch_size linger_us s (s\<lparr>main_pc := MDone\<rparr>)"
| worker_enter: "i < length (workers s) \<Longrightarrow> workers s ! i = WStart \<Longrightarrow>
     pipeline_step batch_size linger_us s
       (set_worker i WWait (s\<lparr>queue := pop_enter batch_size (queue s)\<rparr>))"
| worker_linger: "i < length (workers s) \<Longrightarrow> workers s ! i = WWait \<Longrightarrow>
     must_linger batch_size linger_us (queue s) \<Longrightarrow>
     pipeline_step batch_size linger_us s (set_worker i WLinger s)"
| worker_drain: "i < length (workers s) \<Longrightarrow> workers s ! i = WWait \<Longrightarrow>
     \<not> must_linger batch_size linger_us (queue s) \<Longrightarrow>
     pipeline_step batch_size linger_us s (do_drain batch_size ns i s)"
| worker_linger_drain: "i < length (workers s) \<Longrightarrow> workers s ! i = WLinger \<Longrightarrow>
     pipeline_step batch_size linger_us s (do_drain batch_size ns i s)"
| worker_notify: "i < length (workers s) \<Longrightarrow> workers s ! i = WNotify b left_over \<Longrightarrow>
     pipeline_step batch_size linger_us s (set_worker i (WGot b)
       (s\<lparr>capture_pc := (if b \<noteq> [] then notify_not_full (capture_pc s) else capture_pc s)\<rparr>))"
| worker_analyse: "i < length (workers s) \<Longrightarrow> workers s ! i = WGot b \<Longrightarrow> b \<noteq> [] \<Longrightarrow>
     pipeline_step batch_size linger_us s (do_analyse b i s)"
| worker_exit: "i < length (workers s) \<Longrightarrow> workers s ! i = WGot [] \<Longrightarrow> is_finished (queue s) \<Longrightarrow>
     pipeline_step batch_size linger_us s (set_worker i WExit s)"
| worker_again: "i < length (workers s) \<Longrightarrow> workers s ! i = WGot [] \<Longrightarrow> \<not> is_finished (queue s) \<Longrightarrow>
     pipeline_step batch_size linger_us s (set_worker i WStart s)"

abbreviation pipeline_reachable :: "size_t \<Rightarrow> int \<Rightarrow> 'a pipeline \<Rightarrow> 'a pipeline \<Rightarrow> bool" where
  "pipeline_reachable batch_size linger_us \<equiv> reaches (pipeline_step batch_size linger_us)"

lemmas pipeline_runs = reaches.intros [where next_step = "pipeline_step n l"] reaches_once [where next_step = "pipeline_step n l"] for n l
lemmas pipeline_trans = reaches_trans [where next_step = "pipeline_step n l"] for n l

lemmas pipeline_defs = do_push_def do_drain_def do_analyse_def set_worker_def notify_not_full_def
  push_now_def push_commit_def pop_drain_eq push_waited_def pop_enter_def queue_shutdown_def

section \<open>Invariants\<close>

text \<open>The packets a worker has taken and not yet handed to the callback.\<close>

fun hand :: "'a worker_pc \<Rightarrow> 'a list" where
  "hand (WNotify b _) = b"
| "hand (WGot b) = b"
| "hand _ = []"

definition in_hands :: "'a pipeline \<Rightarrow> 'a list" where
  "in_hands s = concat (map hand (workers s))"

text \<open>The packet the capture thread is pushing.\<close>

fun in_flight :: "'a capture_pc \<Rightarrow> 'a list" where
  "in_flight (CBlocked x) = [x]"
| "in_flight (CWoken x) = [x]"
| "in_flight _ = []"

text \<open>A worker that took packets and has not notified the capture thread yet.\<close>

fun wakes_capture :: "'a worker_pc \<Rightarrow> bool" where
  "wakes_capture (WNotify b _) = (b \<noteq> [])"
| "wakes_capture _ = False"

definition inv_fifo :: "'a pipeline \<Rightarrow> bool" where
  "inv_fifo s \<longleftrightarrow> pushed s = popped s @ items (queue s) \<and> length (items (queue s)) \<le> capacity (queue s)"

definition inv_source :: "'a list \<Rightarrow> 'a pipeline \<Rightarrow> bool" where
  "inv_source packets s \<longleftrightarrow> packets = pushed s @ in_flight (capture_pc s) @ source s \<and>
     (capture_pc s = CDone \<longrightarrow> source s = []) \<and>
     (shutdown_flag (queue s) \<longleftrightarrow> main_pc s \<noteq> MJoinCapture) \<and>
     (main_pc s \<noteq> MJoinCapture \<longrightarrow> capture_pc s = CDone)"

definition inv_hands :: "size_t \<Rightarrow> 'a pipeline \<Rightarrow> bool" where
  "inv_hands batch_size s \<longleftrightarrow>
     mset (popped s) = mset (concat (analysed s)) + mset (in_hands s) \<and>
     processed s = of_nat (length (concat (analysed s))) \<and> batches s = of_nat (length (analysed s)) \<and>
     (\<forall>b \<in> set (analysed s). b \<noteq> [] \<and> length b \<le> batch_size) \<and>
     (\<forall>w \<in> set (workers s). length (hand w) \<le> batch_size)"

definition inv_wake :: "'a pipeline \<Rightarrow> bool" where
  "inv_wake s \<longleftrightarrow> (\<forall>x. capture_pc s = CBlocked x \<longrightarrow>
     \<not> push_ready (queue s) \<or> (\<exists>i < length (workers s). wakes_capture (workers s ! i)))"

definition inv_exit :: "'a pipeline \<Rightarrow> bool" where
  "inv_exit s \<longleftrightarrow> (WExit \<in> set (workers s) \<longrightarrow> is_finished (queue s)) \<and>
     (main_pc s = MDone \<longrightarrow> (\<forall>w \<in> set (workers s). w = WExit))"

lemma mset_hands_update:
  "i < length ws \<Longrightarrow> mset (concat (map hand (ws[i := w]))) + mset (hand (ws ! i)) =
     mset (concat (map hand ws)) + mset (hand w)"
  using sum_list_map_update [of i ws "mset \<circ> hand" w] by (simp add: mset_concat comp_def)

lemma in_hands_update:
  "i < length (workers s) \<Longrightarrow> mset (concat (map hand ((workers s)[i := w]))) + mset (hand (workers s ! i)) =
     mset (in_hands s) + mset (hand w)"
  unfolding in_hands_def by (rule mset_hands_update)

text \<open>The two steps that change the contents, from the contract of the queue.\<close>

lemma do_push_fifo:
  assumes "inv_fifo s" "push_ready (queue s)"
  shows "inv_fifo (do_push x s)"
proof -
  obtain ok q where p: "push_now x (queue s) = (ok, q)" by (cases "push_now x (queue s)")
  show ?thesis
    using assms pq.push_keeps_fifo [OF _ p, of "pushed s" "popped s"] pq.push_keeps_bound [OF assms(2) _ p]
    by (auto simp: inv_fifo_def do_push_def p split: if_splits)
qed

lemma do_drain_fifo:
  assumes "inv_fifo s"
  shows "inv_fifo (do_drain n ns i s)"
proof -
  obtain b lo q where d: "pop_drain n ns (queue s) = (b, lo, q)" by (cases "pop_drain n ns (queue s)")
  then have p: "pop_now n ns (queue s) = (b, q)" by (simp add: pop_now_def)
  show ?thesis
    using assms pq.pop_keeps_fifo [OF _ p, of "pushed s" "popped s"] pq.pop_keeps_bound [OF _ p]
    by (auto simp: inv_fifo_def do_drain_def d set_worker_def)
qed

lemma step_fifo:
  assumes "pipeline_step n l s t" "inv_fifo s"
  shows "inv_fifo t"
  using assms
proof (cases rule: pipeline_step.cases)
  case (cap_push x xs)
  have "inv_fifo (s\<lparr>source := xs\<rparr>)" using assms(2) by (simp add: inv_fifo_def)
  then show ?thesis using cap_push by (simp add: do_push_fifo)
next
  case (cap_retry x ns)
  have "inv_fifo (s\<lparr>queue := push_waited ns (queue s)\<rparr>)"
    using assms(2) by (simp add: inv_fifo_def push_waited_def)
  then show ?thesis using cap_retry by (simp add: do_push_fifo push_waited_def push_ready_def)
next
  case (worker_drain i ns)
  then show ?thesis using assms(2) by (simp add: do_drain_fifo)
next
  case (worker_linger_drain i ns)
  then show ?thesis using assms(2) by (simp add: do_drain_fifo)
qed (auto simp: inv_fifo_def set_worker_def do_analyse_def pop_enter_def queue_shutdown_def)

lemma step_capacity:
  assumes "pipeline_step n l s t"
  shows "capacity (queue t) = capacity (queue s) \<and> length (workers t) = length (workers s)"
  using assms by (cases rule: pipeline_step.cases) (auto simp: pipeline_defs Let_def)

lemma step_source:
  assumes "pipeline_step n l s t" "inv_source packets s"
  shows "inv_source packets t"
  using assms
  by (cases rule: pipeline_step.cases)
    (auto simp: inv_source_def pipeline_defs Let_def split: capture_pc.splits)

text \<open>A worker takes packets \<open>d\<close> from the queue or only changes its place in the code.\<close>

lemma hands_take:
  assumes inv: "inv_hands n s" and i: "i < length (workers s)" and w: "workers t = (workers s)[i := w]"
    and d: "hand w = hand (workers s ! i) @ d" "popped t = popped s @ d" "length (hand w) \<le> n"
    and same: "analysed t = analysed s" "processed t = processed s" "batches t = batches s"
  shows "inv_hands n t"
proof -
  have "mset (in_hands t) + mset (hand (workers s ! i)) = mset (in_hands s) + mset (hand w)"
    using in_hands_update [OF i, of w] w by (simp add: in_hands_def)
  then have "mset (in_hands t) = mset (in_hands s) + mset d"
    using d(1) by (simp add: ac_simps)
  moreover have "\<forall>v \<in> set (workers t). length (hand v) \<le> n"
    using inv d(3) w by (auto simp: inv_hands_def dest!: set_update_subset_insert [THEN subsetD])
  ultimately show ?thesis using inv d(2) same by (simp add: inv_hands_def)
qed

lemma hands_analyse:
  assumes inv: "inv_hands n s" and i: "i < length (workers s)" and w: "workers s ! i = WGot b" "b \<noteq> []"
  shows "inv_hands n (do_analyse b i s)"
proof -
  let ?t = "do_analyse b i s"
  have "mset (in_hands ?t) + mset b = mset (in_hands s)"
    using in_hands_update [OF i, of WStart] w
    by (simp add: in_hands_def do_analyse_def set_worker_def)
  moreover have "length b \<le> n"
    using inv i w nth_mem [OF i] by (fastforce simp: inv_hands_def)
  moreover have "\<forall>v \<in> set (workers ?t). length (hand v) \<le> n"
    using inv by (auto simp: inv_hands_def do_analyse_def set_worker_def
        dest!: set_update_subset_insert [THEN subsetD])
  ultimately show ?thesis
    using inv w by (auto simp: inv_hands_def do_analyse_def set_worker_def ac_simps)
qed

lemma hand_bound: "inv_hands n s \<Longrightarrow> i < length (workers s) \<Longrightarrow> length (hand (workers s ! i)) \<le> n"
  by (auto simp: inv_hands_def)

lemma step_hands:
  assumes step: "pipeline_step n l s t" and inv: "inv_hands n s"
  shows "inv_hands n t"
  using step
proof (cases rule: pipeline_step.cases)
  case (worker_analyse i b)
  then show ?thesis using hands_analyse [OF inv] by simp
next
  case (worker_drain i ns)
  show ?thesis
    by (rule hands_take [OF inv, of i _ _ "take n (items (queue s))"])
      (use worker_drain in \<open>auto simp: pipeline_defs\<close>)
next
  case (worker_linger_drain i ns)
  show ?thesis
    by (rule hands_take [OF inv, of i _ _ "take n (items (queue s))"])
      (use worker_linger_drain in \<open>auto simp: pipeline_defs\<close>)
next
  case (worker_notify i b lo)
  show ?thesis
    by (rule hands_take [OF inv, of i _ _ "[]"])
      (use worker_notify hand_bound [OF inv, of i] in \<open>auto simp: set_worker_def\<close>)
next
  case (worker_enter i)
  show ?thesis by (rule hands_take [OF inv, of i _ _ "[]"]) (use worker_enter in \<open>auto simp: set_worker_def\<close>)
next
  case (worker_linger i)
  show ?thesis by (rule hands_take [OF inv, of i _ _ "[]"]) (use worker_linger in \<open>auto simp: set_worker_def\<close>)
next
  case (worker_exit i)
  show ?thesis by (rule hands_take [OF inv, of i _ _ "[]"]) (use worker_exit in \<open>auto simp: set_worker_def\<close>)
next
  case (worker_again i)
  show ?thesis by (rule hands_take [OF inv, of i _ _ "[]"]) (use worker_again in \<open>auto simp: set_worker_def\<close>)
qed (use inv in \<open>auto simp: inv_hands_def in_hands_def do_push_def queue_shutdown_def split: prod.splits\<close>)

text \<open>
  A worker's move keeps a pending wake-up of another worker; a move of the worker that held it is
  its notification.
\<close>

lemma wake_other:
  assumes "\<exists>j < length ws. wakes_capture (ws ! j)" "i < length ws" "\<not> wakes_capture (ws ! i)"
  shows "\<exists>j < length (ws[i := w]). wakes_capture (ws[i := w] ! j)"
  using assms by (metis length_list_update nth_list_update_neq)

lemma drain_wake:
  assumes inv: "inv_wake s" and i: "i < length (workers s)" "\<not> wakes_capture (workers s ! i)" and n: "0 < n"
  shows "inv_wake (do_drain n ns i s)"
proof (cases "items (queue s) = []")
  case True
  have "push_ready (queue (do_drain n ns i s)) = push_ready (queue s)"
    using True by (simp add: do_drain_def pop_drain_eq set_worker_def push_ready_def)
  then show ?thesis
    using inv wake_other [OF _ i] by (auto simp: inv_wake_def do_drain_def pop_drain_eq set_worker_def)
next
  case False
  then have "wakes_capture (workers (do_drain n ns i s) ! i)" "i < length (workers (do_drain n ns i s))"
    using i n by (simp_all add: do_drain_def pop_drain_eq set_worker_def)
  then show ?thesis by (auto simp: inv_wake_def)
qed

lemma wake_move:
  assumes "inv_wake s" "i < length (workers s)" "\<not> wakes_capture (workers s ! i)"
    "workers t = (workers s)[i := w]" "push_ready (queue t) = push_ready (queue s)"
    "capture_pc t = capture_pc s"
  shows "inv_wake t"
  using assms wake_other [OF _ assms(2,3)] by (auto simp: inv_wake_def)

lemma step_wake:
  assumes step: "pipeline_step n l s t" and inv: "inv_wake s" and n: "0 < n"
  shows "inv_wake t"
  using step
proof (cases rule: pipeline_step.cases)
  case (worker_drain i ns)
  then show ?thesis using drain_wake [OF inv, of i n ns] n by simp
next
  case (worker_linger_drain i ns)
  then show ?thesis using drain_wake [OF inv, of i n ns] n by simp
next
  case (worker_notify i b lo)
  show ?thesis
  proof (cases "b = []")
    case True
    then show ?thesis using worker_notify by (intro wake_move [OF inv, of i]) (auto simp: set_worker_def)
  next
    case False
    then show ?thesis using worker_notify
      by (cases "capture_pc s") (auto simp: inv_wake_def set_worker_def notify_not_full_def)
  qed
next
  case (worker_enter i)
  then show ?thesis
    by (intro wake_move [OF inv, of i]) (auto simp: set_worker_def pop_enter_def push_ready_def)
next
  case (worker_linger i)
  then show ?thesis by (intro wake_move [OF inv, of i]) (auto simp: set_worker_def)
next
  case (worker_analyse i b)
  then show ?thesis by (intro wake_move [OF inv, of i]) (auto simp: set_worker_def do_analyse_def)
next
  case (worker_exit i)
  then show ?thesis by (intro wake_move [OF inv, of i]) (auto simp: set_worker_def)
next
  case (worker_again i)
  then show ?thesis by (intro wake_move [OF inv, of i]) (auto simp: set_worker_def)
next
  case main_notify
  then show ?thesis using inv
    by (cases "capture_pc s") (auto simp: inv_wake_def notify_not_full_def)
qed (use inv in \<open>auto simp: inv_wake_def do_push_def split: prod.splits\<close>)

lemma exit_move:
  assumes inv: "inv_exit s" and i: "i < length (workers s)" "workers s ! i \<noteq> WExit"
    and t: "workers t = (workers s)[i := w]" "main_pc t = main_pc s"
    and fin: "w = WExit \<Longrightarrow> is_finished (queue t)" "is_finished (queue s) \<Longrightarrow> is_finished (queue t)"
  shows "inv_exit t"
proof -
  have "main_pc s \<noteq> MDone" using inv i nth_mem [OF i(1)] by (auto simp: inv_exit_def)
  moreover have "is_finished (queue t)" if "WExit \<in> set (workers t)"
    using that inv fin t(1) set_update_subset_insert [of "workers s" i w] by (auto simp: inv_exit_def)
  ultimately show ?thesis using t by (simp add: inv_exit_def)
qed

lemma step_exit:
  assumes step: "pipeline_step n l s t" and inv: "inv_exit s" and src: "inv_source packets s"
  shows "inv_exit t"
  using step
proof (cases rule: pipeline_step.cases)
  case (worker_exit i)
  then show ?thesis by (intro exit_move [OF inv, of i]) (auto simp: set_worker_def)
next
  case (worker_enter i)
  then show ?thesis
    by (intro exit_move [OF inv, of i]) (auto simp: set_worker_def pop_enter_def is_finished_def)
next
  case (worker_linger i)
  then show ?thesis by (intro exit_move [OF inv, of i]) (auto simp: set_worker_def)
next
  case (worker_drain i ns)
  then show ?thesis
    by (intro exit_move [OF inv, of i]) (auto simp: set_worker_def do_drain_def pop_drain_eq is_finished_def)
next
  case (worker_linger_drain i ns)
  then show ?thesis
    by (intro exit_move [OF inv, of i]) (auto simp: set_worker_def do_drain_def pop_drain_eq is_finished_def)
next
  case (worker_notify i b lo)
  then show ?thesis by (intro exit_move [OF inv, of i]) (auto simp: set_worker_def)
next
  case (worker_analyse i b)
  then show ?thesis by (intro exit_move [OF inv, of i]) (auto simp: set_worker_def do_analyse_def)
next
  case (worker_again i)
  then show ?thesis by (intro exit_move [OF inv, of i]) (auto simp: set_worker_def)
next
  case (cap_push x xs)
  then show ?thesis
    using inv src by (auto simp: inv_exit_def inv_source_def is_finished_def do_push_def split: prod.splits)
next
  case (cap_retry x ns)
  then show ?thesis
    using inv src by (auto simp: inv_exit_def inv_source_def is_finished_def do_push_def split: prod.splits)
qed (use inv in \<open>auto simp: inv_exit_def is_finished_def queue_shutdown_def list_all_iff\<close>)

end
