(* ===== verification/Command_Line.thy ===== *)
theory Command_Line
  imports Capture Engine_Correct Worker_Pool
begin

text \<open>
  \<open>src/main.cpp\<close>: the option parser with its range checks, the checks before the pipeline is
  built, the packet and alert printers and the alert counters. \<open>strtoll\<close> is modelled; \<open>strtod\<close> is an
  argument that gives the value and the unread rest, or nothing when it converted nothing. Command
  line arguments are C strings, so they hold no zero byte and \<open>*end\<close> is zero exactly at their end.
\<close>

section \<open>Numbers on the command line\<close>

definition is_space :: "char \<Rightarrow> bool" where
  "is_space c \<longleftrightarrow> (of_char c :: nat) = 32 \<or> 9 \<le> (of_char c :: nat) \<and> (of_char c :: nat) \<le> 13"

definition LLONG_MAX :: int where "LLONG_MAX = 9223372036854775807"
definition LLONG_MIN :: int where "LLONG_MIN = - 9223372036854775808"

text \<open>\<open>strtoll\<close> in base 10: the value, the rest of the text and whether \<open>errno\<close> is \<open>ERANGE\<close>.\<close>

definition strtoll :: "string \<Rightarrow> (int \<times> string \<times> bool) option" where
  "strtoll text =
     (let body = dropWhile is_space text;
          neg = (body \<noteq> [] \<and> hd body = CHR ''-'');
          number = (if body \<noteq> [] \<and> (hd body = CHR ''-'' \<or> hd body = CHR ''+'') then tl body else body);
          digits = takeWhile is_digit number;
          rest = dropWhile is_digit number;
          value = (if neg then - int (dec_value digits) else int (dec_value digits))
      in if digits = [] then None
         else if value > LLONG_MAX then Some (LLONG_MAX, rest, True)
         else if value < LLONG_MIN then Some (LLONG_MIN, rest, True)
         else Some (value, rest, False))"

definition parse_nonnegative :: "string \<Rightarrow> int \<Rightarrow> int option" where
  "parse_nonnegative text max_value =
     (case strtoll text of
        None \<Rightarrow> None
      | Some (value, rest, erange) \<Rightarrow>
          if rest \<noteq> [] \<or> erange \<or> value < 0 \<or> value > max_value then None else Some value)"

section \<open>Options\<close>

record options =
  opt_device :: string
  opt_pcap_file :: string
  opt_max_packets :: int
  opt_list_only :: bool
  opt_verbose :: bool
  opt_use_gpu :: bool
  opt_quiet :: bool
  opt_num_workers :: size_t
  opt_queue_capacity :: size_t
  opt_batch_size :: size_t
  opt_linger_us :: int
  opt_entropy_threshold :: double

definition initial_options :: "nat \<Rightarrow> options" where
  "initial_options cores = \<lparr>opt_device = [], opt_pcap_file = [], opt_max_packets = 0,
     opt_list_only = False, opt_verbose = False, opt_use_gpu = False, opt_quiet = False,
     opt_num_workers = (if cores > 1 then cores - 1 else 1), opt_queue_capacity = 4096,
     opt_batch_size = 64, opt_linger_us = 2000, opt_entropy_threshold = Num 7\<rparr>"

datatype cli_error = InvalidValue string string | Usage

definition dbl_lt :: "double \<Rightarrow> double \<Rightarrow> bool" where
  "dbl_lt x y \<longleftrightarrow> x \<noteq> NaN \<and> y \<noteq> NaN \<and> \<not> dbl_ge x y"

definition number_option :: "string \<Rightarrow> int \<Rightarrow> string \<Rightarrow> (int \<Rightarrow> options) \<Rightarrow> string list
    \<Rightarrow> cli_error + string list \<times> options" where
  "number_option flag max_value text store rest =
     (case parse_nonnegative text max_value of
        None \<Rightarrow> Inl (InvalidValue flag text) | Some value \<Rightarrow> Inr (rest, store value))"

text \<open>One round of the loop over \<open>argv\<close>: the arguments left and the options after it.\<close>

definition one_option :: "(string \<Rightarrow> (double \<times> string) option) \<Rightarrow> string \<Rightarrow> string list \<Rightarrow> options
    \<Rightarrow> cli_error + string list \<times> options" where
  "one_option strtod arg rest opts =
     (if arg = ''-i'' \<and> rest \<noteq> [] then Inr (tl rest, opts\<lparr>opt_device := hd rest\<rparr>)
      else if arg = ''-r'' \<and> rest \<noteq> [] then Inr (tl rest, opts\<lparr>opt_pcap_file := hd rest\<rparr>)
      else if arg = ''-c'' \<and> rest \<noteq> [] then
        number_option ''-c'' 2147483647 (hd rest) (\<lambda>v. opts\<lparr>opt_max_packets := v\<rparr>) (tl rest)
      else if arg = ''-l'' then Inr (rest, opts\<lparr>opt_list_only := True\<rparr>)
      else if arg = ''-w'' \<and> rest \<noteq> [] then
        number_option ''-w'' 1024 (hd rest) (\<lambda>v. opts\<lparr>opt_num_workers := nat v\<rparr>) (tl rest)
      else if arg = ''-q'' \<and> rest \<noteq> [] then
        number_option ''-q'' 16777216 (hd rest) (\<lambda>v. opts\<lparr>opt_queue_capacity := nat v\<rparr>) (tl rest)
      else if arg = ''-b'' \<and> rest \<noteq> [] then
        number_option ''-b'' 1048576 (hd rest) (\<lambda>v. opts\<lparr>opt_batch_size := nat v\<rparr>) (tl rest)
      else if arg = ''-L'' \<and> rest \<noteq> [] then
        number_option ''-L'' 1000000 (hd rest) (\<lambda>v. opts\<lparr>opt_linger_us := v\<rparr>) (tl rest)
      else if arg = ''-v'' then Inr (rest, opts\<lparr>opt_verbose := True\<rparr>)
      else if arg = ''-g'' then Inr (rest, opts\<lparr>opt_use_gpu := True\<rparr>)
      else if arg = ''-s'' then Inr (rest, opts\<lparr>opt_quiet := True\<rparr>)
      else if arg = ''-e'' \<and> rest \<noteq> [] then
        (case strtod (hd rest) of
           None \<Rightarrow> Inl (InvalidValue ''-e'' (hd rest))
         | Some (value, unread) \<Rightarrow>
             if unread \<noteq> [] \<or> dbl_lt value (Num 0) \<or> dbl_lt (Num 8) value
             then Inl (InvalidValue ''-e'' (hd rest))
             else Inr (tl rest, opts\<lparr>opt_entropy_threshold := value\<rparr>))
      else Inl Usage)"

lemma one_option_rest: "one_option strtod arg rest opts = Inr (rest', opts') \<Longrightarrow> length rest' \<le> length rest"
  by (auto simp: one_option_def number_option_def split: if_splits option.splits)

function parse_args :: "(string \<Rightarrow> (double \<times> string) option) \<Rightarrow> string list \<Rightarrow> options \<Rightarrow> cli_error + options" where
  "parse_args strtod [] opts = Inr opts"
| "parse_args strtod (arg # rest) opts =
     (case one_option strtod arg rest opts of
        Inl e \<Rightarrow> Inl e
      | Inr (rest', opts') \<Rightarrow> parse_args strtod rest' opts')"
  by pat_completeness auto
termination
  by (relation "measure (\<lambda>(strtod, args, opts). length args)") (auto dest!: one_option_rest)

section \<open>Checks before the pipeline starts\<close>

datatype startup = ListDevices | UsageError | BadSizes | Start options

definition check_options :: "options \<Rightarrow> startup" where
  "check_options opts =
     (if opt_list_only opts then ListDevices
      else if (opt_device opts = []) = (opt_pcap_file opts = []) then UsageError
      else if opt_queue_capacity opts = 0 \<or> opt_batch_size opts = 0 then BadSizes
      else Start opts)"

definition command_line :: "(string \<Rightarrow> (double \<times> string) option) \<Rightarrow> nat \<Rightarrow> string list \<Rightarrow> cli_error + startup" where
  "command_line strtod cores args =
     (case parse_args strtod args (initial_options cores) of
        Inl e \<Rightarrow> Inl e | Inr opts \<Rightarrow> Inr (check_options opts))"

definition engine_for :: "options \<Rightarrow> AnalysisEngine" where
  "engine_for opts = new_AnalysisEngine (default_analysis_config\<lparr>entropy_threshold := opt_entropy_threshold opts\<rparr>)"

section \<open>Printers and counters\<close>

text \<open>\<open>%06ld\<close> of a non-negative number.\<close>

definition zero_pad :: "nat \<Rightarrow> string \<Rightarrow> string" where
  "zero_pad n s = replicate (n - length s) (CHR ''0'') @ s"

definition has_ports :: "Transport \<Rightarrow> bool" where
  "has_ports t \<longleftrightarrow> t = kTCP \<or> t = kUDP"

definition print_packet :: "QueuedPacket \<Rightarrow> string" where
  "print_packet q =
     (let pkt = meta q in
      ''['' @ dec_int (tv_sec (timestamp pkt)) @ ''.'' @ zero_pad 6 (dec_int (tv_usec (timestamp pkt))) @
      ''] len='' @ dec_nat (unat (wire_length pkt)) @ '' cap='' @ dec_nat (unat (capture_length pkt)) @
      ''  '' @ mac_to_string (src_mac pkt) @ '' -> '' @ mac_to_string (dst_mac pkt) @
      (if \<not> has_ip pkt then ''  (non-IPv4)'' @ [CHR 0x0A]
       else
         ''  '' @ ipv4_to_string (src_ip pkt) @
         (if has_ports (transport pkt) then '':'' @ dec_nat (unat (src_port pkt)) else []) @
         '' -> '' @ ipv4_to_string (dst_ip pkt) @
         (if has_ports (transport pkt) then '':'' @ dec_nat (unat (dst_port pkt)) else []) @
         '' proto='' @ transport_to_string (transport pkt) @ '' ttl='' @ dec_nat (unat (ttl pkt)) @
         (if transport pkt = kTCP then '' flags='' @ tcp_flags_to_string (tcp_flags pkt) else []) @
         '' payload='' @ dec_nat (payload_size q) @ ''B'' @ [CHR 0x0A]))"

record alert_counters =
  g_alert_count :: u64
  g_alerts_by_type :: "u64 list"

definition zero_counters :: alert_counters where
  "zero_counters = \<lparr>g_alert_count = 0, g_alerts_by_type = replicate 4 0\<rparr>"

fun type_index :: "AnomalyType \<Rightarrow> nat" where
  "type_index kPortScan = 0"
| "type_index kHighEntropyPayload = 1"
| "type_index kSynFlood = 2"
| "type_index kSignatureMatch = 3"

text \<open>
  The four types in the order of the C++ enumeration, whose values index the counters: sums and
  quantifiers over all types are finite, and types compare by their index.
\<close>

instantiation AnomalyType :: enum
begin

definition enum_AnomalyType :: "AnomalyType list" where
  "enum_AnomalyType = [kPortScan, kHighEntropyPayload, kSynFlood, kSignatureMatch]"

definition enum_all_AnomalyType :: "(AnomalyType \<Rightarrow> bool) \<Rightarrow> bool" where
  "enum_all_AnomalyType P = list_all P enum_class.enum"

definition enum_ex_AnomalyType :: "(AnomalyType \<Rightarrow> bool) \<Rightarrow> bool" where
  "enum_ex_AnomalyType P = list_ex P enum_class.enum"

instance
proof
  show univ: "(UNIV :: AnomalyType set) = set enum_class.enum"
    using AnomalyType.exhaust by (auto simp: enum_AnomalyType_def)
  show "distinct (enum_class.enum :: AnomalyType list)" by (simp add: enum_AnomalyType_def)
  show "enum_class.enum_all P = Ball UNIV P" "enum_class.enum_ex P = Bex UNIV P" for P :: "AnomalyType \<Rightarrow> bool"
    unfolding univ by (simp_all add: enum_all_AnomalyType_def enum_ex_AnomalyType_def list_all_iff list_ex_iff)
qed

end

lemma type_index_inj: "type_index s = type_index t \<longleftrightarrow> s = t"
  by (cases s; cases t) simp_all

instantiation AnomalyType :: linorder
begin

definition less_eq_AnomalyType :: "AnomalyType \<Rightarrow> AnomalyType \<Rightarrow> bool" where
  "less_eq_AnomalyType s t \<longleftrightarrow> type_index s \<le> type_index t"

definition less_AnomalyType :: "AnomalyType \<Rightarrow> AnomalyType \<Rightarrow> bool" where
  "less_AnomalyType s t \<longleftrightarrow> type_index s < type_index t"

instance
  by standard (auto simp: less_eq_AnomalyType_def less_AnomalyType_def type_index_inj)

end

text \<open>The index is the position in the ordered enumeration.\<close>

lemma type_index_position:
  "enum_class.enum ! type_index t = t" "sorted (enum_class.enum :: AnomalyType list)"
  by (cases t) (simp_all add: enum_AnomalyType_def less_eq_AnomalyType_def)

definition print_alert :: "bool \<Rightarrow> Alert \<Rightarrow> alert_counters \<Rightarrow> alert_counters \<times> string" where
  "print_alert silent alert c =
     (let k = type_index (atype alert);
          c = c\<lparr>g_alert_count := g_alert_count c + 1,
                g_alerts_by_type := (g_alerts_by_type c)[k := g_alerts_by_type c ! k + 1]\<rparr>
      in (c, if silent then [] else format_alert alert @ [CHR 0x0A]))"

fun print_alerts :: "bool \<Rightarrow> Alert list \<Rightarrow> alert_counters \<Rightarrow> alert_counters \<times> string" where
  "print_alerts silent [] c = (c, [])"
| "print_alerts silent (alert # alerts) c =
     (let (c, line) = print_alert silent alert c; (c, lines) = print_alerts silent alerts c
      in (c, line @ lines))"

section \<open>The number parser is exact\<close>

lemma digit_not_space: "is_digit c \<Longrightarrow> \<not> is_space c"
  by (auto simp: is_digit_def is_space_def)

lemma digit_not_sign: "is_digit c \<Longrightarrow> c \<noteq> CHR ''-'' \<and> c \<noteq> CHR ''+''"
  by (auto simp: is_digit_def)

text \<open>A number as \<open>strtoll\<close> reads it: white space, a sign, digits, and nothing after them.\<close>

definition numeral_text :: "string \<Rightarrow> string \<Rightarrow> string \<Rightarrow> string \<Rightarrow> bool" where
  "numeral_text text ws sign digits \<longleftrightarrow> text = ws @ sign @ digits \<and> list_all is_space ws \<and>
     sign \<in> {[], ''-'', ''+''} \<and> digits \<noteq> [] \<and> list_all is_digit digits"

definition signed_value :: "string \<Rightarrow> string \<Rightarrow> int" where
  "signed_value sign digits = (if sign = ''-'' then - int (dec_value digits) else int (dec_value digits))"

lemma strtoll_numeral:
  assumes "numeral_text text ws sign digits"
  shows "strtoll text = (let v = signed_value sign digits in
    if v > LLONG_MAX then Some (LLONG_MAX, [], True)
    else if v < LLONG_MIN then Some (LLONG_MIN, [], True) else Some (v, [], False))"
proof -
  obtain d ds where digits: "digits = d # ds" and d: "is_digit d"
    using assms by (cases digits) (auto simp: numeral_text_def)
  have all: "takeWhile is_digit digits = digits" "dropWhile is_digit digits = []"
    using assms by (auto simp: numeral_text_def list_all_iff takeWhile_eq_all_conv)
  have "\<not> is_space (CHR ''-'')" "\<not> is_space (CHR ''+'')" by (simp_all add: is_space_def)
  then have body: "dropWhile is_space text = sign @ digits"
    using assms digit_not_space [OF d]
    by (auto simp: numeral_text_def list_all_iff digits dropWhile_append3)
  have ne: "digits \<noteq> []" "hd digits \<noteq> CHR ''-''" "hd digits \<noteq> CHR ''+''"
    using digit_not_sign [OF d] by (simp_all add: digits)
  consider "sign = []" | "sign = ''-''" | "sign = ''+''" using assms by (auto simp: numeral_text_def)
  then show ?thesis
    by cases (simp_all add: strtoll_def body all ne signed_value_def Let_def)
qed

lemma strtoll_inverse:
  assumes "strtoll text = Some (v, [], False)"
  shows "\<exists>ws sign digits. numeral_text text ws sign digits \<and> v = signed_value sign digits"
proof -
  define body where "body = dropWhile is_space text"
  define sign where "sign = (if body \<noteq> [] \<and> (hd body = CHR ''-'' \<or> hd body = CHR ''+'') then [hd body] else [])"
  define number where "number = (if body \<noteq> [] \<and> (hd body = CHR ''-'' \<or> hd body = CHR ''+'') then tl body else body)"
  have body': "body = sign @ number" by (auto simp: sign_def number_def)
  have st: "takeWhile is_digit number \<noteq> []" "dropWhile is_digit number = []"
    "v = (if body \<noteq> [] \<and> hd body = CHR ''-'' then - int (dec_value (takeWhile is_digit number))
          else int (dec_value (takeWhile is_digit number)))"
    using assms unfolding strtoll_def Let_def body_def [symmetric] number_def [symmetric]
    by (auto split: if_splits)
  have number': "takeWhile is_digit number = number"
    using st(2) takeWhile_dropWhile_id [of is_digit number] by simp
  have "text = takeWhile is_space text @ sign @ number" by (simp add: body_def flip: body')
  moreover have "list_all is_space (takeWhile is_space text)" by (auto simp: list_all_iff dest: set_takeWhileD)
  moreover have "list_all is_digit number" by (metis number' list_all_iff set_takeWhileD)
  moreover have "sign \<in> {[], ''-'', ''+''}" by (auto simp: sign_def)
  ultimately have "numeral_text text (takeWhile is_space text) sign number"
    using st(1) number' by (simp add: numeral_text_def)
  moreover have "v = signed_value sign number"
    unfolding st(3) number' by (auto simp: signed_value_def sign_def)
  ultimately show ?thesis by blast
qed

text \<open>
  C32. Option values are parsed exactly: \<open>parse_nonnegative\<close> accepts a text if and only if it is
  optional white space, an optional sign and decimal digits to the end, whose value lies between 0
  and the option's maximum, and returns that value. Trailing characters, negative numbers and
  numbers that do not fit are refused.
\<close>

theorem parse_nonnegative_exact:
  assumes "max_value \<le> LLONG_MAX"
  shows "parse_nonnegative text max_value = Some v \<longleftrightarrow>
    (\<exists>ws sign digits. numeral_text text ws sign digits \<and> v = signed_value sign digits \<and> 0 \<le> v \<and> v \<le> max_value)"
proof
  assume "parse_nonnegative text max_value = Some v"
  then have "strtoll text = Some (v, [], False)" and range: "0 \<le> v" "v \<le> max_value"
    by (auto simp: parse_nonnegative_def split: option.splits if_splits)
  from strtoll_inverse [OF this(1)] range
  show "\<exists>ws sign digits. numeral_text text ws sign digits \<and> v = signed_value sign digits \<and> 0 \<le> v \<and> v \<le> max_value"
    by blast
next
  assume "\<exists>ws sign digits. numeral_text text ws sign digits \<and> v = signed_value sign digits \<and> 0 \<le> v \<and> v \<le> max_value"
  then show "parse_nonnegative text max_value = Some v"
    using assms strtoll_numeral by (fastforce simp: parse_nonnegative_def LLONG_MIN_def Let_def)
qed

theorem parse_nonnegative_exact_witness:
  "parse_nonnegative '' +42'' 100 = Some 42"
proof -
  have "numeral_text '' +42'' '' '' ''+'' ''42''"
    by (simp add: numeral_text_def is_space_def is_digit_def)
  moreover have "42 = signed_value ''+'' ''42''"
    by (simp add: signed_value_def dec_value_def digit_value_def)
  moreover have "(0 :: int) \<le> 42" "(42 :: int) \<le> 100" by simp_all
  moreover have "(100 :: int) \<le> LLONG_MAX" by (simp add: LLONG_MAX_def)
  ultimately show ?thesis using parse_nonnegative_exact [of 100 "'' +42''" 42] by metis
qed

section \<open>What the pipeline can rely on\<close>

lemma parse_nonnegative_range: "parse_nonnegative text m = Some v \<Longrightarrow> 0 \<le> v \<and> v \<le> m"
  by (auto simp: parse_nonnegative_def split: option.splits if_splits)

definition options_ok :: "nat \<Rightarrow> options \<Rightarrow> bool" where
  "options_ok cores o' \<longleftrightarrow> 0 \<le> opt_max_packets o' \<and> opt_max_packets o' \<le> INT_MAX \<and>
     opt_num_workers o' \<le> max 1024 cores \<and> opt_queue_capacity o' \<le> 16777216 \<and>
     opt_batch_size o' \<le> 1048576 \<and> 0 \<le> opt_linger_us o' \<and> opt_linger_us o' \<le> 1000000 \<and>
     \<not> dbl_lt (opt_entropy_threshold o') (Num 0) \<and> \<not> dbl_lt (Num 8) (opt_entropy_threshold o')"

lemma initial_options_ok: "options_ok cores (initial_options cores)"
  by (auto simp: options_ok_def initial_options_def INT_MAX_def dbl_lt_def le_max_iff_disj)

lemma one_option_ok:
  assumes "options_ok cores o'" "one_option strtod arg rest o' = Inr (rest', o'')"
  shows "options_ok cores o''"
  using assms
  by (auto simp: one_option_def number_option_def options_ok_def INT_MAX_def dest!: parse_nonnegative_range
      split: if_splits option.splits)

lemma parse_args_ok:
  "options_ok cores o' \<Longrightarrow> parse_args strtod args o' = Inr o'' \<Longrightarrow> options_ok cores o''"
  by (induction strtod args o' rule: parse_args.induct)
    (auto dest: one_option_ok split: sum.splits)

lemma command_line_start:
  assumes "command_line strtod cores args = Inr (Start opts)"
  shows "options_ok cores opts" "check_options opts = Start opts"
proof -
  obtain o' where "parse_args strtod args (initial_options cores) = Inr o'" "check_options o' = Start opts"
    using assms by (auto simp: command_line_def split: sum.splits)
  then show "options_ok cores opts" "check_options opts = Start opts"
    using parse_args_ok [OF initial_options_ok] by (auto simp: check_options_def split: if_splits)
qed


lemma parse_dec_nat: "int n \<le> m \<Longrightarrow> m \<le> LLONG_MAX \<Longrightarrow> parse_nonnegative (dec_nat n) m = Some (int n)"
proof -
  assume "int n \<le> m" "m \<le> LLONG_MAX"
  moreover have "numeral_text (dec_nat n) [] [] (dec_nat n)"
    by (simp add: numeral_text_def dec_nat_digits)
  ultimately show ?thesis
    using strtoll_numeral [of "dec_nat n" "[]" "[]" "dec_nat n"]
    by (simp add: parse_nonnegative_def signed_value_def LLONG_MIN_def Let_def)
qed


section \<open>Printing options and reading them back\<close>

definition show_options :: "options \<Rightarrow> string list" where
  "show_options o' =
     (if opt_device o' = [] then [] else [''-i'', opt_device o']) @
     (if opt_pcap_file o' = [] then [] else [''-r'', opt_pcap_file o']) @
     (if opt_list_only o' then [''-l''] else []) @ (if opt_verbose o' then [''-v''] else []) @
     (if opt_use_gpu o' then [''-g''] else []) @ (if opt_quiet o' then [''-s''] else []) @
     [''-c'', dec_nat (nat (opt_max_packets o')), ''-w'', dec_nat (opt_num_workers o'),
      ''-q'', dec_nat (opt_queue_capacity o'), ''-b'', dec_nat (opt_batch_size o'),
      ''-L'', dec_nat (nat (opt_linger_us o'))]"



section \<open>A threshold that is not a number\<close>

lemma inspect_types: "a \<in> set (snd (inspect_packets h db batch ft)) \<Longrightarrow> atype a \<noteq> kHighEntropyPayload"
proof (induction batch arbitrary: ft)
  case (Cons vp batch)
  have "atype a \<noteq> kHighEntropyPayload" if obs: "a \<in> set (snd (observe (fst vp) h ft (snd vp)))"
  proof (cases "has_ip (meta (snd vp))")
    case True
    then obtain st where "a \<in> set (snd (observe_ip (config ft) (meta (snd vp)) st))"
      using obs by (auto simp: observe_ip_case Let_def observe_shard_cases)
    then show ?thesis
      by (auto simp: observe_ip_def port_scan_rule_def syn_flood_rule_def Let_def split: prod.splits if_splits)
  qed (use obs in \<open>simp add: observe_no_ip\<close>)
  then show ?case
    using Cons by (auto simp: inspect_packets_Cons Let_def signature_alerts_def alert_for_def split: if_splits
        simp del: inspect_packets.simps(2))
qed simp

text \<open>
  \<open>-e nan\<close> is accepted and turns the entropy rule off: with a \<open>strtod\<close> that reads \<open>nan\<close>, as the
  C standard has it, the range check passes, since comparisons with a NaN are false, and no batch
  ever gives a high-entropy alert.
\<close>

theorem nan_threshold_disables_entropy:
  assumes "strtod ''nan'' = Some (NaN, [])" "file \<noteq> []"
  shows "\<exists>opts. command_line strtod cores [''-r'', file, ''-e'', ''nan''] = Inr (Start opts) \<and>
    list_all (\<lambda>a. atype a \<noteq> kHighEntropyPayload) (snd (analyze_batch backend hash32 batch (engine_for opts)))"
proof -
  let ?o = "(initial_options cores)\<lparr>opt_pcap_file := file, opt_entropy_threshold := NaN\<rparr>"
  have "command_line strtod cores [''-r'', file, ''-e'', ''nan''] = Inr (Start ?o)"
    using assms by (simp add: command_line_def one_option_def dbl_lt_def check_options_def initial_options_def)
  moreover have "entropy_alerts (engine_config (engine_for ?o)) ps es = []" for ps es
    by (auto simp: entropy_alerts_def engine_for_def new_AnalysisEngine_def)
  ultimately show ?thesis
    using inspect_types by (force simp: list_all_iff analyze_batch_eq)
qed

theorem nan_threshold_disables_entropy_witness:
  "\<exists>opts. command_line (\<lambda>_. Some (NaN, [])) 4 [''-r'', ''a.pcap'', ''-e'', ''nan''] = Inr (Start opts) \<and>
    list_all (\<lambda>a. atype a \<noteq> kHighEntropyPayload)
      (snd (analyze_batch CpuEntropyBackend (\<lambda>_. 0) [] (engine_for opts)))"
  by (rule nan_threshold_disables_entropy) simp_all

section \<open>The alert counters\<close>

lemma type_index_less: "type_index t < 4"
  by (cases t) simp_all

lemma print_alerts_Cons: "print_alerts silent (a # alerts) c =
    (let r = print_alert silent a c; later = print_alerts silent alerts (fst r)
     in (fst later, snd r @ snd later))"
  by (simp add: Let_def split_beta)

lemma print_alerts_counts:
  assumes "length (g_alerts_by_type c) = 4"
  shows "g_alert_count (fst (print_alerts silent alerts c)) = g_alert_count c + of_nat (length alerts) \<and>
    g_alerts_by_type (fst (print_alerts silent alerts c)) ! type_index t =
      g_alerts_by_type c ! type_index t + of_nat (length (filter (\<lambda>a. atype a = t) alerts))"
  using assms
proof (induction alerts arbitrary: c)
  case (Cons a alerts)
  let ?c = "fst (print_alert silent a c)"
  have "length (g_alerts_by_type ?c) = 4" using Cons.prems by (simp add: print_alert_def Let_def)
  moreover have "g_alert_count ?c = g_alert_count c + 1"
    "g_alerts_by_type ?c ! type_index t = g_alerts_by_type c ! type_index t + (if atype a = t then 1 else 0)"
    using Cons.prems type_index_less [of t]
    by (simp_all add: print_alert_def Let_def nth_list_update type_index_inj)
  ultimately show ?case
    using Cons.IH [of ?c] by (simp add: print_alerts_Cons Let_def algebra_simps del: print_alerts.simps(2))
qed simp

text \<open>
  C34. The summary adds up: after any sequence of fewer than \<open>2 ^ 64\<close> alerts the total counter is
  their number, each per-type counter the number of alerts of that type, the per-type counters sum
  up to the total, and silent mode prints nothing while otherwise each alert is one line, in order.
\<close>

theorem alert_summary_correct:
  assumes "length alerts < 2 ^ 64"
  shows "unat (g_alert_count (fst (print_alerts silent alerts zero_counters))) = length alerts \<and>
    (\<forall>t. unat (g_alerts_by_type (fst (print_alerts silent alerts zero_counters)) ! type_index t)
        = length (filter (\<lambda>a. atype a = t) alerts)) \<and>
    (\<Sum>t \<in> UNIV. unat (g_alerts_by_type (fst (print_alerts silent alerts zero_counters)) ! type_index t)) = length alerts \<and>
    snd (print_alerts silent alerts zero_counters) =
      (if silent then [] else concat (map (\<lambda>a. format_alert a @ [CHR 0x0A]) alerts))"
proof -
  have filter: "length (filter P alerts) < 2 ^ 64" for P
    using assms le_less_trans [OF length_filter_le] by blast
  have lines: "snd (print_alerts silent alerts c) =
      (if silent then [] else concat (map (\<lambda>a. format_alert a @ [CHR 0x0A]) alerts))" for c
    by (induction alerts arbitrary: c)
      (simp_all add: print_alerts_Cons print_alert_def Let_def del: print_alerts.simps(2))
  have small: "unat (of_nat n :: u64) = n" if "n < 2 ^ 64" for n
    using that by (simp add: unsigned_of_nat take_bit_nat_eq_self)
  have counts: "g_alert_count (fst (print_alerts silent alerts zero_counters)) = of_nat (length alerts)"
    "g_alerts_by_type (fst (print_alerts silent alerts zero_counters)) ! type_index t =
      of_nat (length (filter (\<lambda>a. atype a = t) alerts))" for t
    using print_alerts_counts [of zero_counters silent alerts t] type_index_less [of t]
    by (simp_all add: zero_counters_def)
  show ?thesis unfolding counts using lines by (simp add: small [OF assms] small [OF filter] sum_over_classes)
qed

theorem alert_summary_correct_witness:
  "unat (g_alert_count (fst (print_alerts True
      [alert_for kSynFlood \<lparr>meta = default_packet, qpayload = []\<rparr> []] zero_counters))) = 1"
  using alert_summary_correct [of "[alert_for kSynFlood \<lparr>meta = default_packet, qpayload = []\<rparr> []]" True]
  by simp

end
