(* ===== verification/Pipeline_Progress.thy ===== *)
theory Pipeline_Progress
  imports Worker_Pool
begin

text \<open>
  What the pipeline of capture thread, queue and worker pool guarantees: no packet is lost,
  duplicated or reordered inside the queue, a sleeping capture thread is never forgotten, the
  final state can be reached from everywhere, and after the shutdown every schedule ends there.
\<close>

section \<open>All invariants together\<close>

definition pipeline_inv :: "size_t \<Rightarrow> 'a list \<Rightarrow> size_t \<Rightarrow> 'a pipeline \<Rightarrow> bool" where
  "pipeline_inv cap packets n s \<longleftrightarrow> inv_fifo s \<and> inv_source packets s \<and> inv_hands n s \<and> inv_wake s \<and>
     inv_exit s \<and> capacity (queue s) = cap \<and> workers s \<noteq> []"

lemma start_inv: "pipeline_inv cap packets n (pipeline_start cap k packets)"
  by (auto simp: pipeline_inv_def inv_fifo_def inv_source_def inv_hands_def inv_wake_def inv_exit_def
      pipeline_start_def new_PacketQueue_def in_hands_def pool_size_def)

lemma step_inv:
  assumes "pipeline_step n l s t" "pipeline_inv cap packets n s" "0 < n"
  shows "pipeline_inv cap packets n t"
proof -
  have "workers t \<noteq> []" using assms step_capacity [OF assms(1)]
    by (metis length_0_conv pipeline_inv_def)
  then show ?thesis
    using assms step_fifo step_source step_hands step_wake step_exit step_capacity
    unfolding pipeline_inv_def by metis
qed

interpretation pipe: step_invariant "pipeline_step n l" "\<lambda>s. 0 < n \<and> pipeline_inv cap packets n s" for n l cap packets
  by unfold_locales (auto intro: step_inv)

lemma reachable_inv:
  assumes "pipeline_reachable n l s0 s" "pipeline_inv cap packets n s0" "0 < n"
  shows "pipeline_inv cap packets n s"
  using pipe.everywhere [OF assms(1)] assms(2,3) by blast

lemma start_reachable_inv:
  assumes "pipeline_reachable n l (pipeline_start cap k packets) s" "0 < n"
  shows "pipeline_inv cap packets n s"
  using reachable_inv [OF assms(1) start_inv assms(2)] .

lemma hands_empty: "\<forall>w \<in> set ws. w = WExit \<Longrightarrow> concat (map hand ws) = []"
  by (induction ws) auto

lemma done_state:
  assumes "pipeline_inv cap packets n s" "main_pc s = MDone"
  shows "mset (concat (analysed s)) = mset packets" "popped s = packets" "items (queue s) = []"
    "processed s = of_nat (length packets)"
proof -
  have ex: "\<forall>w \<in> set (workers s). w = WExit" and ne: "workers s \<noteq> []"
    using assms by (auto simp: pipeline_inv_def inv_exit_def)
  then have "WExit \<in> set (workers s)" by (metis last_in_set)
  then show items: "items (queue s) = []"
    using assms by (simp add: pipeline_inv_def inv_exit_def is_finished_def)
  have "pushed s = packets"
    using assms by (auto simp: pipeline_inv_def inv_source_def)
  then show pop: "popped s = packets"
    using assms items by (simp add: pipeline_inv_def inv_fifo_def)
  have "in_hands s = []" using hands_empty [OF ex] by (simp add: in_hands_def)
  then show m: "mset (concat (analysed s)) = mset packets"
    using assms pop by (simp add: pipeline_inv_def inv_hands_def)
  then have "length (concat (analysed s)) = length packets" by (metis size_mset)
  then show "processed s = of_nat (length packets)"
    using assms by (simp add: pipeline_inv_def inv_hands_def)
qed

section \<open>The work left\<close>

text \<open>
  A number that every step after the shutdown decreases, and that before it some step always
  decreases. \<open>e\<close> says whether the queue is empty: a worker back with an empty batch is then about
  to leave, otherwise about to start over.
\<close>

fun rank :: "bool \<Rightarrow> 'a worker_pc \<Rightarrow> nat" where
  "rank e WExit = 0"
| "rank e (WGot b) = (if b = [] \<and> e then 1 else 6)"
| "rank e (WNotify b _) = (if b = [] \<and> e then 2 else 7)"
| "rank e WLinger = 3"
| "rank e WWait = 4"
| "rank e WStart = 5"

fun main_rank :: "main_pc \<Rightarrow> nat" where
  "main_rank MJoinCapture = 3"
| "main_rank MShutNotify = 2"
| "main_rank MJoinPool = 1"
| "main_rank MDone = 0"

definition capture_work :: "'a pipeline \<Rightarrow> nat" where
  "capture_work s = (length (source s) + length (in_flight (capture_pc s))) * (10 + 5 * length (workers s))
     + (if capture_pc s = CDone then 0 else 1)"

definition work :: "'a pipeline \<Rightarrow> nat" where
  "work s = capture_work s + 5 * length (items (queue s))
     + sum_list (map (rank (items (queue s) = [])) (workers s)) + main_rank (main_pc s)"

lemma rank_mono: "rank True w \<le> rank e w"
  by (cases w; cases e) auto

lemma rank_push: "rank False w \<le> rank e w + 5"
  by (cases w) auto

lemma ranks_mono: "sum_list (map (rank True) ws) \<le> sum_list (map (rank e) ws)"
  by (intro sum_list_mono rank_mono)

lemma ranks_push: "sum_list (map (rank False) ws) \<le> sum_list (map (rank e) ws) + 5 * length ws"
proof (induction ws)
  case (Cons w ws)
  then show ?case using rank_push [of w e] by simp
qed simp

text \<open>A worker's move that leaves the queue's contents alone.\<close>

lemma work_move:
  assumes "i < length (workers s)" "workers t = (workers s)[i := w]" "items (queue t) = items (queue s)"
    and "capture_work t \<le> capture_work s" "main_pc t = main_pc s"
    and "rank (items (queue s) = []) w < rank (items (queue s) = []) (workers s ! i)"
  shows "work t < work s"
  using sum_list_map_update [OF assms(1), of "rank (items (queue s) = [])" w] assms
  by (simp add: work_def)

text \<open>A worker takes a batch.\<close>

lemma work_drain:
  assumes i: "i < length (workers s)" "workers s ! i \<in> {WWait, WLinger}" and n: "0 < n"
  shows "work (do_drain n ns i s) < work s"
proof (cases "items (queue s) = []")
  case True
  then show ?thesis
    by (intro work_move [OF i(1), of _ "WNotify [] False"])
      (use i in \<open>auto simp: do_drain_def pop_drain_eq set_worker_def capture_work_def\<close>)
next
  case False
  define its where "its = drop n (items (queue s))"
  define w where "w = WNotify (take n (items (queue s))) (n < length (items (queue s)))"
  have len: "length its < length (items (queue s))"
    using False n by (simp add: its_def)
  have "sum_list (map (rank (its = [])) ((workers s)[i := w]))
      \<le> sum_list (map (rank False) ((workers s)[i := w]))"
    using ranks_mono [of "(workers s)[i := w]" False] by (cases "its = []") auto
  moreover have "sum_list (map (rank False) ((workers s)[i := w])) + 3 \<le> sum_list (map (rank False) (workers s)) + 7"
    using sum_list_map_update [OF i(1), of "rank False" w] i(2) by (auto simp: w_def)
  ultimately have "5 * length its + sum_list (map (rank (its = [])) ((workers s)[i := w]))
      < 5 * length (items (queue s)) + sum_list (map (rank False) (workers s))"
    using len by linarith
  then show ?thesis
    using False by (simp add: work_def do_drain_def pop_drain_eq set_worker_def capture_work_def its_def w_def)
qed

text \<open>The capture thread gets a packet into the queue.\<close>

lemma work_push:
  assumes "\<not> shutdown_flag (queue s)" "items (queue s') = items (queue s)" "shutdown_flag (queue s') = shutdown_flag (queue s)"
    and "workers s' = workers s" "main_pc s' = main_pc s"
    and "length (source s') + 1 = length (source s) + length (in_flight (capture_pc s))"
    and "capture_pc s \<noteq> CDone"
  shows "work (do_push x s') < work s"
proof -
  let ?k = "10 + 5 * length (workers s)"
  have "capture_work (do_push x s') = length (source s') * ?k + 1"
    using assms by (simp add: capture_work_def do_push_def push_now_def push_commit_def Let_def)
  moreover have "capture_work s = (length (source s') + 1) * ?k + 1"
    using assms(6,7) unfolding capture_work_def assms(6) by simp
  ultimately have "capture_work (do_push x s') + ?k = capture_work s" by simp
  moreover have "work (do_push x s') \<le> capture_work (do_push x s') + 5 * (length (items (queue s)) + 1)
      + (sum_list (map (rank (items (queue s) = [])) (workers s)) + 5 * length (workers s)) + main_rank (main_pc s)"
    using ranks_push [of "workers s" "items (queue s) = []"] assms
    by (simp add: work_def do_push_def push_now_def push_commit_def Let_def)
  ultimately show ?thesis by (simp add: work_def)
qed

text \<open>After the shutdown every step is progress.\<close>

lemma shutdown_step_decreases:
  assumes step: "pipeline_step n l s t" and inv: "inv_source packets s" and n: "0 < n"
    and down: "main_pc s \<noteq> MJoinCapture"
  shows "work t < work s"
proof -
  have sd: "shutdown_flag (queue s)" "capture_pc s = CDone"
    using inv down by (simp_all add: inv_source_def)
  from step show ?thesis
  proof (cases rule: pipeline_step.cases)
    case (worker_drain i ns)
    then show ?thesis using work_drain [of i s n ns] n by simp
  next
    case (worker_linger_drain i ns)
    then show ?thesis using work_drain [of i s n ns] n by simp
  next
    case (worker_enter i)
    then show ?thesis
      by (intro work_move [of i]) (auto simp: set_worker_def pop_enter_def capture_work_def)
  next
    case (worker_notify i b lo)
    then show ?thesis
      by (intro work_move [of i]) (auto simp: set_worker_def capture_work_def sd notify_not_full_def)
  next
    case (worker_analyse i b)
    then show ?thesis
      by (intro work_move [of i]) (auto simp: set_worker_def do_analyse_def capture_work_def)
  next
    case (worker_exit i)
    then show ?thesis
      by (intro work_move [of i]) (auto simp: set_worker_def capture_work_def)
  next
    case (worker_again i)
    then show ?thesis
      by (intro work_move [of i]) (auto simp: set_worker_def capture_work_def is_finished_def sd)
  qed (use sd down in \<open>auto simp: work_def capture_work_def must_linger_def notify_not_full_def\<close>)
qed

text \<open>
  Before it, some step always is: a worker that holds packets or an answer goes on, otherwise the
  capture thread does, and if that one waits for room, the queue is full and any worker drains it.
\<close>

lemma worker_progress:
  assumes ne: "items (queue s) \<noteq> []" and n: "0 < n" and i: "i < length (workers s)" "workers s ! i \<noteq> WExit"
  shows "\<exists>t. pipeline_step n l s t \<and> (work t < work s \<or> (\<exists>b lo. workers s ! i = WNotify b lo))"
proof (cases "workers s ! i")
  case WStart
  show ?thesis
    by (intro exI conjI, rule pipeline_step.worker_enter [OF i(1) WStart], rule disjI1, rule work_move [OF i(1)])
      (use WStart in \<open>auto simp: set_worker_def pop_enter_def capture_work_def\<close>)
next
  case WWait
  show ?thesis
  proof (cases "must_linger n l (queue s)")
    case True
    show ?thesis
      by (intro exI conjI, rule pipeline_step.worker_linger [OF i(1) WWait True], rule disjI1,
          rule work_move [OF i(1)])
        (use WWait in \<open>auto simp: set_worker_def capture_work_def\<close>)
  next
    case False
    show ?thesis
      by (intro exI conjI, rule pipeline_step.worker_drain [OF i(1) WWait False], rule disjI1,
          rule work_drain [OF i(1) _ n]) (simp add: WWait)
  qed
next
  case WLinger
  show ?thesis
    by (intro exI conjI, rule pipeline_step.worker_linger_drain [OF i(1) WLinger], rule disjI1,
        rule work_drain [OF i(1) _ n]) (simp add: WLinger)
next
  case (WNotify b lo)
  show ?thesis
    by (intro exI conjI, rule pipeline_step.worker_notify [OF i(1) WNotify]) (simp add: WNotify)
next
  case (WGot b)
  show ?thesis
  proof (cases "b = []")
    case True
    have fin: "\<not> is_finished (queue s)" using ne by (simp add: is_finished_def)
    show ?thesis
      by (intro exI conjI, rule pipeline_step.worker_again [OF i(1) WGot [unfolded True] fin], rule disjI1,
          rule work_move [OF i(1)])
        (use WGot True ne in \<open>auto simp: set_worker_def capture_work_def\<close>)
  next
    case False
    show ?thesis
      by (intro exI conjI, rule pipeline_step.worker_analyse [OF i(1) WGot False], rule disjI1,
          rule work_move [OF i(1)])
        (use WGot False in \<open>auto simp: set_worker_def do_analyse_def capture_work_def\<close>)
  qed
next
  case WExit
  then show ?thesis using i by simp
qed

lemma notify_work:
  assumes i: "i < length (workers s)" and w: "workers s ! i = WNotify b lo"
  shows "\<exists>t. pipeline_step n l s t \<and> work t < work s"
proof -
  let ?c = "if b \<noteq> [] then notify_not_full (capture_pc s) else capture_pc s"
  have "length (in_flight ?c) = length (in_flight (capture_pc s))" "?c = CDone \<longleftrightarrow> capture_pc s = CDone"
    by (cases "capture_pc s"; simp add: notify_not_full_def)+
  then have "work (set_worker i (WGot b) (s\<lparr>capture_pc := ?c\<rparr>)) < work s"
    using w by (intro work_move [OF i]) (auto simp: set_worker_def capture_work_def)
  then show ?thesis using pipeline_step.worker_notify [OF i w] by blast
qed

lemma full_queue_progress:
  assumes inv: "pipeline_inv cap packets n s" and n: "0 < n" and cap: "0 < cap"
    and full: "\<not> push_ready (queue s)"
  shows "\<exists>t. pipeline_step n l s t \<and> work t < work s"
proof -
  have ne: "items (queue s) \<noteq> []"
    using full cap inv by (auto simp: push_ready_def pipeline_inv_def)
  have i: "0 < length (workers s)" using inv by (simp add: pipeline_inv_def)
  have "WExit \<notin> set (workers s)"
    using inv ne by (auto simp: pipeline_inv_def inv_exit_def is_finished_def)
  then have "workers s ! 0 \<noteq> WExit" using nth_mem [OF i] by metis
  from worker_progress [OF ne n i this] show ?thesis
    using notify_work [OF i] by blast
qed

lemma capture_progress:
  assumes inv: "pipeline_inv cap packets n s" and n: "0 < n" and cap: "0 < cap"
    and up: "main_pc s = MJoinCapture"
  shows "\<exists>t. pipeline_step n l s t \<and> work t < work s"
proof (cases "\<exists>i < length (workers s). wakes_capture (workers s ! i)")
  case True
  then obtain i where i: "i < length (workers s)" "wakes_capture (workers s ! i)" by blast
  then obtain b lo where "workers s ! i = WNotify b lo" by (cases "workers s ! i") auto
  then show ?thesis using notify_work i(1) by blast
next
  case False
  have sd: "\<not> shutdown_flag (queue s)"
    using inv up by (simp add: pipeline_inv_def inv_source_def)
  show ?thesis
  proof (cases "capture_pc s")
    case CDone
    then have "work (s\<lparr>queue := queue_shutdown (queue s), main_pc := MShutNotify\<rparr>) < work s"
      using up by (simp add: work_def capture_work_def queue_shutdown_def)
    then show ?thesis using pipeline_step.main_shutdown [OF up CDone] by blast
  next
    case CIdle
    show ?thesis
    proof (cases "source s")
      case Nil
      have "work (s\<lparr>capture_pc := CDone\<rparr>) < work s"
        using CIdle by (simp add: work_def capture_work_def)
      then show ?thesis using pipeline_step.cap_done [OF CIdle Nil] by blast
    next
      case (Cons x xs)
      show ?thesis
      proof (cases "push_ready (queue s)")
        case True
        have "work (do_push x (s\<lparr>source := xs\<rparr>)) < work s"
          by (rule work_push [OF sd]) (simp_all add: CIdle Cons)
        then show ?thesis using pipeline_step.cap_push [OF CIdle Cons True] by blast
      qed (rule full_queue_progress [OF inv n cap])
    qed
  next
    case (CWoken x)
    show ?thesis
    proof (cases "push_ready (queue s)")
      case True
      have "work (do_push x (s\<lparr>queue := push_waited 0 (queue s)\<rparr>)) < work s"
        by (rule work_push [OF sd]) (simp_all add: CWoken push_waited_def)
      then show ?thesis using pipeline_step.cap_retry [OF CWoken True] by blast
    qed (rule full_queue_progress [OF inv n cap])
  next
    case (CBlocked x)
    then have "\<not> push_ready (queue s)"
      using inv False by (auto simp: pipeline_inv_def inv_wake_def)
    then show ?thesis by (rule full_queue_progress [OF inv n cap])
  qed
qed

text \<open>After the shutdown some step is enabled until the pool is joined.\<close>

lemma shutdown_enabled:
  assumes inv: "pipeline_inv cap packets n s" and down: "main_pc s \<noteq> MJoinCapture" "main_pc s \<noteq> MDone"
  shows "\<exists>t. pipeline_step n l s t"
proof (cases "main_pc s = MShutNotify")
  case True
  then show ?thesis using pipeline_step.main_notify by blast
next
  case False
  then have m: "main_pc s = MJoinPool" using down by (cases "main_pc s") auto
  show ?thesis
  proof (cases "list_all (\<lambda>w. w = WExit) (workers s)")
    case True
    then show ?thesis using pipeline_step.main_join [OF m] by blast
  next
    case False
    then obtain i where "i < length (workers s)" "workers s ! i \<noteq> WExit"
      by (auto simp: list_all_length)
    then show ?thesis
      by (cases "workers s ! i") (blast intro: pipeline_step.intros)+
  qed
qed

lemma can_finish:
  assumes "pipeline_inv cap packets n s" "0 < n" "0 < cap"
  shows "\<exists>t. pipeline_reachable n l s t \<and> main_pc t = MDone"
  using assms
proof (induction "work s" arbitrary: s rule: less_induct)
  case less
  show ?case
  proof (cases "main_pc s = MDone")
    case True
    then show ?thesis by (blast intro: pipeline_runs)
  next
    case False
    have "\<exists>t. pipeline_step n l s t \<and> work t < work s"
    proof (cases "main_pc s = MJoinCapture")
      case True
      then show ?thesis using capture_progress less.prems by blast
    next
      case down: False
      with False obtain t where "pipeline_step n l s t" using shutdown_enabled less.prems(1) by blast
      then show ?thesis
        using shutdown_step_decreases less.prems down by (metis pipeline_inv_def)
    qed
    then obtain t where t: "pipeline_step n l s t" "work t < work s" by blast
    have "pipeline_inv cap packets n t" using step_inv t(1) less.prems by blast
    then obtain u where "pipeline_reachable n l t u" "main_pc u = MDone"
      using less.hyps [OF t(2)] less.prems by blast
    then show ?thesis
      using pipeline_runs(3) [OF t(1)] by (blast intro: pipeline_trans)
  qed
qed

lemma shutdown_run_bound:
  assumes "(pipeline_step n l ^^ k) s t" "pipeline_inv cap packets n s" "0 < n" "main_pc s \<noteq> MJoinCapture"
  shows "k + work t \<le> work s \<and> pipeline_inv cap packets n t \<and> main_pc t \<noteq> MJoinCapture"
  using assms
proof (induction k arbitrary: t)
  case (Suc k)
  then obtain u where u: "(pipeline_step n l ^^ k) s u" "pipeline_step n l u t" by auto
  then have ih: "k + work u \<le> work s" "pipeline_inv cap packets n u" "main_pc u \<noteq> MJoinCapture"
    using Suc by auto
  have "work t < work u"
    using shutdown_step_decreases [OF u(2) _ Suc.prems(3) ih(3)] ih(2) by (auto simp: pipeline_inv_def)
  moreover have "main_pc t \<noteq> MJoinCapture"
    using u(2) ih(3) by (cases rule: pipeline_step.cases) (auto simp: pipeline_defs split: prod.splits)
  ultimately show ?case using ih step_inv [OF u(2) ih(2) Suc.prems(3)] by simp
qed simp

section \<open>Properties of the pipeline\<close>

text \<open>
  C7. No packet is lost. When the main thread has joined the pool, the batches handed to the
  analysis callback hold exactly the packets of the source, each once, whatever the schedule,
  the number of workers, the batch size, the linger time and the queue capacity; the queue is
  empty and \<open>processed_\<close> is the number of packets (as a 64-bit counter).
\<close>

theorem pipeline_no_loss:
  assumes "pipeline_reachable n l (pipeline_start cap k packets) s" "0 < n" "main_pc s = MDone"
  shows "mset (concat (analysed s)) = mset packets \<and> items (queue s) = [] \<and>
    processed s = of_nat (length packets) \<and> (\<forall>b \<in> set (analysed s). b \<noteq> [] \<and> length b \<le> n)"
proof -
  note inv = start_reachable_inv [OF assms(1,2)]
  show ?thesis
    using done_state [OF inv assms(3)] inv by (simp add: pipeline_inv_def inv_hands_def)
qed

theorem pipeline_no_loss_witness:
  "\<exists>s. pipeline_reachable 2 5 (pipeline_start 1 0 [10, 11, 12 :: nat]) s \<and> main_pc s = MDone \<and>
     mset (concat (analysed s)) = {#10, 11, 12#} \<and> processed s = 3"
proof -
  obtain s where s: "pipeline_reachable 2 5 (pipeline_start 1 0 [10, 11, 12 :: nat]) s" "main_pc s = MDone"
    using can_finish [OF start_inv, of 2 1 5 0 "[10, 11, 12 :: nat]"] by auto
  with pipeline_no_loss [OF s(1) _ s(2)] show ?thesis by (auto intro!: exI [of _ s])
qed

text \<open>
  C8. Backpressure and order. In every reachable state the queue holds at most its capacity, the
  packets that entered are a prefix of the source and the packets that left are a prefix of
  those, so the queue delivers in the order of capture.
\<close>

theorem pipeline_fifo_bounded:
  assumes "pipeline_reachable n l (pipeline_start cap k packets) s" "0 < n"
  shows "length (items (queue s)) \<le> cap \<and> pushed s = popped s @ items (queue s) \<and>
    (\<exists>rest. packets = pushed s @ rest)"
  using start_reachable_inv [OF assms] by (auto simp: pipeline_inv_def inv_fifo_def inv_source_def)

theorem pipeline_fifo_bounded_witness:
  "\<exists>s. pipeline_reachable 2 5 (pipeline_start 1 1 [10, 11 :: nat]) s \<and> pushed s = [10] \<and>
     length (items (queue s)) \<le> 1"
proof -
  let ?s0 = "pipeline_start 1 1 [10, 11 :: nat]"
  have "pipeline_step 2 5 ?s0 (do_push 10 (?s0\<lparr>source := [11]\<rparr>))"
    by (rule pipeline_step.cap_push) (simp_all add: pipeline_start_def push_ready_def new_PacketQueue_def)
  then have r: "pipeline_reachable 2 5 ?s0 (do_push 10 (?s0\<lparr>source := [11]\<rparr>))"
    by (rule reaches.step [OF reaches.start])
  show ?thesis
    using pipeline_fifo_bounded [OF r] r
    by - (rule exI [of _ "do_push 10 (?s0\<lparr>source := [11]\<rparr>)"],
      simp add: do_push_def push_now_def push_commit_def pipeline_start_def new_PacketQueue_def)
qed

text \<open>
  C9. No lost wake-up. \<open>push\<close> waits without a timeout, so the capture thread depends on being
  notified: whenever it sleeps, either the queue is full and not shut down, so that the next
  worker to drain it will notify, or a worker has already taken packets and its notification is
  still to come.
\<close>

theorem no_lost_wakeup:
  assumes "pipeline_reachable n l (pipeline_start cap k packets) s" "0 < n" "capture_pc s = CBlocked x"
  shows "(length (items (queue s)) = cap \<and> \<not> shutdown_flag (queue s)) \<or>
    (\<exists>i b lo. i < length (workers s) \<and> workers s ! i = WNotify b lo \<and> b \<noteq> [])"
proof -
  have inv: "pipeline_inv cap packets n s" by (rule start_reachable_inv [OF assms(1,2)])
  then consider "\<not> push_ready (queue s)" | i where "i < length (workers s)" "wakes_capture (workers s ! i)"
    using assms(3) by (auto simp: pipeline_inv_def inv_wake_def)
  then show ?thesis
  proof cases
    case 1
    then show ?thesis using inv by (auto simp: pipeline_inv_def push_ready_def inv_fifo_def)
  next
    case 2
    then show ?thesis by (cases "workers s ! i") auto
  qed
qed

theorem no_lost_wakeup_witness:
  "\<exists>s :: nat pipeline. capture_pc s = CBlocked 11 \<and>
     ((length (items (queue s)) = 1 \<and> \<not> shutdown_flag (queue s)) \<or>
      (\<exists>i b lo. i < length (workers s) \<and> workers s ! i = WNotify b lo \<and> b \<noteq> []))"
proof -
  let ?s0 = "pipeline_start 1 1 [10, 11 :: nat]"
  let ?s1 = "do_push 10 (?s0\<lparr>source := [11]\<rparr>)"
  let ?s2 = "?s1\<lparr>source := [], capture_pc := CBlocked 11\<rparr>"
  note ev = pipeline_start_def push_ready_def new_PacketQueue_def do_push_def push_now_def push_commit_def
  have "pipeline_step 2 5 ?s0 ?s1" by (rule pipeline_step.cap_push) (simp_all add: ev)
  then have r1: "pipeline_reachable 2 5 ?s0 ?s1"
    by (rule reaches.step [OF reaches.start])
  have "pipeline_step 2 5 ?s1 ?s2" by (rule pipeline_step.cap_block) (simp_all add: ev)
  then have "pipeline_reachable 2 5 ?s0 ?s2" by (rule reaches.step [OF r1])
  from no_lost_wakeup [OF this, of 11] have "(length (items (queue ?s2)) = 1 \<and> \<not> shutdown_flag (queue ?s2)) \<or>
      (\<exists>i b lo. i < length (workers ?s2) \<and> workers ?s2 ! i = WNotify b lo \<and> b \<noteq> [])" by simp
  moreover have "capture_pc ?s2 = CBlocked 11" by simp
  ultimately show ?thesis by blast
qed

text \<open>
  The pipeline cannot get stuck: from every reachable state, with a positive capacity and
  batch size (which \<open>main\<close> insists on), some schedule reaches the state in which the main thread
  has joined every thread and all packets have been analysed.
\<close>

theorem pipeline_can_finish:
  assumes "pipeline_reachable n l (pipeline_start cap k packets) s" "0 < n" "0 < cap"
  shows "\<exists>t. pipeline_reachable n l s t \<and> main_pc t = MDone \<and> mset (concat (analysed t)) = mset packets"
proof -
  note inv = start_reachable_inv [OF assms(1,2)]
  obtain t where t: "pipeline_reachable n l s t" "main_pc t = MDone"
    using can_finish [OF inv assms(2,3)] by blast
  then show ?thesis
    using done_state(1) [OF reachable_inv [OF t(1) inv assms(2)] t(2)] by blast
qed

theorem pipeline_can_finish_witness:
  "\<exists>t. pipeline_reachable 64 2000 (pipeline_start 4096 0 [1, 2 :: nat]) t \<and> main_pc t = MDone \<and>
     mset (concat (analysed t)) = {#1, 2#}"
  using pipeline_can_finish [OF reaches.start, of 64 4096 2000 0 "[1, 2 :: nat]"] by auto

text \<open>
  C14. Shutdown terminates. Once \<open>shutdown\<close> has been called, every run of the pipeline, whatever
  the schedule and however often the timed waits expire, has at most \<open>work s\<close> further steps, and
  it can stop only with the pool joined: no worker spins or sleeps forever.
\<close>

theorem shutdown_terminates:
  assumes "pipeline_reachable n l (pipeline_start cap k packets) s" "0 < n" "main_pc s \<noteq> MJoinCapture"
    and "(pipeline_step n l ^^ m) s t"
  shows "m \<le> work s \<and> (main_pc t \<noteq> MDone \<longrightarrow> (\<exists>u. pipeline_step n l t u))"
proof -
  note run = shutdown_run_bound [OF assms(4) start_reachable_inv [OF assms(1,2)] assms(2,3)]
  then show ?thesis using shutdown_enabled [of cap packets n t l] by auto
qed

theorem shutdown_terminates_witness:
  "\<exists>s t :: nat pipeline. main_pc s = MShutNotify \<and> pipeline_step 4 0 s t \<and> 1 \<le> work s \<and>
     (\<exists>u. pipeline_step 4 0 t u)"
proof -
  let ?s0 = "pipeline_start 2 1 [] :: nat pipeline"
  let ?s1 = "?s0\<lparr>capture_pc := CDone\<rparr>"
  let ?s2 = "?s1\<lparr>queue := queue_shutdown (queue ?s1), main_pc := MShutNotify\<rparr>"
  let ?s3 = "?s2\<lparr>capture_pc := notify_not_full (capture_pc ?s2), main_pc := MJoinPool\<rparr>"
  have "pipeline_step 4 0 ?s0 ?s1" by (rule pipeline_step.cap_done) (simp_all add: pipeline_start_def)
  then have r1: "pipeline_reachable 4 0 ?s0 ?s1"
    by (rule reaches.step [OF reaches.start])
  have "pipeline_step 4 0 ?s1 ?s2" by (rule pipeline_step.main_shutdown) (simp_all add: pipeline_start_def)
  then have r2: "pipeline_reachable 4 0 ?s0 ?s2" by (rule reaches.step [OF r1])
  have s3: "pipeline_step 4 0 ?s2 ?s3" by (rule pipeline_step.main_notify) simp
  then have "(pipeline_step 4 0 ^^ 1) ?s2 ?s3" by (simp only: relpowp_1)
  from shutdown_terminates [OF r2 _ _ this]
  have "1 \<le> work ?s2 \<and> (main_pc ?s3 \<noteq> MDone \<longrightarrow> (\<exists>u. pipeline_step 4 0 ?s3 u))" by simp
  moreover have "main_pc ?s2 = MShutNotify" "main_pc ?s3 \<noteq> MDone" by simp_all
  ultimately show ?thesis using s3 by blast
qed

end
