(* ===== verification/Concurrent_Engine.thy ===== *)
theory Concurrent_Engine
  imports Engine_Correct
begin

text \<open>
  The engine as the worker threads share it: several calls of \<open>analyze_batch\<close> in progress at once,
  interleaved packet by packet (\<open>FlowTracker::observe\<close> runs under the lock of a shard and is one
  step). The sink is a multiset, since calls of it from different threads come in any order. What
  each call owes the sink until it returns is an invariant, from which the alerts of a whole run
  follow for every interleaving.
\<close>

section \<open>Calls in progress\<close>

text \<open>The local state of one call: its backend's answers, its batch and the packets still to inspect.\<close>

record 'w call =
  call_backend :: "'w EntropyBackend"
  call_batch :: "QueuedPacket list"
  call_pending :: "'w option"
  call_rest :: "QueuedPacket list"

text \<open>
  \<open>observed\<close> and \<open>begun\<close> record the history: the packets in the order \<open>observe\<close> saw them, each with the
  order in which a sweep met the table, and the batches whose analysis began.
\<close>

record 'w engine_sys =
  shared_engine :: AnalysisEngine
  calls :: "'w call option list"
  sink :: "Alert multiset"
  observed :: "(visit_order \<times> QueuedPacket) list"
  begun :: "('w EntropyBackend \<times> QueuedPacket list) list"

definition engine_start :: "AnalysisConfig \<Rightarrow> size_t \<Rightarrow> 'w engine_sys" where
  "engine_start cfg threads = \<lparr>shared_engine = new_AnalysisEngine cfg, calls = replicate threads None,
     sink = {#}, observed = [], begun = []\<rparr>"

text \<open>Entering \<open>analyze_batch\<close> on thread \<open>i\<close>: the eligible payloads are handed to the backend.\<close>

definition begin_call :: "nat \<Rightarrow> 'w EntropyBackend \<Rightarrow> QueuedPacket list \<Rightarrow> 'w engine_sys \<Rightarrow> 'w engine_sys" where
  "begin_call i backend batch e =
     (let eligible = eligible_packets (engine_config (shared_engine e)) batch in
      e\<lparr>calls := (calls e)[i := Some \<lparr>call_backend = backend, call_batch = batch,
          call_pending = (if eligible \<noteq> [] then start backend eligible else None), call_rest = batch\<rparr>],
        begun := begun e @ [(backend, batch)]\<rparr>)"

text \<open>One round of the loop over the batch.\<close>

definition inspect_next :: "(u32 \<Rightarrow> u64) \<Rightarrow> nat \<Rightarrow> visit_order \<Rightarrow> 'w call \<Rightarrow> QueuedPacket \<Rightarrow> QueuedPacket list
    \<Rightarrow> 'w engine_sys \<Rightarrow> 'w engine_sys" where
  "inspect_next h i visit c p rest e =
     (let (ft, alerts) = observe visit h (flow_tracker (shared_engine e)) p in
      e\<lparr>shared_engine := (shared_engine e)\<lparr>flow_tracker := ft\<rparr>,
        sink := sink e + mset (signature_alerts (signatures (shared_engine e)) p) + mset alerts,
        observed := observed e @ [(visit, p)],
        calls := (calls e)[i := Some (c\<lparr>call_rest := rest\<rparr>)]\<rparr>)"

text \<open>The end of \<open>analyze_batch\<close>: the wait, the fallback and the entropy alerts.\<close>

definition finish_call :: "nat \<Rightarrow> 'w call \<Rightarrow> 'w engine_sys \<Rightarrow> 'w engine_sys" where
  "finish_call i c e =
     (let eng = shared_engine e; cfg = engine_config eng; eligible = eligible_packets cfg (call_batch c);
          e = e\<lparr>calls := (calls e)[i := None]\<rparr>
      in if eligible = [] then e
         else
           let waited = (case call_pending c of None \<Rightarrow> None | Some w \<Rightarrow> wait (call_backend c) w);
               good = (case waited of None \<Rightarrow> False | Some es \<Rightarrow> length es = length eligible);
               entropies = (if good then the waited
                            else case compute CpuEntropyBackend eligible of None \<Rightarrow> [] | Some es \<Rightarrow> es)
           in e\<lparr>shared_engine := (if good then eng else eng\<lparr>fallbacks := fallbacks eng + 1\<rparr>),
                sink := sink e + mset (entropy_alerts cfg eligible entropies)\<rparr>)"

inductive engine_step :: "(u32 \<Rightarrow> u64) \<Rightarrow> 'w engine_sys \<Rightarrow> 'w engine_sys \<Rightarrow> bool" for h where
  begin_analysis: "i < length (calls e) \<Longrightarrow> calls e ! i = None \<Longrightarrow>
     engine_step h e (begin_call i backend batch e)"
| inspect_packet: "i < length (calls e) \<Longrightarrow> calls e ! i = Some c \<Longrightarrow> call_rest c = p # rest \<Longrightarrow>
     engine_step h e (inspect_next h i visit c p rest e)"
| end_analysis: "i < length (calls e) \<Longrightarrow> calls e ! i = Some c \<Longrightarrow> call_rest c = [] \<Longrightarrow>
     engine_step h e (finish_call i c e)"

abbreviation engine_reachable :: "(u32 \<Rightarrow> u64) \<Rightarrow> 'w engine_sys \<Rightarrow> 'w engine_sys \<Rightarrow> bool" where
  "engine_reachable h \<equiv> reaches (engine_step h)"

lemmas engine_runs = reaches.intros [where next_step = "engine_step h"] reaches_once [where next_step = "engine_step h"] for h
lemmas engine_trans = reaches_trans [where next_step = "engine_step h"] for h

section \<open>What calls in progress owe the sink\<close>

definition batch_entropy_alerts :: "AnalysisConfig \<Rightarrow> QueuedPacket list \<Rightarrow> Alert list" where
  "batch_entropy_alerts cfg batch =
     entropy_alerts cfg (eligible_packets cfg batch) (cpu_entropies (eligible_packets cfg batch))"

definition owed :: "AnalysisConfig \<Rightarrow> SignatureDatabase \<Rightarrow> 'w call option \<Rightarrow> Alert multiset" where
  "owed cfg db slot = (case slot of None \<Rightarrow> {#}
     | Some c \<Rightarrow> mset (concat (map (signature_alerts db) (call_rest c))) + mset (batch_entropy_alerts cfg (call_batch c)))"

definition uninspected :: "'w call option \<Rightarrow> QueuedPacket multiset" where
  "uninspected slot = (case slot of None \<Rightarrow> {#} | Some c \<Rightarrow> mset (call_rest c))"

definition batch_alerts :: "AnalysisConfig \<Rightarrow> SignatureDatabase \<Rightarrow> QueuedPacket list \<Rightarrow> Alert multiset" where
  "batch_alerts cfg db batch = mset (concat (map (payload_alerts cfg db) batch))"

lemma owed_fresh: "owed cfg db (Some \<lparr>call_backend = bk, call_batch = b, call_pending = w, call_rest = b\<rparr>) = batch_alerts cfg db b"
  using entropy_alerts_exact [of db b cfg] by (simp add: owed_def batch_alerts_def batch_entropy_alerts_def)

definition call_ok :: "AnalysisConfig \<Rightarrow> ('w EntropyBackend \<times> QueuedPacket list) set \<Rightarrow> 'w call option \<Rightarrow> bool" where
  "call_ok cfg known slot = (case slot of None \<Rightarrow> True
     | Some c \<Rightarrow> (call_backend c, call_batch c) \<in> known \<and>
         (let eligible = eligible_packets cfg (call_batch c)
          in call_pending c = (if eligible \<noteq> [] then start (call_backend c) eligible else None)))"

definition trusted :: "AnalysisConfig \<Rightarrow> 'w EntropyBackend \<times> QueuedPacket list \<Rightarrow> bool" where
  "trusted cfg bb \<longleftrightarrow> chosen (start (fst bb)) (wait (fst bb)) (eligible_packets cfg (snd bb)) =
     cpu_entropies (eligible_packets cfg (snd bb))"

definition engine_inv :: "(u32 \<Rightarrow> u64) \<Rightarrow> AnalysisEngine \<Rightarrow> 'w engine_sys \<Rightarrow> bool" where
  "engine_inv h eng e \<longleftrightarrow>
     engine_config (shared_engine e) = engine_config eng \<and> signatures (shared_engine e) = signatures eng \<and>
     flow_tracker (shared_engine e) = fst (observe_all h (observed e) (flow_tracker eng)) \<and>
     list_all (call_ok (engine_config eng) (set (begun e))) (calls e) \<and>
     mset (map snd (observed e)) + sum_list (map uninspected (calls e)) = mset (concat (map snd (begun e)))"

definition sink_inv :: "(u32 \<Rightarrow> u64) \<Rightarrow> AnalysisEngine \<Rightarrow> 'w engine_sys \<Rightarrow> bool" where
  "sink_inv h eng e \<longleftrightarrow>
     sink e + sum_list (map (owed (engine_config eng) (signatures eng)) (calls e)) =
     batch_alerts (engine_config eng) (signatures eng) (concat (map snd (begun e))) +
     mset (concat (snd (observe_all h (observed e) (flow_tracker eng))))"

lemma list_all_update: "list_all P xs \<Longrightarrow> P x \<Longrightarrow> list_all P (xs[i := x])"
  by (auto simp: list_all_iff dest!: set_update_subset_insert [THEN subsetD])

lemma call_ok_mono: "call_ok cfg known slot \<Longrightarrow> known \<subseteq> known' \<Longrightarrow> call_ok cfg known' slot"
  by (auto simp: call_ok_def Let_def split: option.splits)

lemma begin_inv:
  assumes "engine_inv h eng e" "i < length (calls e)" "calls e ! i = None"
  shows "engine_inv h eng (begin_call i backend batch e)"
proof -
  have "list_all (call_ok (engine_config eng) (insert (backend, batch) (set (begun e)))) (calls e)"
    using assms(1) by (auto simp: engine_inv_def list_all_iff intro: call_ok_mono)
  moreover have "sum_list (map uninspected (calls (begin_call i backend batch e))) =
      sum_list (map uninspected (calls e)) + mset batch"
    using sum_list_map_update [OF assms(2), of uninspected] assms(3)
    by (simp add: begin_call_def Let_def uninspected_def)
  ultimately show ?thesis
    using assms(1) by (auto simp: engine_inv_def begin_call_def Let_def call_ok_def ac_simps intro!: list_all_update)
qed

lemma inspect_inv:
  assumes "engine_inv h eng e" "i < length (calls e)" "calls e ! i = Some c" "call_rest c = p # rest"
  shows "engine_inv h eng (inspect_next h i visit c p rest e)"
proof -
  have "sum_list (map uninspected (calls e)) =
      sum_list (map uninspected ((calls e)[i := Some (c\<lparr>call_rest := rest\<rparr>)])) + {#p#}"
    using sum_list_map_update [OF assms(2), of uninspected "Some (c\<lparr>call_rest := rest\<rparr>)"] assms(3,4)
    by (simp add: uninspected_def)
  moreover have "call_ok (engine_config eng) (set (begun e)) (Some (c\<lparr>call_rest := rest\<rparr>))"
    using assms(1-3) by (auto simp: engine_inv_def list_all_length call_ok_def Let_def dest!: spec [of _ i])
  ultimately show ?thesis
    using assms(1)
    by (auto simp: engine_inv_def inspect_next_def split_beta observe_all_append observe_all_Cons Let_def
        ac_simps intro!: list_all_update simp del: observe_all.simps(2))
qed

lemma finish_inv:
  assumes "engine_inv h eng e" "i < length (calls e)" "calls e ! i = Some c" "call_rest c = []"
  shows "engine_inv h eng (finish_call i c e)"
proof -
  have "sum_list (map uninspected ((calls e)[i := None])) = sum_list (map uninspected (calls e))"
    using sum_list_map_update [OF assms(2), of uninspected None] assms(3,4) by (simp add: uninspected_def)
  then show ?thesis
    using assms(1)
    by (auto simp: engine_inv_def finish_call_def Let_def call_ok_def intro!: list_all_update)
qed

lemma begin_sink:
  assumes "sink_inv h eng e" "i < length (calls e)" "calls e ! i = None"
    and "engine_config (shared_engine e) = engine_config eng"
  shows "sink_inv h eng (begin_call i backend batch e)"
  using assms sum_list_map_update [OF assms(2), of "owed (engine_config eng) (signatures eng)"]
  by (simp add: sink_inv_def begin_call_def Let_def owed_fresh batch_alerts_def owed_def [of _ _ None] ac_simps)

lemma inspect_sink:
  assumes "sink_inv h eng e" "engine_inv h eng e" "i < length (calls e)" "calls e ! i = Some c" "call_rest c = p # rest"
  shows "sink_inv h eng (inspect_next h i visit c p rest e)"
proof -
  have "sum_list (map (owed (engine_config eng) (signatures eng)) ((calls e)[i := Some (c\<lparr>call_rest := rest\<rparr>)])) +
      mset (signature_alerts (signatures eng) p) = sum_list (map (owed (engine_config eng) (signatures eng)) (calls e))"
    using sum_list_map_update [OF assms(3), of "owed (engine_config eng) (signatures eng)" "Some (c\<lparr>call_rest := rest\<rparr>)"] assms(4,5)
    by (simp add: owed_def ac_simps)
  then show ?thesis
    using assms(1,2)
    by (simp add: sink_inv_def engine_inv_def inspect_next_def split_beta observe_all_append observe_all_Cons Let_def
        ac_simps del: observe_all.simps(2))
qed

lemma finish_sink:
  assumes "sink_inv h eng e" "engine_inv h eng e" "i < length (calls e)" "calls e ! i = Some c" "call_rest c = []"
    and "\<forall>bb \<in> set (begun e). trusted (engine_config eng) bb"
  shows "sink_inv h eng (finish_call i c e)"
proof -
  let ?cfg = "engine_config eng"
  have ok: "call_ok ?cfg (set (begun e)) (Some c)"
    using assms(2-4) by (auto simp: engine_inv_def list_all_length dest!: spec [of _ i])
  have "trusted ?cfg (call_backend c, call_batch c)" using ok assms(6) by (auto simp: call_ok_def)
  then have "sink (finish_call i c e) = sink e + mset (batch_entropy_alerts ?cfg (call_batch c))"
    using ok assms(2)
    by (auto simp: finish_call_def Let_def engine_inv_def call_ok_def trusted_def chosen_def compute_cpu
        batch_entropy_alerts_def entropy_alerts_def split: option.splits if_splits)
  moreover have "sum_list (map (owed ?cfg (signatures eng)) ((calls e)[i := None])) +
      mset (batch_entropy_alerts ?cfg (call_batch c)) = sum_list (map (owed ?cfg (signatures eng)) (calls e))"
    using sum_list_map_update [OF assms(3), of "owed ?cfg (signatures eng)" None] assms(4,5) by (simp add: owed_def)
  moreover have "calls (finish_call i c e) = (calls e)[i := None]" "begun (finish_call i c e) = begun e"
    "observed (finish_call i c e) = observed e"
    by (simp_all add: finish_call_def Let_def)
  ultimately show ?thesis using assms(1) by (simp add: sink_inv_def ac_simps)
qed

lemma begun_grows: "engine_step h e f \<Longrightarrow> set (begun e) \<subseteq> set (begun f)"
  by (cases rule: engine_step.cases)
    (auto simp: begin_call_def inspect_next_def finish_call_def Let_def split_beta)

lemma step_engine_inv: "engine_step h e f \<Longrightarrow> engine_inv h eng e \<Longrightarrow> engine_inv h eng f"
  by (cases rule: engine_step.cases) (auto intro: begin_inv inspect_inv finish_inv)

lemma step_sink_inv:
  assumes "engine_step h e f" "engine_inv h eng e" "sink_inv h eng e"
    and "\<forall>bb \<in> set (begun f). trusted (engine_config eng) bb"
  shows "sink_inv h eng f"
  using assms(1)
proof (cases rule: engine_step.cases)
  case (begin_analysis i backend batch)
  then show ?thesis using assms(2,3) by (auto simp: engine_inv_def intro: begin_sink)
next
  case (inspect_packet i c p rest visit)
  then show ?thesis using assms(2,3) by (auto intro: inspect_sink)
next
  case (end_analysis i c)
  then show ?thesis using assms begun_grows [OF assms(1)] by (auto intro: finish_sink)
qed

lemma sum_list_replicate_empty [simp]: "sum_list (replicate n {#}) = {#}"
  by (induction n) simp_all

lemma start_engine_inv: "engine_inv h (new_AnalysisEngine cfg) (engine_start cfg n)"
  "sink_inv h (new_AnalysisEngine cfg) (engine_start cfg n)"
  by (simp_all add: engine_inv_def sink_inv_def engine_start_def list_all_iff call_ok_def uninspected_def
      owed_def batch_alerts_def comp_def)

interpretation shared: step_invariant "engine_step h" "engine_inv h eng" for h eng
  by unfold_locales (rule step_engine_inv)

lemmas reachable_engine_inv = shared.everywhere [OF _ start_engine_inv(1)]

lemma reachable_sink_inv:
  "engine_reachable h (engine_start cfg n) e \<Longrightarrow> \<forall>bb \<in> set (begun e). trusted cfg bb \<Longrightarrow>
     sink_inv h (new_AnalysisEngine cfg) e"
proof (induction rule: reaches.induct)
  case (step e f)
  have "sink_inv h (new_AnalysisEngine cfg) e"
    using step begun_grows [OF step(2)] by blast
  then show ?case
    using step_sink_inv [OF step(2) reachable_engine_inv [OF step(1)]] step(4)
    by (simp add: new_AnalysisEngine_def)
qed (rule start_engine_inv)

section \<open>The alerts of a finished run\<close>

definition all_idle :: "'w engine_sys \<Rightarrow> bool" where
  "all_idle e \<longleftrightarrow> list_all (\<lambda>slot. slot = None) (calls e)"

lemma idle_sum: "all_idle e \<Longrightarrow> f None = {#} \<Longrightarrow> sum_list (map f (calls e)) = {#}"
proof -
  have "list_all (\<lambda>slot. slot = None) xs \<Longrightarrow> f None = {#} \<Longrightarrow> sum_list (map f xs) = {#}" for xs
    by (induction xs) auto
  then show "all_idle e \<Longrightarrow> f None = {#} \<Longrightarrow> sum_list (map f (calls e)) = {#}" by (simp add: all_idle_def)
qed

lemma idle_alerts:
  assumes "engine_reachable h (engine_start cfg n) e" "all_idle e" "\<forall>bb \<in> set (begun e). trusted cfg bb"
  shows "sink e = batch_alerts cfg new_SignatureDatabase (concat (map snd (begun e))) +
      mset (concat (snd (observe_all h (observed e) (new_FlowTracker (flow cfg)))))"
    and "mset (map snd (observed e)) = mset (concat (map snd (begun e)))"
proof -
  have "sum_list (map (owed cfg new_SignatureDatabase) (calls e)) = {#}" "sum_list (map uninspected (calls e)) = {#}"
    using assms(2) by (intro idle_sum; simp add: owed_def uninspected_def)+
  then show "sink e = batch_alerts cfg new_SignatureDatabase (concat (map snd (begun e))) +
      mset (concat (snd (observe_all h (observed e) (new_FlowTracker (flow cfg)))))"
    "mset (map snd (observed e)) = mset (concat (map snd (begun e)))"
    using reachable_sink_inv [OF assms(1,3)] reachable_engine_inv [OF assms(1)]
    by (simp_all add: sink_inv_def engine_inv_def new_AnalysisEngine_def)
qed

text \<open>One thread alone runs its calls one after the other, packets in order.\<close>

lemma single_thread_order:
  assumes "engine_reachable h (engine_start cfg 1) e"
  shows "length (calls e) = 1 \<and> map snd (observed e) @ (case hd (calls e) of None \<Rightarrow> [] | Some c \<Rightarrow> call_rest c) =
    concat (map snd (begun e))"
  using assms
proof (induction rule: reaches.induct)
  case (step e f)
  then obtain slot where "calls e = [slot]" by (metis One_nat_def length_0_conv length_Suc_conv)
  with step(2,3) show ?case
    by (cases rule: engine_step.cases)
      (auto simp: begin_call_def inspect_next_def finish_call_def Let_def split_beta)
qed (simp add: engine_start_def)

section \<open>An uninterrupted call is analyze_batch\<close>

fun inspect_all :: "(u32 \<Rightarrow> u64) \<Rightarrow> nat \<Rightarrow> (visit_order \<times> QueuedPacket) list \<Rightarrow> 'w call \<Rightarrow> 'w engine_sys \<Rightarrow> 'w engine_sys" where
  "inspect_all h i [] c e = e"
| "inspect_all h i ((visit, p) # rest) c e =
     inspect_all h i rest (c\<lparr>call_rest := map snd rest\<rparr>) (inspect_next h i visit c p (map snd rest) e)"

lemma inspect_all_effect:
  "i < length (calls e) \<Longrightarrow> calls e ! i = Some c \<Longrightarrow> call_rest c = map snd vps \<Longrightarrow>
   (let r = inspect_packets h (signatures (shared_engine e)) vps (flow_tracker (shared_engine e)); f = inspect_all h i vps c e
    in shared_engine f = (shared_engine e)\<lparr>flow_tracker := fst r\<rparr> \<and> sink f = sink e + mset (snd r) \<and>
       calls f = (calls e)[i := Some (c\<lparr>call_rest := []\<rparr>)] \<and> engine_reachable h e f)"
proof (induction vps arbitrary: c e)
  case Nil
  then have "(calls e)[i := Some (c\<lparr>call_rest := []\<rparr>)] = calls e" by (metis call.surjective call.update_convs(4) list.map(1) list_update_id)
  then show ?case by (simp add: engine_runs(1))
next
  case (Cons vp vps)
  obtain visit p where vp: "vp = (visit, p)" by fastforce
  let ?e = "inspect_next h i visit c p (map snd vps) e" and ?c = "c\<lparr>call_rest := map snd vps\<rparr>"
  have e: "i < length (calls ?e)" "calls ?e ! i = Some ?c" "call_rest ?c = map snd vps"
    using Cons.prems by (simp_all add: inspect_next_def split_beta)
  have step: "engine_step h e ?e" using Cons.prems by (intro engine_step.inspect_packet) (simp_all add: vp)
  have trans: "engine_reachable h ?e g \<Longrightarrow> engine_reachable h e g" for g
    by (rule engine_trans [OF engine_runs(3) [OF step]])
  show ?case
    using Cons.IH [OF e] trans
    by (simp add: vp Let_def inspect_next_def split_beta inspect_packets_Cons ac_simps del: inspect_packets.simps(2))
qed

lemma call_is_analyze_batch:
  assumes "i < length (calls e)" "calls e ! i = None"
    and c: "calls (begin_call i backend (map snd vps) e) ! i = Some c"
    and f: "f = finish_call i (c\<lparr>call_rest := []\<rparr>) (inspect_all h i vps c (begin_call i backend (map snd vps) e))"
  shows "(shared_engine f, sink f) = (let r = analyze_batch backend h vps (shared_engine e) in (fst r, sink e + mset (snd r)))"
    and "engine_reachable h e f"
proof -
  let ?b = "begin_call i backend (map snd vps) e"
  have b: "i < length (calls ?b)" "call_rest c = map snd vps" "call_backend c = backend" "call_batch c = map snd vps"
    "call_pending c = (let el = eligible_packets (engine_config (shared_engine e)) (map snd vps)
       in if el \<noteq> [] then start backend el else None)"
    "shared_engine ?b = shared_engine e" "sink ?b = sink e"
    using assms(1) c by (auto simp: begin_call_def Let_def)
  note eff = inspect_all_effect [OF b(1) c b(2), of h, unfolded Let_def]
  let ?g = "inspect_all h i vps c ?b"
  have "(shared_engine f, sink f) =
      ((shared_engine e)\<lparr>flow_tracker := fst (inspect_packets h (signatures (shared_engine e)) vps (flow_tracker (shared_engine e))),
         fallbacks := fallbacks (shared_engine e) +
           (if batch_failed backend (eligible_packets (engine_config (shared_engine e)) (map snd vps)) then 1 else 0)\<rparr>,
       sink e + mset (snd (inspect_packets h (signatures (shared_engine e)) vps (flow_tracker (shared_engine e)))) +
       mset (entropy_alerts (engine_config (shared_engine e)) (eligible_packets (engine_config (shared_engine e)) (map snd vps))
         (chosen (start backend) (wait backend) (eligible_packets (engine_config (shared_engine e)) (map snd vps)))))"
    using eff b by (auto simp: f finish_call_def Let_def batch_failed_def chosen_def compute_cpu entropy_alerts_def split: option.split)
  then show "(shared_engine f, sink f) = (let r = analyze_batch backend h vps (shared_engine e) in (fst r, sink e + mset (snd r)))"
    by (simp add: analyze_batch_eq Let_def)
  have "engine_step h e ?b" using assms(1,2) by (rule engine_step.begin_analysis)
  moreover have "engine_step h ?g f"
    unfolding f by (rule engine_step.end_analysis) (use eff b in simp_all)
  ultimately show "engine_reachable h e f" using eff by (blast intro: engine_trans engine_runs)
qed

end
