(* ===== verification/Whole_System.thy ===== *)
theory Whole_System
  imports Pipeline_Progress Concurrent_Engine
begin

text \<open>
  The running program as a whole: the pipeline of capture thread, queue and workers with the engine
  its workers share. A worker that took a batch analyses it packet by packet while the other
  threads go on. Every execution of the whole projects to an execution of the pipeline and to one
  of the engine, so what was shown of each holds here; together they determine the alerts.
\<close>

section \<open>Steps of the whole\<close>

record 'w system =
  pipe :: "QueuedPacket pipeline"
  eng :: "'w engine_sys"

definition system_start :: "AnalysisConfig \<Rightarrow> size_t \<Rightarrow> size_t \<Rightarrow> QueuedPacket list \<Rightarrow> 'w system" where
  "system_start cfg cap k packets = \<lparr>pipe = pipeline_start cap k packets, eng = engine_start cfg (pool_size k)\<rparr>"

text \<open>
  The analysis callback of worker \<open>i\<close> begins, inspects a packet, or returns; returning is the step
  \<open>do_analyse\<close> of the pipeline. All other steps of the pipeline are taken as they are. A sweep meets
  the entries of a table in some order.
\<close>

inductive system_step :: "size_t \<Rightarrow> int \<Rightarrow> (u32 \<Rightarrow> u64) \<Rightarrow> 'w system \<Rightarrow> 'w system \<Rightarrow> bool" for n l h where
  sys_pipe: "pipeline_step n l (pipe s) p \<Longrightarrow> analysed p = analysed (pipe s) \<Longrightarrow>
     system_step n l h s (s\<lparr>pipe := p\<rparr>)"
| sys_begin: "i < length (workers (pipe s)) \<Longrightarrow> workers (pipe s) ! i = WGot b \<Longrightarrow> b \<noteq> [] \<Longrightarrow> calls (eng s) ! i = None \<Longrightarrow>
     system_step n l h s (s\<lparr>eng := begin_call i backend b (eng s)\<rparr>)"
| sys_inspect: "i < length (calls (eng s)) \<Longrightarrow> calls (eng s) ! i = Some c \<Longrightarrow> call_rest c = p # rest \<Longrightarrow> reorders visit \<Longrightarrow>
     system_step n l h s (s\<lparr>eng := inspect_next h i visit c p rest (eng s)\<rparr>)"
| sys_finish: "i < length (calls (eng s)) \<Longrightarrow> calls (eng s) ! i = Some c \<Longrightarrow> call_rest c = [] \<Longrightarrow>
     workers (pipe s) ! i = WGot b \<Longrightarrow>
     system_step n l h s (s\<lparr>pipe := do_analyse b i (pipe s), eng := finish_call i c (eng s)\<rparr>)"

abbreviation system_reachable :: "size_t \<Rightarrow> int \<Rightarrow> (u32 \<Rightarrow> u64) \<Rightarrow> 'w system \<Rightarrow> 'w system \<Rightarrow> bool" where
  "system_reachable n l h \<equiv> reaches (system_step n l h)"

lemmas system_runs = reaches.intros [where next_step = "system_step n l h"] reaches_once [where next_step = "system_step n l h"] for n l h
lemmas system_trans = reaches_trans [where next_step = "system_step n l h"] for n l h

section \<open>How the two parts move together\<close>

definition active :: "'w call option \<Rightarrow> QueuedPacket list multiset" where
  "active slot = (case slot of None \<Rightarrow> {#} | Some c \<Rightarrow> {#call_batch c#})"

definition coupled :: "'w system \<Rightarrow> bool" where
  "coupled s \<longleftrightarrow> length (calls (eng s)) = length (workers (pipe s)) \<and>
     (\<forall>i < length (calls (eng s)). \<forall>c. calls (eng s) ! i = Some c \<longrightarrow>
        workers (pipe s) ! i = WGot (call_batch c) \<and> call_batch c \<noteq> []) \<and>
     list_all (\<lambda>vp. reorders (fst vp)) (observed (eng s)) \<and>
     mset (map snd (begun (eng s))) = mset (analysed (pipe s)) + sum_list (map active (calls (eng s)))"

lemma pipe_step_keeps_got:
  assumes "pipeline_step n l p q" "analysed q = analysed p" "i < length (workers p)" "workers p ! i = WGot b" "b \<noteq> []"
  shows "workers q ! i = WGot b"
  using assms
  by (cases rule: pipeline_step.cases) (auto simp: pipeline_defs Let_def nth_list_update split: prod.splits)

lemma coupled_pipe:
  "coupled s \<Longrightarrow> pipeline_step n l (pipe s) p \<Longrightarrow> analysed p = analysed (pipe s) \<Longrightarrow> coupled (s\<lparr>pipe := p\<rparr>)"
  using pipe_step_keeps_got [of n l "pipe s" p] step_capacity [of n l "pipe s" p] by (auto simp: coupled_def)

lemma coupled_begin:
  assumes "coupled s" "i < length (workers (pipe s))" "workers (pipe s) ! i = WGot b" "b \<noteq> []" "calls (eng s) ! i = None"
  shows "coupled (s\<lparr>eng := begin_call i backend b (eng s)\<rparr>)"
proof -
  have "sum_list (map active (calls (begin_call i backend b (eng s)))) = sum_list (map active (calls (eng s))) + {#b#}"
    using sum_list_map_update [of i "calls (eng s)" active] assms(1,2,5)
    by (simp add: coupled_def begin_call_def Let_def active_def)
  then show ?thesis
    using assms by (auto simp: coupled_def begin_call_def Let_def nth_list_update)
qed

lemma coupled_inspect:
  assumes "coupled s" "i < length (calls (eng s))" "calls (eng s) ! i = Some c" "reorders visit"
  shows "coupled (s\<lparr>eng := inspect_next h i visit c p rest (eng s)\<rparr>)"
proof -
  have "sum_list (map active ((calls (eng s))[i := Some (c\<lparr>call_rest := rest\<rparr>)])) = sum_list (map active (calls (eng s)))"
    using sum_list_map_update [OF assms(2), of active "Some (c\<lparr>call_rest := rest\<rparr>)"] assms(3)
    by (simp add: active_def)
  then show ?thesis
    using assms by (auto simp: coupled_def inspect_next_def split_beta nth_list_update)
qed

lemma coupled_finish:
  assumes "coupled s" "i < length (calls (eng s))" "calls (eng s) ! i = Some c" "workers (pipe s) ! i = WGot b"
  shows "coupled (s\<lparr>pipe := do_analyse b i (pipe s), eng := finish_call i c (eng s)\<rparr>)"
proof -
  have b: "b = call_batch c" using assms by (auto simp: coupled_def)
  have "sum_list (map active (calls (eng s))) = sum_list (map active ((calls (eng s))[i := None])) + {#b#}"
    using sum_list_map_update [OF assms(2), of active None] assms(3) by (simp add: active_def b)
  moreover have "calls (finish_call i c (eng s)) = (calls (eng s))[i := None]"
    "begun (finish_call i c (eng s)) = begun (eng s)" "observed (finish_call i c (eng s)) = observed (eng s)"
    by (simp_all add: finish_call_def Let_def)
  ultimately show ?thesis
    using assms(1,2) by (auto simp: coupled_def do_analyse_def set_worker_def nth_list_update split: if_splits)
qed

lemma step_coupled: "system_step n l h s t \<Longrightarrow> coupled s \<Longrightarrow> coupled t"
  by (cases rule: system_step.cases) (auto intro: coupled_pipe coupled_begin coupled_inspect coupled_finish)

lemma start_coupled: "coupled (system_start cfg cap k packets)"
  by (simp add: coupled_def system_start_def engine_start_def pipeline_start_def active_def)

text \<open>Both projections of an execution are executions.\<close>

lemma system_projects:
  assumes "system_reachable n l h (system_start cfg cap k packets) s"
  shows "coupled s \<and> pipeline_reachable n l (pipeline_start cap k packets) (pipe s) \<and>
    engine_reachable h (engine_start cfg (pool_size k)) (eng s)"
  using assms
proof (induction rule: reaches.induct)
  case start
  then show ?case using start_coupled [of cfg cap k packets]
    by (simp add: system_start_def pipeline_runs(1) engine_runs(1))
next
  case (step s t)
  note IH = step(3)
  have "coupled t" using step_coupled step by blast
  with step(2) IH show ?case
  proof (cases rule: system_step.cases)
    case (sys_pipe p)
    then show ?thesis using IH \<open>coupled t\<close> by (auto intro: pipeline_runs engine_runs)
  next
    case (sys_begin i b backend)
    then have "engine_step h (eng s) (eng t)" using IH by (auto simp: coupled_def intro: engine_step.begin_analysis)
    then show ?thesis using IH \<open>coupled t\<close> sys_begin by (auto intro: pipeline_runs engine_runs)
  next
    case (sys_inspect i c p rest visit)
    then have "engine_step h (eng s) (eng t)" by (auto intro: engine_step.inspect_packet)
    then show ?thesis using IH \<open>coupled t\<close> sys_inspect by (auto intro: pipeline_runs engine_runs)
  next
    case (sys_finish i c b)
    then have e: "engine_step h (eng s) (eng t)" by (auto intro: engine_step.end_analysis)
    have "pipeline_step n l (pipe s) (pipe t)"
      using sys_finish IH by (auto simp: coupled_def intro: pipeline_step.worker_analyse)
    then show ?thesis using IH e \<open>coupled t\<close> by (auto intro: pipeline_runs engine_runs)
  qed
qed

section \<open>Every execution can be completed\<close>

lemma inspect_to_end:
  assumes "coupled s" "i < length (calls (eng s))" "calls (eng s) ! i = Some c"
  shows "\<exists>t c'. system_reachable n l h s t \<and> coupled t \<and> pipe t = pipe s \<and> i < length (calls (eng t)) \<and>
    calls (eng t) ! i = Some c' \<and> call_rest c' = [] \<and> begun (eng t) = begun (eng s)"
  using assms
proof (induction "call_rest c" arbitrary: s c)
  case Nil
  then show ?case by (auto intro: system_runs)
next
  case (Cons p rest)
  let ?t = "s\<lparr>eng := inspect_next h i rev c p rest (eng s)\<rparr>" and ?c = "c\<lparr>call_rest := rest\<rparr>"
  have step: "system_step n l h s ?t"
    using Cons.prems Cons.hyps(2) by (intro system_step.sys_inspect) (auto simp: reorders_rev)
  have t: "coupled ?t" "i < length (calls (eng ?t))" "calls (eng ?t) ! i = Some ?c" "rest = call_rest ?c"
    using step_coupled [OF step Cons.prems(1)] Cons.prems by (simp_all add: inspect_next_def split_beta)
  from Cons.hyps(1) [OF t(4,1,2,3)] obtain u c' where "system_reachable n l h ?t u" "coupled u" "pipe u = pipe ?t"
    "i < length (calls (eng u))" "calls (eng u) ! i = Some c'" "call_rest c' = []" "begun (eng u) = begun (eng ?t)" by blast
  moreover have "begun (eng ?t) = begun (eng s)" by (simp add: inspect_next_def split_beta)
  moreover have "system_reachable n l h s ?t" using step by (blast intro: system_runs)
  ultimately show ?case by (auto intro: system_trans)
qed

text \<open>A step of the pipeline is matched by steps of the whole, with any backend for the calls that begin.\<close>

definition begun_with :: "'w EntropyBackend \<Rightarrow> 'w system \<Rightarrow> 'w system \<Rightarrow> bool" where
  "begun_with backend s t \<longleftrightarrow> (\<forall>bb \<in> set (begun (eng t)). bb \<in> set (begun (eng s)) \<or> fst bb = backend)"

lemma lift_step:
  fixes backend :: "'w EntropyBackend"
  assumes "coupled s" "pipeline_step n l (pipe s) p"
  shows "\<exists>t. system_reachable n l h s t \<and> coupled t \<and> pipe t = p \<and> begun_with backend s t"
proof (cases "analysed p = analysed (pipe s)")
  case True
  have step: "system_step n l h s (s\<lparr>pipe := p\<rparr>)" using assms(2) True by (rule system_step.sys_pipe)
  then show ?thesis using step_coupled [OF step assms(1)]
    by (intro exI [of _ "s\<lparr>pipe := p\<rparr>"]) (auto simp: begun_with_def intro: system_runs)
next
  case False
  with assms(2) obtain i b where i: "i < length (workers (pipe s))" "workers (pipe s) ! i = WGot b" "b \<noteq> []"
    and p: "p = do_analyse b i (pipe s)"
    by (cases rule: pipeline_step.cases) (auto simp: pipeline_defs Let_def split: prod.splits)
  have ic: "i < length (calls (eng s))" using assms(1) i by (simp add: coupled_def)
  obtain s1 c where s1: "system_reachable n l h s s1" "coupled s1" "pipe s1 = pipe s" "i < length (calls (eng s1))"
    "calls (eng s1) ! i = Some c" "begun_with backend s s1"
  proof (cases "calls (eng s) ! i")
    case None
    let ?s1 = "s\<lparr>eng := begin_call i backend b (eng s)\<rparr>"
    have step: "system_step n l h s ?s1" using i None by (intro system_step.sys_begin)
    show ?thesis
      by (rule that [of ?s1]) (use step step_coupled [OF step assms(1)] ic in
        \<open>auto simp: begin_call_def Let_def begun_with_def intro: system_runs\<close>)
  next
    case (Some c)
    then show ?thesis using that [of s c] assms(1) ic by (auto simp: begun_with_def intro: system_runs)
  qed
  from inspect_to_end [OF s1(2,4,5), of n l h] obtain s2 c2 where s2: "system_reachable n l h s1 s2" "coupled s2"
    "pipe s2 = pipe s1" "i < length (calls (eng s2))" "calls (eng s2) ! i = Some c2" "call_rest c2 = []"
    "begun (eng s2) = begun (eng s1)" by blast
  let ?t = "s2\<lparr>pipe := do_analyse b i (pipe s2), eng := finish_call i c2 (eng s2)\<rparr>"
  have step: "system_step n l h s2 ?t" using s2 s1(3) i by (intro system_step.sys_finish) auto
  have "system_reachable n l h s ?t"
    using s1(1) s2(1) step by (blast intro: system_trans system_runs)
  moreover have "begun (eng ?t) = begun (eng s1)" using s2(7) by (simp add: finish_call_def Let_def)
  ultimately show ?thesis
    using step_coupled [OF step s2(2)] s2(3) s1(3,6) p by (intro exI [of _ ?t]) (simp add: begun_with_def)
qed

lemma lift_reachable:
  fixes backend :: "'w EntropyBackend"
  assumes "pipeline_reachable n l (pipe s) p" "coupled s"
  shows "\<exists>t. system_reachable n l h s t \<and> coupled t \<and> pipe t = p \<and> begun_with backend s t"
  using assms
proof (induction rule: reaches.induct)
  case start
  then show ?case by (auto simp: begun_with_def intro: system_runs)
next
  case (step q r)
  then obtain t where t: "system_reachable n l h s t" "coupled t" "pipe t = q" "begun_with backend s t" by blast
  from lift_step [OF t(2), of n l r h backend] step.hyps(2) t(3) obtain u where
    "system_reachable n l h t u" "coupled u" "pipe u = r" "begun_with backend t u" by blast
  then show ?case using t by (intro exI [of _ u]) (auto simp: begun_with_def intro: system_trans)
qed

section \<open>The alerts of a finished run\<close>

definition flagged :: "AnalysisConfig \<Rightarrow> SignatureDatabase \<Rightarrow> AnomalyType \<Rightarrow> QueuedPacket \<Rightarrow> bool" where
  "flagged cfg db ty p = (case ty of
     kSignatureMatch \<Rightarrow> payload_size p > 0 \<and> matches db (qpayload p)
   | kHighEntropyPayload \<Rightarrow> payload_size p \<ge> entropy_min_payload_bytes cfg \<and>
       dbl_ge (Num (shannon_entropy (qpayload p))) (entropy_threshold cfg)
   | _ \<Rightarrow> False)"

lemma count_flagged:
  assumes "ty = kSignatureMatch \<or> ty = kHighEntropyPayload"
  shows "size {#a \<in># batch_alerts cfg db ps. atype a = ty#} = length (filter (flagged cfg db ty) ps)"
  using assms
  by (induction ps)
    (auto simp: batch_alerts_def payload_alerts_def signature_alerts_def alert_for_def flagged_def)

lemma observe_types:
  assumes "a \<in> set (snd (observe visit h ft p))"
  shows "atype a = kPortScan \<or> atype a = kSynFlood"
proof (cases "has_ip (meta p)")
  case True
  then obtain st where "a \<in> set (snd (observe_ip (config ft) (meta p) st))"
    using assms by (auto simp: observe_ip_case Let_def observe_shard_cases)
  then show ?thesis
    by (auto simp: observe_ip_def port_scan_rule_def syn_flood_rule_def Let_def split: prod.splits if_splits)
qed (use assms in \<open>simp add: observe_no_ip\<close>)

lemma observe_all_types:
  "a \<in> set (concat (snd (observe_all h run ft))) \<Longrightarrow> atype a = kPortScan \<or> atype a = kSynFlood"
  by (induction run arbitrary: ft)
    (auto simp: observe_all_Cons Let_def dest: observe_types simp del: observe_all.simps(2))

lemma flow_alerts_other_types:
  assumes "ty = kSignatureMatch \<or> ty = kHighEntropyPayload"
  shows "{#a \<in># mset (concat (snd (observe_all h run ft))). atype a = ty#} = {#}"
  using assms observe_all_types [of _ h run ft]
  by (simp flip: mset_filter add: filter_empty_conv del: set_concat) (metis AnomalyType.distinct)

lemma finished_idle:
  assumes "coupled s" "pipeline_inv cap packets n (pipe s)" "main_pc (pipe s) = MDone"
  shows "all_idle (eng s)" "mset (concat (map snd (begun (eng s)))) = mset packets"
proof -
  have w: "\<forall>w \<in> set (workers (pipe s)). w = WExit"
    using assms(2,3) by (simp add: pipeline_inv_def inv_exit_def)
  have "calls (eng s) ! i = None" if i: "i < length (calls (eng s))" for i
  proof (cases "calls (eng s) ! i")
    case (Some c)
    then have "workers (pipe s) ! i = WGot (call_batch c)" using assms(1) i by (auto simp: coupled_def)
    then show ?thesis using w i assms(1) by (metis coupled_def nth_mem worker_pc.distinct(29))
  qed simp
  then show idle: "all_idle (eng s)" by (simp add: all_idle_def list_all_length)
  have "mset (map snd (begun (eng s))) = mset (analysed (pipe s))"
    using assms(1) idle_sum [OF idle, of active] by (simp add: coupled_def active_def)
  then have "mset (concat (map snd (begun (eng s)))) = mset (concat (analysed (pipe s)))"
    by (metis mset_concat mset_map sum_mset_sum_list)
  then show "mset (concat (map snd (begun (eng s)))) = mset packets"
    using done_state(1) [OF assms(2,3)] by simp
qed

section \<open>One worker keeps the order\<close>

lemma single_worker_popped:
  assumes "pipeline_reachable n l (pipeline_start cap k packets) s" "pool_size k = 1"
  shows "length (workers s) = 1 \<and> popped s = concat (analysed s) @ hand (hd (workers s))"
  using assms
proof (induction rule: reaches.induct)
  case (step s t)
  then obtain w where "workers s = [w]" by (metis One_nat_def length_0_conv length_Suc_conv)
  with step.hyps(2) step.IH [OF step.prems] show ?case
    by (cases rule: pipeline_step.cases) (auto simp: pipeline_defs Let_def split: prod.splits)
qed (simp add: pipeline_start_def)

lemma single_worker_begun:
  assumes "system_reachable n l h (system_start cfg cap k packets) s" "pool_size k = 1"
  shows "map snd (begun (eng s)) = analysed (pipe s) @ (case hd (calls (eng s)) of None \<Rightarrow> [] | Some c \<Rightarrow> [call_batch c])"
  using assms
proof (induction rule: reaches.induct)
  case (step s t)
  note proj = system_projects [OF step(1)]
  have one: "length (workers (pipe s)) = 1" using single_worker_popped proj step.prems by blast
  then have len: "length (calls (eng s)) = 1" using proj by (simp add: coupled_def)
  then obtain slot where slot: "calls (eng s) = [slot]" by (metis One_nat_def length_0_conv length_Suc_conv)
  have cpl: "slot = Some c \<Longrightarrow> workers (pipe s) ! 0 = WGot (call_batch c)" for c
    using proj by (auto simp: coupled_def slot)
  show ?case using step(2) step.IH [OF step.prems] slot len one cpl
    by (cases rule: system_step.cases)
      (auto simp: begin_call_def inspect_next_def finish_call_def do_analyse_def set_worker_def Let_def split_beta)
qed (simp add: system_start_def engine_start_def pipeline_start_def)

section \<open>What the program reports\<close>

lemma whole_run_alerts:
  assumes "system_reachable n l h (system_start cfg cap k packets) s" "0 < n" "main_pc (pipe s) = MDone"
    and "\<forall>bb \<in> set (begun (eng s)). trusted cfg bb"
  shows "sink (eng s) = batch_alerts cfg new_SignatureDatabase packets +
      mset (concat (snd (observe_all h (observed (eng s)) (new_FlowTracker (flow cfg)))))"
    and "mset (map snd (observed (eng s))) = mset packets"
proof -
  note proj = system_projects [OF assms(1)]
  note inv = start_reachable_inv [OF proj [THEN conjunct2, THEN conjunct1] assms(2)]
  note fin = finished_idle [OF proj [THEN conjunct1] inv assms(3)]
  note alerts = idle_alerts [OF proj [THEN conjunct2, THEN conjunct2] fin(1) assms(4)]
  have "batch_alerts cfg new_SignatureDatabase (concat (map snd (begun (eng s)))) = batch_alerts cfg new_SignatureDatabase packets"
    using fin(2) by (metis (no_types) batch_alerts_def mset_concat mset_map sum_mset_sum_list)
  then show "sink (eng s) = batch_alerts cfg new_SignatureDatabase packets +
      mset (concat (snd (observe_all h (observed (eng s)) (new_FlowTracker (flow cfg)))))"
    and "mset (map snd (observed (eng s))) = mset packets"
    using alerts fin(2) by simp_all
qed



text \<open>
  The program never gets stuck: from every state it can reach, some schedule leads to the end,
  with every batch analysed, whatever the packets and the parameters.
\<close>

theorem system_can_finish:
  assumes "system_reachable n l h (system_start cfg cap k packets) s" "0 < n" "0 < cap"
  shows "\<exists>t. system_reachable n l h s t \<and> main_pc (pipe t) = MDone \<and> all_idle (eng t)"
proof -
  note proj = system_projects [OF assms(1)]
  note inv = start_reachable_inv [OF proj [THEN conjunct2, THEN conjunct1] assms(2)]
  obtain p where p: "pipeline_reachable n l (pipe s) p" "main_pc p = MDone" using can_finish [OF inv assms(2,3)] by blast
  from lift_reachable [OF p(1), of h undefined] proj obtain t where
    t: "system_reachable n l h s t" "coupled t" "pipe t = p" by blast
  have "pipeline_inv cap packets n (pipe t)" using reachable_inv [OF p(1) inv assms(2)] t(3) by simp
  then show ?thesis using t p(2) finished_idle(1) [OF t(2)] by blast
qed

section \<open>Finished runs exist\<close>

lemma finished_run:
  assumes "0 < n" "0 < cap"
  obtains s :: "ReadyEntropy system" where "system_reachable n l h (system_start cfg cap k packets) s" "main_pc (pipe s) = MDone"
    "\<forall>bb \<in> set (begun (eng s)). trusted cfg bb"
proof -
  let ?s0 = "system_start cfg cap k packets :: ReadyEntropy system"
  obtain p where p: "pipeline_reachable n l (pipe ?s0) p" "main_pc p = MDone"
    using can_finish [OF start_inv [of cap packets n k] assms] by (auto simp: system_start_def)
  from lift_reachable [OF p(1) start_coupled, of h CpuEntropyBackend] obtain t where
    t: "system_reachable n l h ?s0 t" "pipe t = p" "begun_with CpuEntropyBackend ?s0 t" by blast
  have "\<forall>bb \<in> set (begun (eng t)). trusted cfg bb"
    using t(3) by (auto simp: begun_with_def system_start_def engine_start_def trusted_def cpu.chosen_exact)
  then show ?thesis using that t p(2) by blast
qed



theorem system_can_finish_witness:
  "\<exists>t :: ReadyEntropy system. system_reachable 2 5 (\<lambda>_. 0)
     (system_start default_analysis_config 1 0 (map snd burst_run)) t \<and> main_pc (pipe t) = MDone"
  using system_can_finish [OF reaches.start, of 2 1 5 "\<lambda>_. 0" default_analysis_config 0 "map snd burst_run"]
  by auto

end
