(* ===== verification/Gpu_Kernel.thy ===== *)
theory Gpu_Kernel
  imports Entropy
begin

text \<open>
  The compute kernel \<open>shaders/payload_entropy.metal\<close>: one threadgroup per payload, whose threads
  share a histogram and a table of partial sums. Between two barriers the threads run in any order;
  the only shared writes there are atomic increments, so the model takes the order of the
  increments as an argument. Floats are real numbers. Loop counters are natural numbers: a payload
  length is far below \<open>2 ^ 32 - 256\<close>, so the \<open>uint\<close> counters of the shader do not wrap.
\<close>

section \<open>The kernel\<close>

text \<open>The values a counter takes in \<open>for (i = first; i < limit; i += step)\<close>.\<close>

function strided :: "nat \<Rightarrow> nat \<Rightarrow> nat \<Rightarrow> nat list" where
  "strided i step limit = (if i < limit \<and> 0 < step then i # strided (i + step) step limit else [])"
  by pat_completeness auto
termination
  by (relation "measure (\<lambda>(i, step, limit). limit - i)") auto

declare strided.simps [simp del]

text \<open>
  An access outside the data buffer is an error. \<open>increments\<close> lists the positions \<open>i\<close> of the
  payload in the order in which their atomic increments take effect.
\<close>

fun count_payload :: "u8 list \<Rightarrow> u32 \<Rightarrow> nat list \<Rightarrow> u32 list \<Rightarrow> mem_error + u32 list" where
  "count_payload data offset [] histogram = Inr histogram"
| "count_payload data offset (i # increments) histogram =
     (let k = unat (offset + of_nat i) in
      if k < length data
      then count_payload data offset increments
             (histogram[unat (data ! k) := histogram ! unat (data ! k) + 1])
      else Inl OutOfBounds)"

definition bin_share :: "u32 list \<Rightarrow> nat \<Rightarrow> nat \<Rightarrow> real" where
  "bin_share histogram n bin =
     (let c = histogram ! bin in
      if unat c > 0 then let p = real (unat c) / real n in p * log 2 p else 0)"

definition thread_sum :: "u32 list \<Rightarrow> nat \<Rightarrow> nat \<Rightarrow> nat \<Rightarrow> real" where
  "thread_sum histogram n threads tid =
     (if n > 0 then foldl (\<lambda>sum bin. sum - bin_share histogram n bin) 0 (strided tid threads 256) else 0)"

text \<open>One round of the reduction: threads below \<open>stride\<close> read an entry no thread writes.\<close>

definition reduce_step :: "nat \<Rightarrow> real list \<Rightarrow> real list" where
  "reduce_step stride partial =
     map (\<lambda>tid. if tid < stride then partial ! tid + partial ! (tid + stride) else partial ! tid)
       [0..<length partial]"

function reduce :: "nat \<Rightarrow> real list \<Rightarrow> real list" where
  "reduce stride partial = (if stride > 0 then reduce (stride div 2) (reduce_step stride partial) else partial)"
  by pat_completeness auto
termination
  by (relation "measure fst") auto

declare reduce.simps [simp del]

text \<open>The first loop: threadgroup memory starts with arbitrary contents, and every bin is cleared.\<close>

definition zero_bins :: "nat \<Rightarrow> u32 list \<Rightarrow> u32 list" where
  "zero_bins threads histogram =
     foldl (\<lambda>h bin. h[bin := 0]) histogram (concat (map (\<lambda>tid. strided tid threads 256) [0..<threads]))"

definition payload_entropy :: "u32 list \<Rightarrow> u8 list \<Rightarrow> u32 list \<Rightarrow> u32 list \<Rightarrow> nat \<Rightarrow> nat \<Rightarrow> nat list
    \<Rightarrow> mem_error + real" where
  "payload_entropy memory data offsets lengths g threads increments =
     (let n = unat (lengths ! g) in
      and_then (count_payload data (offsets ! g) increments (zero_bins threads memory)) (\<lambda>histogram.
        let partial = map (thread_sum histogram n threads) [0..<threads]
        in Inr (reduce (threads div 2) partial ! 0)))"

text \<open>The increments all threads of a group make, in some order.\<close>

definition schedule_of :: "nat \<Rightarrow> nat \<Rightarrow> nat list \<Rightarrow> bool" where
  "schedule_of threads n increments \<longleftrightarrow>
     mset increments = mset (concat (map (\<lambda>tid. strided tid threads n) [0..<threads]))"

section \<open>Strided loops share out a range\<close>

lemma strided_filter: "i mod step = tid mod step \<Longrightarrow> 0 < step \<Longrightarrow>
    strided i step limit = filter (\<lambda>j. j mod step = tid mod step) [i..<limit]"
proof (induction i step limit rule: strided.induct)
  case (1 i step limit)
  show ?case
  proof (cases "i < limit")
    case True
    have gap: "filter (\<lambda>j. j mod step = tid mod step) [Suc i..<min limit (i + step)] = []"
    proof -
      have "j mod step \<noteq> tid mod step" if "Suc i \<le> j" "j < i + step" for j
      proof
        assume "j mod step = tid mod step"
        then have "step dvd j - i" using 1(2) that by (metis Suc_leD mod_eq_dvd_iff_nat)
        then show False using that by (auto dest: dvd_imp_le)
      qed
      then show ?thesis by (auto simp: filter_empty_conv)
    qed
    have "[Suc i..<limit] = [Suc i..<min limit (i + step)] @ [i + step..<limit]"
    proof (cases "i + step \<le> limit")
      case True
      then show ?thesis
        using upt_add_eq_append [of "Suc i" "i + step" "limit - (i + step)"] 1(3) by (simp add: min_def)
    qed (simp add: min_def)
    then have "[i..<limit] = i # [Suc i..<min limit (i + step)] @ [i + step..<limit]"
      using True by (simp add: upt_conv_Cons)
    then show ?thesis
      using 1 True gap by (simp add: strided.simps [of i])
  qed (simp add: strided.simps)
qed

lemma strided_thread: "tid < step \<Longrightarrow> strided tid step limit = filter (\<lambda>j. j mod step = tid) [0..<limit]"
proof -
  assume tid: "tid < step"
  have "filter (\<lambda>j. j mod step = tid) [0..<limit] = filter (\<lambda>j. j mod step = tid) [tid..<limit]"
  proof (cases "tid \<le> limit")
    case True
    then have "[0..<limit] = [0..<tid] @ [tid..<limit]" by (metis le0 le_add_diff_inverse upt_add_eq_append)
    moreover have "filter (\<lambda>j. j mod step = tid) [0..<tid] = []" using tid by (auto simp: filter_empty_conv)
    ultimately show ?thesis by simp
  next
    case False
    then show ?thesis using tid by (auto simp: filter_empty_conv)
  qed
  then show ?thesis using strided_filter [of tid step tid limit] tid by simp
qed

lemma mset_concat_filter:
  "\<forall>x \<in> set xs. f x < n \<Longrightarrow> mset (concat (map (\<lambda>t. filter (\<lambda>x. f x = t) xs) [0..<n])) = mset xs"
proof (induction xs)
  case Nil
  then show ?case by (induction n) auto
next
  case (Cons x xs)
  have "mset (concat (map (\<lambda>t. filter (\<lambda>y. f y = t) (x # xs)) [0..<m])) =
      mset (concat (map (\<lambda>t. filter (\<lambda>y. f y = t) xs) [0..<m])) + (if f x < m then {#x#} else {#})" for m
    by (induction m) (auto simp: less_Suc_eq)
  then show ?case using Cons by simp
qed

lemma strided_partition:
  "0 < threads \<Longrightarrow> mset (concat (map (\<lambda>tid. strided tid threads n) [0..<threads])) = mset [0..<n]"
proof -
  assume "0 < threads"
  have "map (\<lambda>tid. strided tid threads n) [0..<threads]
      = map (\<lambda>tid. filter (\<lambda>j. j mod threads = tid) [0..<n]) [0..<threads]"
    by (intro map_cong) (simp_all add: strided_thread)
  then show ?thesis
    using mset_concat_filter [of "[0..<n]" "\<lambda>j. j mod threads" threads] \<open>0 < threads\<close> by (simp only:) simp
qed

section \<open>The reduction sums the table\<close>

lemma length_reduce_step [simp]: "length (reduce_step s p) = length p"
  by (simp add: reduce_step_def)

lemma sum_list_take: "k \<le> length p \<Longrightarrow> sum_list (take k p) = (\<Sum>i<k. p ! i)" for p :: "real list"
  by (simp add: sum_list_sum_nth atLeast0LessThan)

lemma reduce_sum:
  "2 ^ k \<le> length p \<Longrightarrow> reduce (2 ^ k div 2) p ! 0 = (\<Sum>i<2 ^ k. p ! i)"
proof (induction k arbitrary: p)
  case 0
  then show ?case by (simp add: reduce.simps)
next
  case (Suc k)
  let ?s = "2 ^ k :: nat"
  have len: "?s + ?s \<le> length p" using Suc.prems by simp
  have "reduce (2 ^ Suc k div 2) p ! 0 = reduce (?s div 2) (reduce_step ?s p) ! 0"
    by (simp add: reduce.simps [of ?s])
  also have "\<dots> = (\<Sum>i<?s. reduce_step ?s p ! i)" using len by (intro Suc.IH) simp
  also have "\<dots> = (\<Sum>i<?s. p ! i + p ! (i + ?s))"
    using len by (intro sum.cong) (auto simp: reduce_step_def)
  also have "\<dots> = (\<Sum>i<?s. p ! i) + (\<Sum>i \<in> {?s..<?s + ?s}. p ! i)"
    using sum.shift_bounds_nat_ivl [of "(!) p" 0 ?s ?s] by (simp add: sum.distrib atLeast0LessThan)
  also have "\<dots> = (\<Sum>i<2 ^ Suc k. p ! i)"
    using sum.atLeastLessThan_concat [of 0 ?s "?s + ?s" "(!) p"] by (simp add: atLeast0LessThan mult_2)
  finally show ?case .
qed

section \<open>The kernel computes the entropy\<close>

lemma foldl_clear: "foldl (\<lambda>h bin. h[bin := 0 :: u32]) h bins ! i = (if i \<in> set bins then 0 else h ! i)"
  if "i < length h"
  using that by (induction bins arbitrary: h) (auto simp: nth_list_update)

lemma length_foldl_clear: "length (foldl (\<lambda>h bin. h[bin := 0 :: u32]) h bins) = length h"
  by (induction bins arbitrary: h) auto

lemma zero_bins_all: "0 < threads \<Longrightarrow> length memory = 256 \<Longrightarrow> zero_bins threads memory = replicate 256 0"
proof -
  assume "0 < threads" "length memory = 256"
  moreover have "set (concat (map (\<lambda>tid. strided tid threads 256) [0..<threads])) = {0..<256}"
    using mset_eq_setD [OF strided_partition [OF \<open>0 < threads\<close>, of 256]] by simp
  ultimately show ?thesis
    by (intro nth_equalityI) (simp_all add: zero_bins_def length_foldl_clear foldl_clear del: set_concat)
qed

lemma count_payload_bytes:
  assumes "\<forall>i \<in> set is. unat (offset + of_nat i) < length data"
  shows "count_payload data offset is h = Inr (count_bytes h (map (\<lambda>i. data ! unat (offset + of_nat i)) is))"
  using assms by (induction "is" arbitrary: h) (simp_all add: Let_def)

lemma count_bytes_perm:
  assumes "length h = 256" "mset xs = mset ys"
  shows "count_bytes h xs = count_bytes h ys"
proof (rule nth_equalityI)
  fix i assume "i < length (count_bytes h xs)"
  then have "i = unat (of_nat i :: u8)" using assms(1) by (simp add: unsigned_of_nat take_bit_nat_eq_self)
  then show "count_bytes h xs ! i = count_bytes h ys ! i"
    using count_bytes_nth [OF assms(1)] assms(2) by (metis count_list_mset)
qed simp

lemma thread_sum_sum_list:
  "0 < n \<Longrightarrow> thread_sum h n threads tid =
     sum_list (map (\<lambda>bin. self_information (real (unat (h ! bin)) / real n)) (strided tid threads 256))"
proof -
  assume "0 < n"
  then have bin: "- bin_share h n b = self_information (real (unat (h ! b)) / real n)" for b
    by (simp add: bin_share_def self_information_def Let_def unat_eq_zero word_gt_0 del: of_nat_unat)
  have "foldl (\<lambda>sum bin. sum - bin_share h n bin) s bins = s + sum_list (map (\<lambda>b. - bin_share h n b) bins)" for s bins
    by (induction bins arbitrary: s) simp_all
  then show ?thesis using \<open>0 < n\<close> unfolding bin by (simp add: thread_sum_def)
qed

lemma sum_list_concat_map: "sum_list (concat xss) = sum_list (map sum_list xss)" for xss :: "real list list"
  by (induction xss) simp_all

lemma sum_list_perm: "mset xs = mset ys \<Longrightarrow> sum_list (map f xs) = sum_list (map f ys)" for f :: "'a \<Rightarrow> real"
proof -
  assume "mset xs = mset ys"
  then have "sum_mset (mset (map f xs)) = sum_mset (mset (map f ys))" by simp
  then show ?thesis by (simp only: sum_mset_sum_list)
qed

lemma thread_sums_total:
  assumes "0 < n" "0 < threads" "length h = 256"
  shows "(\<Sum>tid<threads. thread_sum h n threads tid) = sum_bins (real n) 0 h"
proof -
  let ?f = "\<lambda>bin. self_information (real (unat (h ! bin)) / real n)"
  have "(\<Sum>tid<threads. thread_sum h n threads tid)
      = sum_list (map ?f (concat (map (\<lambda>tid. strided tid threads 256) [0..<threads])))"
    using assms(1) by (simp add: thread_sum_sum_list map_concat sum_list_concat_map comp_def
        interv_sum_list_conv_sum_set_nat atLeast0LessThan)
  also have "\<dots> = sum_list (map ?f [0..<256])"
    using strided_partition [OF assms(2), of 256] by (rule sum_list_perm)
  also have "\<dots> = sum_list (map (\<lambda>c. self_information (real (unat c) / real n)) h)"
    using assms(3) by (intro arg_cong [where f = sum_list] nth_equalityI) simp_all
  finally show ?thesis using assms(1) by (simp add: sum_bins_sum)
qed

text \<open>
  The kernel on the slice of the data buffer that the payload occupies, whatever the threads'
  interleaving and the initial contents of the group's memory.
\<close>

lemma payload_entropy_correct:
  assumes threads: "threads = 2 ^ k" and memory: "length memory = 256"
    and sched: "schedule_of threads (length bytes) increments"
    and lengths: "lengths ! g = of_nat (length bytes)" and offsets: "offsets ! g = of_nat off"
    and fits: "off + length bytes \<le> length data" "off + length bytes < 4294967296"
    and slice: "take (length bytes) (drop off data) = bytes"
  shows "payload_entropy memory data offsets lengths g threads increments = Inr (shannon_entropy bytes)"
proof -
  let ?n = "length bytes" and ?h = "count_bytes (replicate 256 0) bytes"
  have pos: "0 < threads" by (simp add: threads)
  have n: "unat (of_nat ?n :: u32) = ?n" using fits(2) by (simp add: unsigned_of_nat take_bit_nat_eq_self)
  have mset: "mset increments = mset [0..<?n]" using sched pos by (simp add: schedule_of_def strided_partition)
  have index: "unat (of_nat off + of_nat i :: u32) = off + i" if "i < ?n" for i
    using that fits(2) by (simp add: unsigned_of_nat take_bit_nat_eq_self flip: of_nat_add)
  have range: "i < ?n" if "i \<in> set increments" for i using that mset_eq_setD [OF mset] by auto
  have "map (\<lambda>i. data ! unat (of_nat off + of_nat i :: u32)) increments = map ((!) bytes) increments"
  proof (rule map_cong)
    fix i assume "i \<in> set increments"
    then have i: "i < ?n" by (rule range)
    have "bytes ! i = take ?n (drop off data) ! i" by (simp add: slice)
    also have "\<dots> = data ! (off + i)" using i fits(1) by simp
    finally show "data ! unat (of_nat off + of_nat i :: u32) = bytes ! i" by (simp add: index [OF i])
  qed simp
  moreover have "mset (map ((!) bytes) increments) = mset bytes"
    using mset by (metis map_nth mset_map)
  moreover have "\<forall>i \<in> set increments. unat (of_nat off + of_nat i :: u32) < length data"
    using range index fits(1) by fastforce
  ultimately have hist: "count_payload data (offsets ! g) increments (zero_bins threads memory) = Inr ?h"
    using count_bytes_perm [of "replicate 256 0" "map ((!) bytes) increments" bytes]
    by (simp only: offsets zero_bins_all [OF pos memory] count_payload_bytes length_replicate)
  have "reduce (threads div 2) (map (thread_sum ?h ?n threads) [0..<threads]) ! 0
      = (\<Sum>tid<threads. thread_sum ?h ?n threads tid)"
    using reduce_sum [of k "map (thread_sum ?h ?n threads) [0..<threads]"] by (simp add: threads)
  also have "\<dots> = shannon_entropy bytes"
    using thread_sums_total [of ?n threads ?h] pos by (cases "bytes = []")
      (simp_all add: shannon_entropy_def thread_sum_def)
  finally show ?thesis by (simp add: payload_entropy_def hist lengths n Let_def)
qed

end
