(* ===== verification/Gpu_Context.thy ===== *)
theory Gpu_Context
  imports Gpu_Kernel Engine_Correct
begin

text \<open>
  The host side of the GPU backend: \<open>include/netsentinel/gpu/metal_context.hpp\<close>,
  \<open>src/gpu/metal_context.cpp\<close> and \<open>src/gpu/gpu_entropy_backend.cpp\<close>. The Metal device is outside the
  program: its allocations, the thread limit of a pipeline and the completion of a command buffer
  are arguments. Buffers are lists seen through the type the code casts their contents to; a write
  past their end is an error.
\<close>

section \<open>Packed payloads\<close>

record PayloadBatch =
  pb_bytes :: "u8 list"
  pb_offsets :: "u32 list"
  pb_lengths :: "u32 list"

definition new_PayloadBatch :: PayloadBatch where
  "new_PayloadBatch = \<lparr>pb_bytes = [], pb_offsets = [], pb_lengths = []\<rparr>"

definition batch_add :: "u8 list \<Rightarrow> PayloadBatch \<Rightarrow> PayloadBatch" where
  "batch_add data b = b\<lparr>pb_offsets := pb_offsets b @ [of_nat (length (pb_bytes b))],
     pb_lengths := pb_lengths b @ [of_nat (length data)],
     pb_bytes := (if length data > 0 then pb_bytes b @ data else pb_bytes b)\<rparr>"

definition batch_count :: "PayloadBatch \<Rightarrow> size_t" where
  "batch_count b = length (pb_offsets b)"

text \<open>The views \<open>run_payload_entropy\<close> builds; a view past the end of \<open>bytes\<close> is an error.\<close>

fun batch_views :: "u8 list \<Rightarrow> (u32 \<times> u32) list \<Rightarrow> mem_error + u8 list list" where
  "batch_views bytes [] = Inr []"
| "batch_views bytes ((off, len) # rest) =
     and_then (overlay bytes (unat off) (unat len)) (\<lambda>v.
       and_then (batch_views bytes rest) (\<lambda>vs. Inr (v # vs)))"

section \<open>Buffers and their pool\<close>

definition ensure_capacity :: "(size_t \<Rightarrow> 'b option) \<Rightarrow> 'b option \<Rightarrow> size_t \<Rightarrow> size_t
    \<Rightarrow> bool \<times> 'b option \<times> size_t" where
  "ensure_capacity new_buffer buffer cap needed =
     (if buffer \<noteq> None \<and> cap \<ge> needed then (True, buffer, cap)
      else
        let grown = max needed (max (size_mul cap 2) 4096);
            buffer = new_buffer grown
        in (buffer \<noteq> None, buffer, if buffer \<noteq> None then grown else 0))"

record EntropyBufferSet =
  data_buf :: "u8 list option"
  offsets_buf :: "u32 list option"
  lengths_buf :: "u32 list option"
  results_buf :: "real list option"
  data_capacity :: size_t
  offsets_capacity :: size_t
  lengths_capacity :: size_t
  results_capacity :: size_t

definition new_EntropyBufferSet :: EntropyBufferSet where
  "new_EntropyBufferSet = \<lparr>data_buf = None, offsets_buf = None, lengths_buf = None, results_buf = None,
     data_capacity = 0, offsets_capacity = 0, lengths_capacity = 0, results_capacity = 0\<rparr>"

record MetalContext =
  pipelines :: "string list"
  free_buffers :: "EntropyBufferSet list"
  last_error :: string

definition set_error :: "string \<Rightarrow> MetalContext \<Rightarrow> MetalContext" where
  "set_error message ctx = ctx\<lparr>last_error := message\<rparr>"

definition take_buffers :: "MetalContext \<Rightarrow> EntropyBufferSet \<times> MetalContext" where
  "take_buffers ctx =
     (if free_buffers ctx = [] then (new_EntropyBufferSet, ctx)
      else (last (free_buffers ctx), ctx\<lparr>free_buffers := butlast (free_buffers ctx)\<rparr>))"

definition return_buffers :: "EntropyBufferSet \<Rightarrow> MetalContext \<Rightarrow> MetalContext" where
  "return_buffers buffers ctx = ctx\<lparr>free_buffers := free_buffers ctx @ [buffers]\<rparr>"

text \<open>The lookup of a pipeline by name, with the error it leaves behind.\<close>

definition find_pipeline :: "string \<Rightarrow> MetalContext \<Rightarrow> bool \<times> MetalContext" where
  "find_pipeline name ctx =
     (if name \<in> set (pipelines ctx) then (True, ctx)
      else (False, set_error (''kernel '' @ [CHR 0x27] @ name @ [CHR 0x27] @ '' not loaded '' @ em_dash @
              '' call load_kernel() first'') ctx))"

section \<open>Submitting a batch\<close>

record gpu_device =
  new_bytes :: "size_t \<Rightarrow> u8 list option"
  new_words :: "size_t \<Rightarrow> u32 list option"
  new_floats :: "size_t \<Rightarrow> real list option"
  max_threads :: nat
  gives_command :: bool

definition grow_buffers :: "gpu_device \<Rightarrow> size_t \<Rightarrow> size_t \<Rightarrow> EntropyBufferSet \<Rightarrow> bool \<times> EntropyBufferSet" where
  "grow_buffers dev total_bytes n b =
     (let (ok, buf, cap) = ensure_capacity (new_bytes dev) (data_buf b) (data_capacity b) total_bytes;
          b = b\<lparr>data_buf := buf, data_capacity := cap\<rparr>
      in if \<not> ok then (False, b) else
      let (ok, buf, cap) = ensure_capacity (new_words dev) (offsets_buf b) (offsets_capacity b) (size_mul n 4);
          b = b\<lparr>offsets_buf := buf, offsets_capacity := cap\<rparr>
      in if \<not> ok then (False, b) else
      let (ok, buf, cap) = ensure_capacity (new_words dev) (lengths_buf b) (lengths_capacity b) (size_mul n 4);
          b = b\<lparr>lengths_buf := buf, lengths_capacity := cap\<rparr>
      in if \<not> ok then (False, b) else
      let (ok, buf, cap) = ensure_capacity (new_floats dev) (results_buf b) (results_capacity b) (size_mul n 4);
          b = b\<lparr>results_buf := buf, results_capacity := cap\<rparr>
      in (ok, b))"

definition overwrite :: "nat \<Rightarrow> 'a list \<Rightarrow> 'a list \<Rightarrow> 'a list" where
  "overwrite off xs buf = take off buf @ xs @ drop (off + length xs) buf"

fun fill_buffers :: "u8 list list \<Rightarrow> nat \<Rightarrow> size_t \<Rightarrow> u8 list \<times> u32 list \<times> u32 list
    \<Rightarrow> mem_error + u8 list \<times> u32 list \<times> u32 list" where
  "fill_buffers [] i offset bufs = Inr bufs"
| "fill_buffers (p # ps) i offset (data, offsets, lengths) =
     (if i < length offsets \<and> i < length lengths \<and> (p = [] \<or> offset + length p \<le> length data)
      then fill_buffers ps (i + 1) (size_add offset (length p))
             (if p = [] then data else overwrite offset p data,
              offsets[i := of_nat offset], lengths[i := of_nat (length p)])
      else Inl OutOfBounds)"

function halve_threads :: "nat \<Rightarrow> nat \<Rightarrow> nat" where
  "halve_threads threads limit = (if threads > limit then halve_threads (threads div 2) limit else threads)"
  by pat_completeness auto
termination
  by (relation "measure fst") auto

declare halve_threads.simps [simp del]

text \<open>\<open>PendingGpuEntropy::State\<close>; \<open>command_threads\<close> is the committed dispatch, if any.\<close>

record PendingState =
  buffers :: EntropyBufferSet
  command_threads :: "nat option"
  count_payloads :: size_t
  waited :: bool

definition total_size :: "u8 list list \<Rightarrow> size_t" where
  "total_size payloads = foldl (\<lambda>n p. size_add n (length p)) 0 payloads"

text \<open>The part of \<open>submit_payload_entropy\<close> after \<open>take_buffers\<close>, which works on buffers no one else holds.\<close>

definition fill_and_commit :: "gpu_device \<Rightarrow> u8 list list \<Rightarrow> EntropyBufferSet \<Rightarrow> MetalContext
    \<Rightarrow> mem_error + PendingState option \<times> MetalContext" where
  "fill_and_commit dev payloads bufs ctx =
     (let n = length payloads in
      if payloads = [] then
        Inr (Some \<lparr>buffers = bufs, command_threads = None, count_payloads = n, waited = False\<rparr>, ctx)
      else
        let (ok, bufs) = grow_buffers dev (total_size payloads) n bufs in
        if \<not> ok then
          Inr (None, return_buffers bufs (set_error ''failed to allocate GPU buffers'' ctx))
        else
          and_then (fill_buffers payloads 0 0
              (the (data_buf bufs), the (offsets_buf bufs), the (lengths_buf bufs)))
            (\<lambda>(data, offsets, lengths).
              let bufs = bufs\<lparr>data_buf := Some data, offsets_buf := Some offsets, lengths_buf := Some lengths\<rparr>;
                  threads = halve_threads 256 (max_threads dev)
              in if \<not> gives_command dev then
                   Inr (None, return_buffers bufs (set_error ''queue->commandBuffer() returned null'' ctx))
                 else
                   Inr (Some \<lparr>buffers = bufs, command_threads = Some threads, count_payloads = n, waited = False\<rparr>, ctx)))"

definition submit_payload_entropy :: "gpu_device \<Rightarrow> u8 list list \<Rightarrow> MetalContext
    \<Rightarrow> mem_error + PendingState option \<times> MetalContext" where
  "submit_payload_entropy dev payloads ctx =
     (let (found, ctx) = find_pipeline ''payload_entropy'' ctx in
      if \<not> found then Inr (None, ctx)
      else let (bufs, ctx) = take_buffers ctx in fill_and_commit dev payloads bufs ctx)"

section \<open>What the GPU does with it, and the wait\<close>

text \<open>
  Each of the \<open>n\<close> threadgroups writes its result. \<open>memory\<close> and \<open>schedule\<close> give the initial contents
  of a group's memory and the order of its increments.
\<close>

fun run_groups :: "(nat \<Rightarrow> u32 list) \<Rightarrow> (nat \<Rightarrow> nat \<Rightarrow> nat \<Rightarrow> nat list) \<Rightarrow> nat \<Rightarrow> u8 list \<Rightarrow> u32 list \<Rightarrow> u32 list
    \<Rightarrow> nat list \<Rightarrow> real list \<Rightarrow> mem_error + real list" where
  "run_groups memory schedule threads data offsets lengths [] results = Inr results"
| "run_groups memory schedule threads data offsets lengths (g # groups) results =
     and_then (payload_entropy (memory g) data offsets lengths g threads
         (schedule g threads (unat (lengths ! g))))
       (\<lambda>e. if g < length results
            then run_groups memory schedule threads data offsets lengths groups (results[g := e])
            else Inl OutOfBounds)"

record gpu_run =
  group_memory :: "nat \<Rightarrow> u32 list"
  group_schedule :: "nat \<Rightarrow> nat \<Rightarrow> nat \<Rightarrow> nat list"
  completes :: bool
  run_error :: "string option option"

text \<open>A Metal error object may be null, and so may its description.\<close>

fun ns_error_to_string :: "string option option \<Rightarrow> string" where
  "ns_error_to_string None = ''(no error details)''"
| "ns_error_to_string (Some None) = ''(no description)''"
| "ns_error_to_string (Some (Some text)) = text"

text \<open>
  The state of a dispatch once \<open>waitUntilCompleted\<close> returns: the kernel has written the results
  buffer, unless the command failed.
\<close>

definition finish_command :: "gpu_run \<Rightarrow> nat \<Rightarrow> PendingState \<Rightarrow> mem_error + PendingState" where
  "finish_command run threads st =
     (if \<not> completes run then Inr st
      else and_then (run_groups (group_memory run) (group_schedule run) threads
             (the (data_buf (buffers st))) (the (offsets_buf (buffers st))) (the (lengths_buf (buffers st)))
             [0..<count_payloads st] (the (results_buf (buffers st))))
           (\<lambda>results. Inr (st\<lparr>buffers := (buffers st)\<lparr>results_buf := Some results\<rparr>\<rparr>)))"

text \<open>\<open>PendingGpuEntropy::wait\<close>: \<open>None\<close> is the return value false.\<close>

definition gpu_wait :: "gpu_run \<Rightarrow> PendingState \<Rightarrow> MetalContext
    \<Rightarrow> mem_error + real list option \<times> PendingState \<times> MetalContext" where
  "gpu_wait run st ctx =
     (let st = st\<lparr>waited := True\<rparr> in
      case command_threads st of
        None \<Rightarrow> Inr (Some [], st, ctx)
      | Some threads \<Rightarrow>
          and_then (finish_command run threads st) (\<lambda>st.
            if \<not> completes run then
              Inr (None, st, set_error (''GPU command buffer did not complete: '' @ ns_error_to_string (run_error run)) ctx)
            else
              let results = the (results_buf (buffers st)) in
              if count_payloads st \<le> length results then Inr (Some (take (count_payloads st) results), st, ctx)
              else Inl OutOfBounds))"

text \<open>The destructor waits for a command nobody waited for and returns the buffers to the pool.\<close>

definition destroy_pending :: "gpu_run \<Rightarrow> PendingState \<Rightarrow> MetalContext \<Rightarrow> mem_error + MetalContext" where
  "destroy_pending run st ctx =
     and_then (case command_threads st of
                 Some threads \<Rightarrow> if \<not> waited st then finish_command run threads st else Inr st
               | None \<Rightarrow> Inr st)
       (\<lambda>st. Inr (return_buffers (buffers st) ctx))"

section \<open>Memory safety and layout\<close>

definition device_ok :: "gpu_device \<Rightarrow> bool" where
  "device_ok dev \<longleftrightarrow> (\<forall>n b. new_bytes dev n = Some b \<longrightarrow> length b = n) \<and>
     (\<forall>n b. new_words dev n = Some b \<longrightarrow> length b = n div 4) \<and>
     (\<forall>n b. new_floats dev n = Some b \<longrightarrow> length b = n div 4) \<and> 0 < max_threads dev"

definition bufset_ok :: "EntropyBufferSet \<Rightarrow> bool" where
  "bufset_ok b \<longleftrightarrow> (\<forall>d. data_buf b = Some d \<longrightarrow> length d = data_capacity b) \<and>
     (\<forall>d. offsets_buf b = Some d \<longrightarrow> length d = offsets_capacity b div 4) \<and>
     (\<forall>d. lengths_buf b = Some d \<longrightarrow> length d = lengths_capacity b div 4) \<and>
     (\<forall>d. results_buf b = Some d \<longrightarrow> length d = results_capacity b div 4)"

definition pool_ok :: "MetalContext \<Rightarrow> bool" where
  "pool_ok ctx \<longleftrightarrow> list_all bufset_ok (free_buffers ctx)"

lemma ensure_capacity_ok:
  assumes "ensure_capacity new buf cap needed = (ok, buf', cap')"
    and "\<forall>b. buf = Some b \<longrightarrow> length b = cap div k" "\<forall>n b. new n = Some b \<longrightarrow> length b = n div k"
  shows "\<forall>b. buf' = Some b \<longrightarrow> length b = cap' div k"
    and "ok \<Longrightarrow> \<exists>b. buf' = Some b \<and> needed \<le> cap' \<and> length b = cap' div k"
  using assms by (auto simp: ensure_capacity_def Let_def split: if_splits)

lemma grow_buffers_ok:
  assumes dev: "device_ok dev" and b: "bufset_ok b" and n: "n * 4 < size_modulus"
    and r: "grow_buffers dev m n b = (ok, b')"
  shows "bufset_ok b'"
    and "ok \<Longrightarrow> \<exists>d os ls rs. data_buf b' = Some d \<and> offsets_buf b' = Some os \<and> lengths_buf b' = Some ls \<and>
      results_buf b' = Some rs \<and> m \<le> length d \<and> n \<le> length os \<and> n \<le> length ls \<and> n \<le> length rs"
proof -
  obtain ok1 d c1 where e1: "ensure_capacity (new_bytes dev) (data_buf b) (data_capacity b) m = (ok1, d, c1)"
    by (metis prod_cases3)
  obtain ok2 os c2 where e2: "ensure_capacity (new_words dev) (offsets_buf b) (offsets_capacity b) (size_mul n 4) = (ok2, os, c2)"
    by (metis prod_cases3)
  obtain ok3 ls c3 where e3: "ensure_capacity (new_words dev) (lengths_buf b) (lengths_capacity b) (size_mul n 4) = (ok3, ls, c3)"
    by (metis prod_cases3)
  obtain ok4 rs c4 where e4: "ensure_capacity (new_floats dev) (results_buf b) (results_capacity b) (size_mul n 4) = (ok4, rs, c4)"
    by (metis prod_cases3)
  have mul: "size_mul n 4 = n * 4" using n by (rule size_mul_exact)
  have bd: "\<forall>d. data_buf b = Some d \<longrightarrow> length d = data_capacity b div 1"
    "\<forall>d. offsets_buf b = Some d \<longrightarrow> length d = offsets_capacity b div 4"
    "\<forall>d. lengths_buf b = Some d \<longrightarrow> length d = lengths_capacity b div 4"
    "\<forall>d. results_buf b = Some d \<longrightarrow> length d = results_capacity b div 4"
    using b by (simp_all add: bufset_ok_def)
  have dd: "\<forall>n b. new_bytes dev n = Some b \<longrightarrow> length b = n div 1"
    "\<forall>n b. new_words dev n = Some b \<longrightarrow> length b = n div 4" "\<forall>n b. new_floats dev n = Some b \<longrightarrow> length b = n div 4"
    using dev by (simp_all add: device_ok_def)
  note o1 = ensure_capacity_ok [OF e1 bd(1) dd(1)] and o2 = ensure_capacity_ok [OF e2 bd(2) dd(2)]
    and o3 = ensure_capacity_ok [OF e3 bd(3) dd(2)] and o4 = ensure_capacity_ok [OF e4 bd(4) dd(3)]
  have cases: "b' = b\<lparr>data_buf := d, data_capacity := c1\<rparr> \<and> \<not> ok \<or>
      b' = b\<lparr>data_buf := d, data_capacity := c1, offsets_buf := os, offsets_capacity := c2\<rparr> \<and> \<not> ok \<or>
      b' = b\<lparr>data_buf := d, data_capacity := c1, offsets_buf := os, offsets_capacity := c2,
        lengths_buf := ls, lengths_capacity := c3\<rparr> \<and> \<not> ok \<or>
      b' = b\<lparr>data_buf := d, data_capacity := c1, offsets_buf := os, offsets_capacity := c2,
        lengths_buf := ls, lengths_capacity := c3, results_buf := rs, results_capacity := c4\<rparr> \<and>
      (ok \<longrightarrow> ok1 \<and> ok2 \<and> ok3 \<and> ok4)"
    using r by (cases ok1; cases ok2; cases ok3) (auto simp: grow_buffers_def Let_def e1 e2 e3 e4)
  show "bufset_ok b'"
    using cases bd o1(1) o2(1) o3(1) o4(1) by (elim disjE conjE) (simp_all add: bufset_ok_def)
  assume ok
  then have oks: ok1 ok2 ok3 ok4 and b': "data_buf b' = d" "offsets_buf b' = os" "lengths_buf b' = ls" "results_buf b' = rs"
    using cases by auto
  have div: "n \<le> c div 4" if "n * 4 \<le> c" for c using that by simp
  show "\<exists>d os ls rs. data_buf b' = Some d \<and> offsets_buf b' = Some os \<and> lengths_buf b' = Some ls \<and>
      results_buf b' = Some rs \<and> m \<le> length d \<and> n \<le> length os \<and> n \<le> length ls \<and> n \<le> length rs"
    using o1(2) [OF oks(1)] o2(2) [OF oks(2)] o3(2) [OF oks(3)] o4(2) [OF oks(4)]
    unfolding b' mul by (auto intro: div)
qed

text \<open>Where each payload starts.\<close>

fun starts :: "nat \<Rightarrow> u8 list list \<Rightarrow> nat list" where
  "starts off [] = []"
| "starts off (p # ps) = off # starts (off + length p) ps"

lemma length_starts [simp]: "length (starts off ps) = length ps"
  by (induction off ps rule: starts.induct) simp_all

lemma length_overwrite [simp]: "off + length xs \<le> length buf \<Longrightarrow> length (overwrite off xs buf) = length buf"
  by (simp add: overwrite_def)

lemma overwrite_append:
  "off + length xs + length ys \<le> length buf \<Longrightarrow>
     overwrite (off + length xs) ys (overwrite off xs buf) = overwrite off (xs @ ys) buf"
  by (simp add: overwrite_def ac_simps)

lemma overwrite_Nil [simp]: "overwrite off [] buf = buf"
  by (simp add: overwrite_def)

lemma overwrite_Cons: "off < length buf \<Longrightarrow> overwrite (Suc off) xs (buf[off := x]) = overwrite off (x # xs) buf"
  by (simp add: overwrite_def take_Suc_conv_app_nth)

lemma fill_buffers_layout:
  assumes "i + length ps \<le> length os" "i + length ps \<le> length ls"
    and "off + length (concat ps) \<le> length data" "off + length (concat ps) < size_modulus"
  shows "fill_buffers ps i off (data, os, ls) =
    Inr (overwrite off (concat ps) data, overwrite i (map of_nat (starts off ps)) os,
         overwrite i (map (\<lambda>p. of_nat (length p)) ps) ls)"
  using assms
proof (induction ps arbitrary: i off data os ls)
  case (Cons p ps)
  have "size_add off (length p) = off + length p" using Cons.prems(4) by (intro size_add_exact) simp
  moreover have "(if p = [] then data else overwrite off p data) = overwrite off p data" by simp
  ultimately show ?case
    using Cons.prems Cons.IH [of "Suc i" "os[i := of_nat off]" "ls[i := of_nat (length p)]" "off + length p" "overwrite off p data"]
    by (simp add: overwrite_append overwrite_Cons add.assoc)
qed simp

lemma starts_slice:
  "j < length ps \<Longrightarrow> starts off ps ! j = off + length (concat (take j ps)) \<and>
     take (length (ps ! j)) (drop (length (concat (take j ps))) (concat ps @ rest)) = ps ! j"
proof (induction off ps arbitrary: j rule: starts.induct)
  case (2 off p ps)
  then show ?case by (cases j) simp_all
qed simp

lemma concat_take_length: "j < length ps \<Longrightarrow> length (concat (take j ps)) + length (ps ! j) \<le> length (concat ps)"
proof (induction ps arbitrary: j)
  case (Cons p ps)
  then show ?case by (cases j) simp_all
qed simp

lemma total_size_exact: "length (concat ps) < size_modulus \<Longrightarrow> total_size ps = length (concat ps)"
proof -
  have "n + length (concat ps) < size_modulus \<Longrightarrow> foldl (\<lambda>n p. size_add n (length p)) n ps = n + length (concat ps)" for n
  proof (induction ps arbitrary: n)
    case (Cons p ps)
    then show ?case by (simp add: size_add_exact add.assoc)
  qed simp
  then show "length (concat ps) < size_modulus \<Longrightarrow> total_size ps = length (concat ps)"
    by (metis add_0 total_size_def)
qed

section \<open>The dispatch computes the entropies\<close>

definition run_ok :: "gpu_run \<Rightarrow> bool" where
  "run_ok run \<longleftrightarrow> (\<forall>g. length (group_memory run g) = 256) \<and>
     (\<forall>g threads n. schedule_of threads n (group_schedule run g threads n))"

lemma halve_threads_power: "0 < limit \<Longrightarrow> \<exists>j. halve_threads (2 ^ k) limit = 2 ^ j"
proof (induction k)
  case (Suc k)
  show ?case
  proof (cases "2 ^ Suc k > limit")
    case True
    have "halve_threads (2 ^ Suc k) limit = halve_threads (2 ^ k) limit"
      using True halve_threads.simps [of "2 ^ Suc k" limit] by simp
    then show ?thesis using Suc by simp
  next
    case False
    then have "halve_threads (2 ^ Suc k) limit = 2 ^ Suc k" using halve_threads.simps [of "2 ^ Suc k" limit] by simp
    then show ?thesis by blast
  qed
next
  case 0
  then have "halve_threads 1 limit = 2 ^ 0" using halve_threads.simps [of 1 limit] by simp
  then show ?case by (metis power_0)
qed

lemma halve_threads_limit: "halve_threads n limit \<le> limit \<and> halve_threads n limit \<le> n"
proof (induction n limit rule: halve_threads.induct)
  case (1 n limit)
  have "halve_threads n limit = (if n > limit then halve_threads (n div 2) limit else n)"
    by (rule halve_threads.simps)
  then show ?case using 1 by (cases "n > limit") auto
qed

lemma run_groups_fold:
  assumes "\<forall>g \<in> set gs. g < length results \<and>
    payload_entropy (memory g) data os ls g threads (schedule g threads (unat (ls ! g))) = Inr (f g)"
  shows "run_groups memory schedule threads data os ls gs results = Inr (foldl (\<lambda>r g. r[g := f g]) results gs)"
  using assms by (induction gs arbitrary: results) simp_all

lemma foldl_fill: "n \<le> length r \<Longrightarrow> foldl (\<lambda>r g. r[g := f g]) r [0..<n] = map f [0..<n] @ drop n r"
proof (induction n)
  case (Suc n)
  then have "drop n r = r ! n # drop (Suc n) r" by (simp add: Cons_nth_drop_Suc)
  then show ?case using Suc by (simp add: list_update_append)
qed simp

lemma overwrite_front: "length xs \<le> length buf \<Longrightarrow> overwrite 0 xs buf = xs @ drop (length xs) buf"
  by (simp add: overwrite_def)

lemma dispatch_correct:
  assumes run: "run_ok run" and small: "length (concat ps) < 4294967296"
    and bufs: "length (concat ps) \<le> length d" "length ps \<le> length os" "length ps \<le> length ls" "length ps \<le> length rs"
    and filled: "fill_buffers ps 0 0 (d, os, ls) = Inr (d', os', ls')" and threads: "threads = 2 ^ k"
  shows "run_groups (group_memory run) (group_schedule run) threads d' os' ls' [0..<length ps] rs =
    Inr (map shannon_entropy ps @ drop (length ps) rs)"
proof -
  have "length (concat ps) < size_modulus" using small by (simp add: size_modulus_def)
  then have d': "d' = concat ps @ drop (length (concat ps)) d"
    and os': "os' = map of_nat (starts 0 ps) @ drop (length ps) os"
    and ls': "ls' = map (\<lambda>p. of_nat (length p)) ps @ drop (length ps) ls"
    using fill_buffers_layout [of 0 ps os ls 0 d] bufs filled by (simp_all add: overwrite_front del: length_concat)
  have kernel: "payload_entropy (group_memory run g) d' os' ls' g threads
      (group_schedule run g threads (unat (ls' ! g))) = Inr (shannon_entropy (ps ! g))" if g: "g < length ps" for g
  proof (rule payload_entropy_correct [OF threads, where off = "starts 0 ps ! g"])
    have len: "starts 0 ps ! g + length (ps ! g) \<le> length (concat ps)"
      using concat_take_length [OF g] starts_slice [OF g, of 0] by (simp del: length_concat)
    show "length (group_memory run g) = 256" using run by (simp add: run_ok_def)
    show lg: "ls' ! g = of_nat (length (ps ! g))" "os' ! g = of_nat (starts 0 ps ! g)"
      using g by (simp_all add: ls' os' nth_append)
    have "unat (ls' ! g) = length (ps ! g)"
      using len small by (simp add: lg unsigned_of_nat take_bit_nat_eq_self del: length_concat)
    then show "schedule_of threads (length (ps ! g)) (group_schedule run g threads (unat (ls' ! g)))"
      using run by (simp add: run_ok_def)
    show "starts 0 ps ! g + length (ps ! g) \<le> length d'" "starts 0 ps ! g + length (ps ! g) < 4294967296"
      using len small by (simp_all add: d' del: length_concat)
    show "take (length (ps ! g)) (drop (starts 0 ps ! g) d') = ps ! g"
      using starts_slice [OF g, of 0 "drop (length (concat ps)) d"] unfolding d' by (simp only: add_0)
  qed
  have "map (\<lambda>g. shannon_entropy (ps ! g)) [0..<length ps] = map shannon_entropy ps"
    by (intro nth_equalityI) simp_all
  then show ?thesis
    using run_groups_fold [where f = "\<lambda>g. shannon_entropy (ps ! g)" and gs = "[0..<length ps]" and results = rs] kernel bufs(4)
      foldl_fill [OF bufs(4)] by simp
qed

lemma take_buffers_ok:
  "pool_ok ctx \<Longrightarrow> take_buffers ctx = (b, ctx') \<Longrightarrow> bufset_ok b \<and> pool_ok ctx' \<and> pipelines ctx' = pipelines ctx \<and>
     Suc (length (free_buffers ctx')) = max 1 (length (free_buffers ctx))"
proof (cases "free_buffers ctx = []")
  case True
  assume "pool_ok ctx" "take_buffers ctx = (b, ctx')"
  then show ?thesis using True by (auto simp: take_buffers_def new_EntropyBufferSet_def bufset_ok_def)
next
  case False
  assume "pool_ok ctx" "take_buffers ctx = (b, ctx')"
  then have "b \<in> set (free_buffers ctx)" "ctx' = ctx\<lparr>free_buffers := butlast (free_buffers ctx)\<rparr>"
    using False by (auto simp: take_buffers_def)
  moreover have "1 \<le> length (free_buffers ctx)" using False by (cases "free_buffers ctx") auto
  ultimately show ?thesis
    using \<open>pool_ok ctx\<close> by (auto simp: pool_ok_def list_all_iff max_def dest: in_set_butlastD)
qed

text \<open>
  A dispatch in flight for the payloads \<open>ps\<close>: whatever the GPU does, waiting for it and destroying it
  stay inside the buffers and keep them well formed, and a completed wait gives the entropies.
\<close>

definition dispatch_ok :: "u8 list list \<Rightarrow> PendingState \<Rightarrow> bool" where
  "dispatch_ok ps st \<longleftrightarrow> bufset_ok (buffers st) \<and> count_payloads st = length ps \<and>
     (case command_threads st of
        None \<Rightarrow> ps = []
      | Some threads \<Rightarrow> \<exists>d os ls rs. data_buf (buffers st) = Some d \<and> offsets_buf (buffers st) = Some os \<and>
          lengths_buf (buffers st) = Some ls \<and> results_buf (buffers st) = Some rs \<and> length ps \<le> length rs \<and>
          (\<forall>run rs. run_ok run \<longrightarrow> length ps \<le> length rs \<longrightarrow>
             run_groups (group_memory run) (group_schedule run) threads d os ls [0..<length ps] rs =
             Inr (map shannon_entropy ps @ drop (length ps) rs)))"

lemma finish_command_ok:
  assumes "dispatch_ok ps st" "run_ok run" "command_threads st = Some threads"
  shows "\<exists>rs. length ps \<le> length rs \<and> finish_command run threads st = Inr (st\<lparr>buffers := (buffers st)\<lparr>results_buf := Some rs\<rparr>\<rparr>) \<and>
    dispatch_ok ps (st\<lparr>buffers := (buffers st)\<lparr>results_buf := Some rs\<rparr>\<rparr>) \<and>
    (completes run \<longrightarrow> take (length ps) rs = map shannon_entropy ps)"
proof -
  from assms obtain d os ls rs where b: "data_buf (buffers st) = Some d" "offsets_buf (buffers st) = Some os"
      "lengths_buf (buffers st) = Some ls" "results_buf (buffers st) = Some rs" "length ps \<le> length rs"
    and k: "\<And>run rs. run_ok run \<Longrightarrow> length ps \<le> length rs \<Longrightarrow>
       run_groups (group_memory run) (group_schedule run) threads d os ls [0..<length ps] rs =
       Inr (map shannon_entropy ps @ drop (length ps) rs)"
    and ok: "bufset_ok (buffers st)" "count_payloads st = length ps"
    by (auto simp: dispatch_ok_def)
  have same: "st\<lparr>buffers := (buffers st)\<lparr>results_buf := Some rs\<rparr>\<rparr> = st" by (simp add: b(4) [symmetric])
  show ?thesis
  proof (cases "completes run")
    case True
    let ?rs = "map shannon_entropy ps @ drop (length ps) rs"
    have "dispatch_ok ps (st\<lparr>buffers := (buffers st)\<lparr>results_buf := Some ?rs\<rparr>\<rparr>)"
      using b ok assms(3) k by (simp add: dispatch_ok_def bufset_ok_def)
    then show ?thesis
      using True k [OF assms(2) b(5)] b ok by (intro exI [of _ ?rs]) (simp add: finish_command_def)
  next
    case False
    then show ?thesis using same b(5) assms(1) by (intro exI [of _ rs]) (simp add: finish_command_def)
  qed
qed

lemma dispatch_ok_waited [simp]: "dispatch_ok ps (st\<lparr>waited := w\<rparr>) = dispatch_ok ps st"
  by (simp add: dispatch_ok_def split: option.split)

lemma gpu_wait_ok:
  assumes "dispatch_ok ps st" "run_ok run"
  shows "\<exists>st' ctx'. gpu_wait run st ctx =
      Inr (if ps = [] \<and> command_threads st = None \<or> completes run then Some (map shannon_entropy ps) else None, st', ctx') \<and>
    dispatch_ok ps st' \<and> waited st' \<and> pipelines ctx' = pipelines ctx \<and> free_buffers ctx' = free_buffers ctx"
proof (cases "command_threads st")
  case None
  then have "ps = []" using assms(1) by (simp add: dispatch_ok_def)
  then show ?thesis using None assms(1) by (simp add: gpu_wait_def)
next
  case (Some threads)
  have "dispatch_ok ps (st\<lparr>waited := True\<rparr>)" using assms(1) by simp
  from finish_command_ok [OF this assms(2), of threads] Some obtain rs where
    "length ps \<le> length rs" "finish_command run threads (st\<lparr>waited := True\<rparr>) =
        Inr (st\<lparr>waited := True, buffers := (buffers st)\<lparr>results_buf := Some rs\<rparr>\<rparr>)"
    "dispatch_ok ps (st\<lparr>waited := True, buffers := (buffers st)\<lparr>results_buf := Some rs\<rparr>\<rparr>)"
    "completes run \<longrightarrow> take (length ps) rs = map shannon_entropy ps"
    by auto
  moreover have "count_payloads st = length ps" using assms(1) by (simp add: dispatch_ok_def)
  ultimately show ?thesis using Some by (simp add: gpu_wait_def set_error_def)
qed

lemma destroy_pending_ok:
  assumes "dispatch_ok ps st" "run_ok run"
  shows "\<exists>b. bufset_ok b \<and> destroy_pending run st ctx = Inr (return_buffers b ctx)"
proof (cases "command_threads st")
  case None
  then show ?thesis using assms(1) by (auto simp: destroy_pending_def dispatch_ok_def)
next
  case (Some threads)
  from finish_command_ok [OF assms Some] obtain st' where
    "finish_command run threads st = Inr st'" "dispatch_ok ps st'" by blast
  then show ?thesis using Some assms(1) by (auto simp: destroy_pending_def dispatch_ok_def)
qed

text \<open>
  The outcome of filling a buffer set and committing it: no access outside a buffer, and the set is
  either in flight with the payloads or back in the pool.
\<close>

lemma fill_and_commit_correct:
  assumes dev: "device_ok dev" and buf: "bufset_ok b"
    and small: "length (concat ps) < 4294967296" and n: "length ps * 4 < size_modulus"
  obtains b' e where "fill_and_commit dev ps b ctx = Inr (None, return_buffers b' (set_error e ctx))" "bufset_ok b'"
  | st where "fill_and_commit dev ps b ctx = Inr (Some st, ctx)" "dispatch_ok ps st" "\<not> waited st"
proof (cases "ps = []")
  case True
  then show ?thesis
    using buf that(2) [of "\<lparr>buffers = b, command_threads = None, count_payloads = 0, waited = False\<rparr>"]
    by (simp add: fill_and_commit_def dispatch_ok_def)
next
  case ps: False
  have tot: "total_size ps = length (concat ps)"
    using small by (intro total_size_exact) (simp add: size_modulus_def)
  obtain ok b' where g: "grow_buffers dev (length (concat ps)) (length ps) b = (ok, b')" by fastforce
  note g_ok = grow_buffers_ok [OF dev buf n g]
  show ?thesis
  proof (cases ok)
    case False
    then show ?thesis using ps g_ok(1) tot by (intro that(1)) (auto simp: fill_and_commit_def g)
  next
    case ok: True
    from g_ok(2) [OF ok] obtain d os ls rs where
      bufs: "data_buf b' = Some d" "offsets_buf b' = Some os" "lengths_buf b' = Some ls" "results_buf b' = Some rs"
      and lens: "length (concat ps) \<le> length d" "length ps \<le> length os" "length ps \<le> length ls" "length ps \<le> length rs"
      by blast
    obtain d' os' ls' where fill: "fill_buffers ps 0 0 (d, os, ls) = Inr (d', os', ls')"
      and same: "length d' = length d" "length os' = length os" "length ls' = length ls"
      using fill_buffers_layout [of 0 ps os ls 0 d] lens small by (simp add: size_modulus_def del: length_concat)
    obtain k where k: "halve_threads 256 (max_threads dev) = 2 ^ k"
      using halve_threads_power [of "max_threads dev" 8] dev by (auto simp: device_ok_def)
    let ?b = "b'\<lparr>data_buf := Some d', offsets_buf := Some os', lengths_buf := Some ls'\<rparr>"
    have b_ok: "bufset_ok ?b" using g_ok(1) bufs same by (simp add: bufset_ok_def)
    have commit: "fill_and_commit dev ps b ctx =
        (if \<not> gives_command dev then
           Inr (None, return_buffers ?b (set_error ''queue->commandBuffer() returned null'' ctx))
         else Inr (Some \<lparr>buffers = ?b, command_threads = Some (2 ^ k), count_payloads = length ps, waited = False\<rparr>, ctx))"
      using ps ok tot by (simp add: fill_and_commit_def g bufs fill k)
    have "dispatch_ok ps \<lparr>buffers = ?b, command_threads = Some (2 ^ k), count_payloads = length ps, waited = False\<rparr>"
      using dispatch_correct [OF _ small lens(1-3) _ fill refl, of _ _ k] b_ok bufs lens(4) by (simp add: dispatch_ok_def)
    then show ?thesis using commit b_ok that by (cases "gives_command dev") auto
  qed
qed

text \<open>A whole submission neither loses nor duplicates a buffer set.\<close>

lemma submit_correct:
  assumes "device_ok dev" "pool_ok ctx" "length (concat ps) < 4294967296" "length ps * 4 < size_modulus"
  shows "\<exists>r ctx'. submit_payload_entropy dev ps ctx = Inr (r, ctx') \<and> pool_ok ctx' \<and>
    (case r of
       None \<Rightarrow> length (free_buffers ctx') =
           (if ''payload_entropy'' \<in> set (pipelines ctx) then max 1 (length (free_buffers ctx))
            else length (free_buffers ctx))
     | Some st \<Rightarrow> dispatch_ok ps st \<and> \<not> waited st \<and>
         Suc (length (free_buffers ctx')) = max 1 (length (free_buffers ctx)))"
proof (cases "''payload_entropy'' \<in> set (pipelines ctx)")
  case False
  then show ?thesis using assms(2)
    by (auto simp: submit_payload_entropy_def find_pipeline_def set_error_def pool_ok_def)
next
  case True
  obtain b ctx1 where t: "take_buffers ctx = (b, ctx1)" by fastforce
  note t_ok = take_buffers_ok [OF assms(2) t]
  have sub: "submit_payload_entropy dev ps ctx = fill_and_commit dev ps b ctx1"
    using True by (simp add: submit_payload_entropy_def find_pipeline_def t)
  have b: "bufset_ok b" using t_ok by simp
  show ?thesis
    using fill_and_commit_correct [OF assms(1) b assms(3,4), of ctx1] True t_ok
    by (cases rule: fill_and_commit_correct [OF assms(1) b assms(3,4), of ctx1])
      (auto simp: sub return_buffers_def set_error_def pool_ok_def)
qed

end
