(* ===== verification/Gpu_Backend.thy ===== *)
theory Gpu_Backend
  imports Gpu_Context
begin

text \<open>
  The rest of \<open>MetalContext\<close> (set-up, kernel loading, \<open>run_payload_entropy\<close>, the vector-add check)
  and \<open>GpuEntropyBackend\<close>, which is shown to meet the contract of an entropy backend on every batch
  of fewer than \<open>2 ^ 32\<close> payload bytes.
\<close>

section \<open>Setting up a context\<close>

record metal_handles =
  has_device :: bool
  has_queue :: bool
  found_name :: "string option"

definition is_available :: "metal_handles \<Rightarrow> bool" where
  "is_available h \<longleftrightarrow> has_device h \<and> has_queue h"

definition new_MetalContext :: "metal_handles \<Rightarrow> MetalContext" where
  "new_MetalContext h =
     (let ctx = \<lparr>pipelines = [], free_buffers = [], last_error = []\<rparr> in
      if \<not> has_device h then
        set_error (''MTL::CreateSystemDefaultDevice() returned null '' @ em_dash @ '' no Metal-capable GPU found'') ctx
      else if \<not> has_queue h then set_error ''device->newCommandQueue() returned null'' ctx
      else ctx)"

definition device_name :: "metal_handles \<Rightarrow> string" where
  "device_name h =
     (if \<not> has_device h then ''(none)''
      else case found_name h of None \<Rightarrow> ''(unnamed)'' | Some name \<Rightarrow> name)"

text \<open>The steps of \<open>load_kernel\<close> that may fail: compiling, finding the function, building the pipeline.\<close>

record kernel_build =
  compile_error :: "string option option option"
  function_found :: bool
  pipeline_error :: "string option option option"

definition load_kernel :: "metal_handles \<Rightarrow> kernel_build \<Rightarrow> string \<Rightarrow> MetalContext \<Rightarrow> bool \<times> MetalContext" where
  "load_kernel h build function_name ctx =
     (if \<not> is_available h then (False, set_error ''no Metal device available'' ctx)
      else case compile_error build of
        Some e \<Rightarrow> (False, set_error (''shader compile failed: '' @ ns_error_to_string e) ctx)
      | None \<Rightarrow>
          if \<not> function_found build then
            (False, set_error (''kernel function '' @ [CHR 0x27] @ function_name @ [CHR 0x27] @
               '' not found in the compiled library'') ctx)
          else case pipeline_error build of
            Some e \<Rightarrow> (False, set_error (''failed to build compute pipeline: '' @ ns_error_to_string e) ctx)
          | None \<Rightarrow> (True, ctx\<lparr>pipelines := List.insert function_name (pipelines ctx)\<rparr>))"

section \<open>The vector-add check\<close>

definition make_buffer_length :: "size_t \<Rightarrow> size_t" where
  "make_buffer_length n = max n 1"

definition submit_and_wait :: "bool \<Rightarrow> string option option \<Rightarrow> MetalContext \<Rightarrow> bool \<times> MetalContext" where
  "submit_and_wait done_ok failure ctx =
     (if \<not> done_ok then (False, set_error (''GPU command buffer did not complete: '' @ ns_error_to_string failure) ctx)
      else (True, ctx))"

text \<open>
  \<open>alloc\<close> says whether the first, second and third allocation of so many bytes succeed; \<open>done_ok\<close> and \<open>failure\<close>
  are the final status of the command. The kernel \<open>shaders/vector_add.metal\<close> adds element by element.
\<close>

definition run_vector_add :: "(nat \<Rightarrow> size_t \<Rightarrow> bool) \<Rightarrow> bool \<Rightarrow> string option option \<Rightarrow> real list \<Rightarrow> real list
    \<Rightarrow> MetalContext \<Rightarrow> real list option \<times> MetalContext" where
  "run_vector_add alloc done_ok failure a b ctx =
     (let (found, ctx) = find_pipeline ''vector_add'' ctx in
      if \<not> found then (None, ctx)
      else if a = [] then (Some [], ctx)
      else if \<not> list_all (\<lambda>k. alloc k (make_buffer_length (size_mul (length a) 4))) [0, 1, 2] then
        (None, set_error ''failed to allocate GPU buffers'' ctx)
      else
        let (ok, ctx) = submit_and_wait done_ok failure ctx
        in (if ok then Some (map2 (+) a b) else None, ctx))"

section \<open>Packed batches\<close>

text \<open>The pending dispatch is destroyed when \<open>run_payload_entropy\<close> returns.\<close>

definition run_payload_entropy :: "gpu_device \<Rightarrow> gpu_run \<Rightarrow> PayloadBatch \<Rightarrow> MetalContext
    \<Rightarrow> mem_error + real list option \<times> MetalContext" where
  "run_payload_entropy dev run batch ctx =
     and_then (batch_views (pb_bytes batch) (zip (pb_offsets batch) (pb_lengths batch))) (\<lambda>payloads.
       and_then (submit_payload_entropy dev payloads ctx) (\<lambda>(pending, ctx).
         case pending of
           None \<Rightarrow> Inr (None, ctx)
         | Some st \<Rightarrow>
             and_then (gpu_wait run st ctx) (\<lambda>(results, st, ctx).
               and_then (destroy_pending run st ctx) (\<lambda>ctx. Inr (results, ctx)))))"

definition pack :: "u8 list list \<Rightarrow> PayloadBatch" where
  "pack ps = foldl (\<lambda>b p. batch_add p b) new_PayloadBatch ps"

lemma pack_fields:
  "pb_bytes (pack ps) = concat ps \<and> pb_offsets (pack ps) = map of_nat (starts 0 ps) \<and>
   pb_lengths (pack ps) = map (\<lambda>p. of_nat (length p)) ps"
proof (induction ps rule: rev_induct)
  case Nil
  then show ?case by (simp add: pack_def new_PayloadBatch_def)
next
  case (snoc p ps)
  have "starts off (ps @ [p]) = starts off ps @ [off + length (concat ps)]" for off
    by (induction ps arbitrary: off) simp_all
  then show ?case using snoc by (simp add: pack_def batch_add_def)
qed

lemma batch_views_pack:
  assumes "off + length (concat ps) \<le> length bytes" "off + length (concat ps) < 4294967296"
    and "take (length (concat ps)) (drop off bytes) = concat ps"
  shows "batch_views bytes (zip (map of_nat (starts off ps)) (map (\<lambda>p. of_nat (length p)) ps)) = Inr ps"
  using assms
proof (induction ps arbitrary: off)
  case (Cons p ps)
  have n: "unat (of_nat off :: u32) = off" "unat (of_nat (length p) :: u32) = length p"
    using Cons.prems(2) by (simp_all add: unsigned_of_nat take_bit_nat_eq_self)
  have tk: "take (length p + length (concat ps)) (drop off bytes) = p @ concat ps"
    using Cons.prems(3) by simp
  then have "take (length p) (drop off bytes) = p" by (metis append_eq_conv_conj min.absorb1 le_add1 take_take)
  moreover have "take (length (concat ps)) (drop (off + length p) bytes) = concat ps"
    using tk by (metis add.commute append_eq_conv_conj drop_drop take_drop)
  ultimately show ?case
    using Cons.prems Cons.IH [of "off + length p"] by (simp add: n add.assoc del: length_concat)
qed simp

lemma run_payload_entropy_ok:
  assumes "batch_views (pb_bytes batch) (zip (pb_offsets batch) (pb_lengths batch)) = Inr ps"
    and "length (concat ps) < 4294967296" "length ps * 4 < size_modulus"
    and "device_ok dev" "pool_ok ctx" "run_ok run"
  shows "\<exists>r ctx'. run_payload_entropy dev run batch ctx = Inr (r, ctx') \<and> r \<in> {None, Some (map shannon_entropy ps)} \<and>
    pool_ok ctx' \<and> length (free_buffers ctx') =
      (if ''payload_entropy'' \<in> set (pipelines ctx) then max 1 (length (free_buffers ctx)) else length (free_buffers ctx))"
proof -
  obtain r ctx1 where sub: "submit_payload_entropy dev ps ctx = Inr (r, ctx1)" and "pool_ok ctx1"
    and r: "case r of
       None \<Rightarrow> length (free_buffers ctx1) =
           (if ''payload_entropy'' \<in> set (pipelines ctx) then max 1 (length (free_buffers ctx))
            else length (free_buffers ctx))
     | Some st \<Rightarrow> dispatch_ok ps st \<and> \<not> waited st \<and>
         Suc (length (free_buffers ctx1)) = max 1 (length (free_buffers ctx))"
    using submit_correct [OF assms(4,5,2,3)] by blast
  show ?thesis
  proof (cases r)
    case None
    then show ?thesis using assms(1) sub r \<open>pool_ok ctx1\<close> by (simp add: run_payload_entropy_def)
  next
    case (Some st)
    have st: "dispatch_ok ps st" using r Some by simp
    have loaded: "''payload_entropy'' \<in> set (pipelines ctx)"
      using sub Some by (auto simp: submit_payload_entropy_def find_pipeline_def split: if_splits)
    from gpu_wait_ok [OF st assms(6), of ctx1] obtain x st' ctx2 where
      w: "gpu_wait run st ctx1 = Inr (x, st', ctx2)" "x \<in> {None, Some (map shannon_entropy ps)}"
        "dispatch_ok ps st'" "free_buffers ctx2 = free_buffers ctx1" by auto
    from destroy_pending_ok [OF w(3) assms(6), of ctx2] obtain b where
      "bufset_ok b" "destroy_pending run st' ctx2 = Inr (return_buffers b ctx2)" by blast
    then show ?thesis
      using assms(1) sub w Some r loaded \<open>pool_ok ctx1\<close>
      by (simp add: run_payload_entropy_def return_buffers_def pool_ok_def)
  qed
qed


text \<open>
  The 32-bit offsets wrap: once a batch holds \<open>2 ^ 32\<close> bytes or more, the offset stored for the
  next payload is the true one reduced modulo \<open>2 ^ 32\<close>, so the kernel reads other bytes.
\<close>

theorem batch_offset_wraps:
  assumes "length (pb_bytes b) = 4294967296 + k" "k < 4294967296"
  shows "unat (last (pb_offsets (batch_add p b))) = k"
proof -
  have "(of_nat (4294967296 + k) :: u32) = of_nat k" by simp
  then show ?thesis
    using assms by (simp add: batch_add_def unsigned_of_nat take_bit_nat_eq_self del: of_nat_add)
qed

theorem batch_offset_wraps_witness:
  "\<exists>b. unat (last (pb_offsets (batch_add [1] b))) \<noteq> length (pb_bytes b)"
proof -
  define n where "n = (4294967296 :: nat)"
  have "unat (last (pb_offsets (batch_add [1] \<lparr>pb_bytes = replicate n 0, pb_offsets = [], pb_lengths = []\<rparr>))) = 0"
    by (rule batch_offset_wraps) (simp_all add: n_def)
  then show ?thesis by (intro exI [of _ "\<lparr>pb_bytes = replicate n 0, pb_offsets = [], pb_lengths = []\<rparr>"]) (simp add: n_def)
qed

section \<open>The backend\<close>

text \<open>
  \<open>env_context\<close> and \<open>env_run\<close> are the pool as the call finds it and the behaviour of the GPU for this
  dispatch. An access outside a buffer, which has no return value, appears as a failure here;
  \<open>submit_correct\<close> excludes it.
\<close>

record gpu_env =
  env_ready :: bool
  env_device :: gpu_device
  env_context :: MetalContext
  env_run :: gpu_run

definition new_GpuEntropyBackend :: "metal_handles \<Rightarrow> kernel_build \<Rightarrow> bool \<times> MetalContext" where
  "new_GpuEntropyBackend h build =
     (let ctx = new_MetalContext h in
      if is_available h then load_kernel h build ''payload_entropy'' ctx else (False, ctx))"

text \<open>A pending result carries the context it must give its buffers back to.\<close>

definition GpuEntropyBackend :: "gpu_env \<Rightarrow> (PendingState \<times> MetalContext) EntropyBackend" where
  "GpuEntropyBackend env =
     \<lparr>start = \<lambda>packets.
        if \<not> env_ready env then None
        else (case submit_payload_entropy (env_device env) (map qpayload packets) (env_context env) of
                Inl _ \<Rightarrow> None
              | Inr (pending, ctx) \<Rightarrow> (case pending of None \<Rightarrow> None | Some st \<Rightarrow> Some (st, ctx))),
      wait = \<lambda>(st, ctx). (case gpu_wait (env_run env) st ctx of Inl _ \<Rightarrow> None | Inr (results, _) \<Rightarrow> results)\<rparr>"

definition gpu_fits :: "gpu_env \<Rightarrow> QueuedPacket list \<Rightarrow> bool" where
  "gpu_fits env ps \<longleftrightarrow> device_ok (env_device env) \<and> pool_ok (env_context env) \<and> run_ok (env_run env) \<and>
     length (concat (map qpayload ps)) < 4294967296 \<and> length ps * 4 < size_modulus"

lemma gpu_backend_result:
  assumes "gpu_fits env ps" "start (GpuEntropyBackend env) ps = Some w" "wait (GpuEntropyBackend env) w = Some es"
  shows "es = cpu_entropies ps"
proof -
  have fits: "device_ok (env_device env)" "pool_ok (env_context env)" "run_ok (env_run env)"
    "length (concat (map qpayload ps)) < 4294967296" "length (map qpayload ps) * 4 < size_modulus"
    using assms(1) by (simp_all add: gpu_fits_def)
  obtain st ctx where w: "w = (st, ctx)" by fastforce
  have st: "dispatch_ok (map qpayload ps) st"
    using submit_correct [OF fits(1,2,4,5)] assms(2) w
    by (auto simp: GpuEntropyBackend_def split: if_splits option.splits)
  show ?thesis
    using gpu_wait_ok [OF st fits(3), of ctx] assms(3) w
    by (auto simp: GpuEntropyBackend_def comp_def split: if_splits)
qed

interpretation gpu: exact_backend "start (GpuEntropyBackend env)" "wait (GpuEntropyBackend env)" "gpu_fits env"
  for env :: gpu_env
  by unfold_locales (auto dest!: gpu_backend_result)

section \<open>A concrete device\<close>

text \<open>A device whose allocations succeed and whose threads run one after the other.\<close>

definition plain_device :: gpu_device where
  "plain_device = \<lparr>new_bytes = \<lambda>n. Some (replicate n 0), new_words = \<lambda>n. Some (replicate (n div 4) 0),
     new_floats = \<lambda>n. Some (replicate (n div 4) 0), max_threads = 1024, gives_command = True\<rparr>"

definition plain_run :: gpu_run where
  "plain_run = \<lparr>group_memory = \<lambda>_. replicate 256 7,
     group_schedule = \<lambda>g threads n. concat (map (\<lambda>tid. strided tid threads n) [0..<threads]), completes = True, run_error = None\<rparr>"

definition plain_context :: MetalContext where
  "plain_context = snd (new_GpuEntropyBackend \<lparr>has_device = True, has_queue = True, found_name = None\<rparr>
     \<lparr>compile_error = None, function_found = True, pipeline_error = None\<rparr>)"

lemma plain_ok: "device_ok plain_device" "run_ok plain_run" "pool_ok plain_context"
  by (simp_all add: device_ok_def plain_device_def run_ok_def plain_run_def schedule_of_def pool_ok_def
      plain_context_def new_GpuEntropyBackend_def new_MetalContext_def is_available_def load_kernel_def Let_def)






end
