(* ===== verification/Main_Program.thy ===== *)
theory Main_Program
  imports Command_Line Whole_System Gpu_Backend
begin

text \<open>
  The rest of \<open>src/main.cpp\<close>: the usage text, the device list, opening the source, choosing the
  entropy backend, and the summary printed at the end. What \<open>libpcap\<close> and Metal answer is a record
  of arguments. Times are real numbers handed in by the caller.
\<close>

section \<open>Usage and devices\<close>

definition nl :: string where "nl = [CHR 0x0A]"

definition print_usage :: "string \<Rightarrow> string" where
  "print_usage argv0 =
     ''Usage: '' @ argv0 @ '' -i <device> | -r <file.pcap> [options]'' @ nl @
     ''  -i <device>   capture live from a network interface'' @ nl @
     ''  -r <file>     replay packets from a .pcap file'' @ nl @
     ''  -c <count>    stop after this many parsed packets (0 = unlimited)'' @ nl @
     ''  -l            list available capture devices and exit'' @ nl @
     ''  -w <n>        worker thread count (default: cores - 1)'' @ nl @
     ''  -q <n>        bounded queue capacity (default: 4096)'' @ nl @
     ''  -b <n>        max packets a worker pops per batch (default: 64)'' @ nl @
     ''  -L <usec>     how long a worker waits to fill a batch (default: 2000)'' @ nl @
     ''  -v            print every packet, not just alerts'' @ nl @
     ''  -e <bits>     high-entropy alert threshold, bits/byte (default: 7.0)'' @ nl @
     ''  -g            compute entropy on the Metal GPU (Metal builds only)'' @ nl @
     ''  -s            silent: count alerts without printing them (for benchmarking)'' @ nl"

text \<open>\<open>list_devices\<close> of \<open>src/capture/capture.cpp\<close>: the names, and the error text (empty if none).\<close>

definition list_devices :: "string + string list \<Rightarrow> string list \<times> string" where
  "list_devices pcap_findalldevs =
     (case pcap_findalldevs of Inl errbuf \<Rightarrow> ([], errbuf) | Inr devs \<Rightarrow> (devs, []))"

text \<open>How a run of \<open>main\<close> ends before the pipeline starts: exit status, standard output, standard error.\<close>

datatype exit_code = EXIT_SUCCESS | EXIT_FAILURE

type_synonym exit = "exit_code \<times> string \<times> string"

definition list_mode :: "string + string list \<Rightarrow> exit" where
  "list_mode pcap_findalldevs =
     (let (devs, error) = list_devices pcap_findalldevs in
      if error \<noteq> [] \<and> devs = [] then (EXIT_FAILURE, [], ''error listing devices: '' @ error @ nl)
      else (EXIT_SUCCESS, concat (map (\<lambda>name. name @ nl) devs), []))"

section \<open>Opening the source and choosing the backend\<close>

text \<open>
  \<open>env_metal\<close> says whether the program was built with Metal; \<open>env_build\<close> and \<open>env_handles\<close> are what Metal
  answers while \<open>GpuEntropyBackend\<close> is constructed.
\<close>

record 'h environment =
  env_devices :: "string + string list"
  env_open_live :: "string \<Rightarrow> string + 'h"
  env_open_offline :: "string \<Rightarrow> string + 'h"
  env_datalink :: "'h \<Rightarrow> int"
  env_metal :: bool
  env_handles :: metal_handles
  env_build :: kernel_build

definition open_source :: "'h environment \<Rightarrow> options \<Rightarrow> 'h Capture \<times> string option" where
  "open_source env opts =
     (if opt_device opts = [] then open_offline (env_open_offline env) (env_datalink env) (opt_pcap_file opts) new_Capture
      else open_live (env_open_live env) (env_datalink env) (opt_device opts) new_Capture)"

definition open_failure :: "options \<Rightarrow> string \<Rightarrow> string" where
  "open_failure opts error = ''failed to open capture source: '' @ error @ nl @
     (if opt_device opts \<noteq> [] then
        ''(on macOS this is often the /dev/bpf* permission issue '' @ em_dash @ '' see README.md)'' @ nl else [])"

text \<open>The name of the backend, or the error text with which \<open>main\<close> gives up.\<close>

definition choose_backend :: "'h environment \<Rightarrow> options \<Rightarrow> string + string" where
  "choose_backend env opts =
     (if opt_use_gpu opts then
        (if env_metal env then
           (let (ok, ctx) = new_GpuEntropyBackend (env_handles env) (env_build env) in
            if \<not> ok then Inl (''GPU unavailable: '' @ last_error ctx @ nl)
            else Inr (''gpu ('' @ device_name (env_handles env) @ '')''))
         else Inl (''-g needs a Metal build: cmake -S . -B build -DNETSENTINEL_ENABLE_METAL=ON'' @ nl))
      else Inr ''cpu'')"

definition cli_message :: "string \<Rightarrow> cli_error \<Rightarrow> string" where
  "cli_message argv0 e = (case e of
     Usage \<Rightarrow> print_usage argv0
   | InvalidValue flag text \<Rightarrow>
       ''invalid value for '' @ flag @ '': '' @ [CHR 0x27] @ text @ [CHR 0x27] @
       (if flag = ''-e'' then '' (expected 0.0..8.0)''
        else '' (expected 0..'' @ dec_int (if flag = ''-c'' then 2147483647 else if flag = ''-w'' then 1024
               else if flag = ''-q'' then 16777216 else if flag = ''-b'' then 1048576 else 1000000) @ '')'') @ nl)"

datatype 'h main_phase = Exits exit | Runs options "'h Capture" string

definition main_setup :: "'h environment \<Rightarrow> (string \<Rightarrow> (double \<times> string) option) \<Rightarrow> nat \<Rightarrow> string \<Rightarrow> string list
    \<Rightarrow> 'h main_phase" where
  "main_setup env strtod cores argv0 args =
     (case command_line strtod cores args of
        Inl e \<Rightarrow> Exits (EXIT_FAILURE, [], cli_message argv0 e)
      | Inr ListDevices \<Rightarrow> Exits (list_mode (env_devices env))
      | Inr UsageError \<Rightarrow> Exits (EXIT_FAILURE, [], print_usage argv0)
      | Inr BadSizes \<Rightarrow> Exits (EXIT_FAILURE, [], ''queue capacity and batch size must be positive'' @ nl)
      | Inr (Start opts) \<Rightarrow>
          (case open_source env opts of
             (c, Some error) \<Rightarrow> Exits (EXIT_FAILURE, [], open_failure opts error)
           | (c, None) \<Rightarrow>
               (case choose_backend env opts of
                  Inl message \<Rightarrow> Exits (EXIT_FAILURE, [], message)
                | Inr name \<Rightarrow> Runs opts c name)))"

section \<open>The report\<close>

text \<open>\<open>%.nf\<close>\<close>

definition fixed_dec :: "nat \<Rightarrow> real \<Rightarrow> string" where
  "fixed_dec n x =
     (let m = nat (round_half_even (10 ^ n * \<bar>x\<bar>))
      in (if x < 0 then ''-'' else []) @ dec_nat (m div 10 ^ n) @
         (if n = 0 then [] else ''.'' @ zero_pad n (dec_nat (m mod 10 ^ n))))"

definition capturing_line :: "options \<Rightarrow> string \<Rightarrow> string" where
  "capturing_line opts name =
     ''capturing from '' @ (if opt_device opts = [] then opt_pcap_file opts else opt_device opts) @ '' ... ('' @
     dec_nat (opt_num_workers opts) @ '' worker(s), queue capacity '' @ dec_nat (opt_queue_capacity opts) @
     '', batch size '' @ dec_nat (opt_batch_size opts) @ '', entropy on '' @ name @ '')'' @ nl"

definition wait_seconds :: "u64 \<Rightarrow> real" where
  "wait_seconds ns = real (unat ns) / 1000000000"

text \<open>\<open>delivered\<close> and \<open>seconds\<close> of the capture thread, and the two elapsed times.\<close>

record run_times =
  total_seconds :: real
  capture_seconds :: real

definition by_type :: "alert_counters \<Rightarrow> AnomalyType \<Rightarrow> string" where
  "by_type c ty = dec_nat (unat (g_alerts_by_type c ! type_index ty))"

definition summary :: "options \<Rightarrow> string \<Rightarrow> int \<Rightarrow> run_times \<Rightarrow> alert_counters \<Rightarrow> 'w system \<Rightarrow> string" where
  "summary opts name delivered tm c s =
     (let n = processed (pipe s); b = batches (pipe s);
          worker_seconds = total_seconds tm * real (opt_num_workers opts)
      in ''done '' @ em_dash @ '' '' @ dec_int delivered @ '' packet(s) captured, '' @ dec_nat (unat n) @ '' processed, '' @
         dec_nat (unat (g_alert_count c)) @ '' alert(s), '' @ fixed_dec 3 (total_seconds tm) @ ''s, '' @
         fixed_dec 0 (if total_seconds tm > 0 then real (unat n) / total_seconds tm else 0) @ '' packets/sec, avg batch '' @
         fixed_dec 1 (if b > 0 then real (unat n) / real (unat b) else 0) @ nl @
         ''alerts by type: port_scan='' @ by_type c kPortScan @ '' syn_flood='' @ by_type c kSynFlood @
         '' high_entropy='' @ by_type c kHighEntropyPayload @ '' signature='' @ by_type c kSignatureMatch @ nl @
         ''waiting: capture thread blocked on a full queue '' @
         fixed_dec 0 (if capture_seconds tm > 0
           then 100 * wait_seconds (push_wait_ns (queue (pipe s))) / capture_seconds tm else 0) @
         ''% of its '' @ fixed_dec 3 (capture_seconds tm) @ ''s, workers waiting for packets '' @
         fixed_dec 0 (if worker_seconds > 0
           then 100 * wait_seconds (pop_wait_ns (queue (pipe s))) / worker_seconds else 0) @ ''% of their time'' @ nl @
         (if fallbacks (shared_engine (eng s)) > 0
          then ''warning: '' @ dec_nat (unat (fallbacks (shared_engine (eng s)))) @
               '' batch(es) fell back to CPU entropy after a '' @ name @ '' failure'' @ nl else []))"

end
