(* ===== verification/Consumer_Wakeup.thy ===== *)
theory Consumer_Wakeup
  imports Pipeline_Progress
begin

text \<open>
  The waits of \<open>pop_batch\<close> in detail. In \<open>Worker_Pool\<close> a waiting worker may go on at any time, since
  its waits are timed; here a worker that found nothing sleeps on \<open>not_empty_\<close> until it is notified,
  times out or wakes spuriously, and the calls of \<open>notify_one\<close> and \<open>notify_all\<close>, which the code makes
  after releasing the mutex, are steps of their own. Every run of this model is a run of the
  pipeline, and its point is what the timeouts hide: \<open>push\<close> wakes a consumer only when the queue
  becomes non-empty or reaches the wanted size, yet packets never wait for the timeout of a worker
  that sleeps.
\<close>

section \<open>Sleepers and notifications\<close>

text \<open>A thread that has left the mutex and is about to notify \<open>not_empty_\<close>.\<close>

datatype notifier = CaptureThread | WorkerThread nat | MainThread

text \<open>
  \<open>asleep\<close> are the workers blocked in the first wait of \<open>pop_batch\<close>. A worker in \<open>WWait\<close> that is not
  asleep has been woken and tests the predicate next.
\<close>

record 'a wakeup =
  threads :: "'a pipeline"
  asleep :: "nat set"
  due :: "notifier set"

definition wakeup_start :: "size_t \<Rightarrow> size_t \<Rightarrow> 'a list \<Rightarrow> 'a wakeup" where
  "wakeup_start cap num_workers packets =
     \<lparr>threads = pipeline_start cap num_workers packets, asleep = {}, due = {}\<rparr>"

definition worker_at :: "nat \<Rightarrow> 'a worker_pc \<Rightarrow> 'a wakeup \<Rightarrow> bool" where
  "worker_at i p w \<longleftrightarrow> i < length (workers (threads w)) \<and> workers (threads w) ! i = p"

text \<open>A push of \<open>x\<close> by the capture thread, which then has to notify when \<open>push_commit\<close> says so.\<close>

definition push_and_wake :: "'a \<Rightarrow> 'a pipeline \<Rightarrow> 'a wakeup \<Rightarrow> 'a wakeup" where
  "push_and_wake x s w = (case push_commit x (queue s) of (_, wake, _) \<Rightarrow>
     w\<lparr>threads := do_push x s, due := (if wake then insert CaptureThread (due w) else due w)\<rparr>)"

text \<open>What follows the first wait of \<open>pop_batch\<close>: the second wait, or the batch is taken.\<close>

definition after_wait :: "size_t \<Rightarrow> int \<Rightarrow> u64 \<Rightarrow> nat \<Rightarrow> 'a pipeline \<Rightarrow> 'a pipeline" where
  "after_wait batch_size linger_us ns i s =
     (if must_linger batch_size linger_us (queue s) then set_worker i WLinger s
      else do_drain batch_size ns i s)"

text \<open>
  The first test of the predicate, under the mutex from the entry of \<open>pop_batch\<close> on: the worker goes
  on, or it falls asleep.
\<close>

definition enter_pop :: "size_t \<Rightarrow> int \<Rightarrow> u64 \<Rightarrow> nat \<Rightarrow> 'a wakeup \<Rightarrow> 'a wakeup" where
  "enter_pop batch_size linger_us ns i w =
     (let s = set_worker i WWait ((threads w)\<lparr>queue := pop_enter batch_size (queue (threads w))\<rparr>)
      in if pop_ready (queue s) then w\<lparr>threads := after_wait batch_size linger_us ns i s\<rparr>
         else w\<lparr>threads := s, asleep := insert i (asleep w)\<rparr>)"

text \<open>
  \<open>not_empty_.notify_one()\<close> wakes one of the waiters, in the first or second wait, or nobody when
  there is none. A worker in the second wait tests its predicate and goes back to it or takes its
  batch, both of which it may do anyway.
\<close>

inductive notify_one :: "'a wakeup \<Rightarrow> 'a wakeup \<Rightarrow> bool" where
  wakes_sleeper: "i \<in> asleep w \<Longrightarrow> notify_one w (w\<lparr>asleep := asleep w - {i}\<rparr>)"
| wakes_lingerer: "worker_at i WLinger w \<Longrightarrow> notify_one w w"
| wakes_nobody: "asleep w = {} \<Longrightarrow> notify_one w w"

inductive_cases notify_oneE: "notify_one w w'"

section \<open>Steps\<close>

inductive wakeup_step :: "size_t \<Rightarrow> int \<Rightarrow> 'a wakeup \<Rightarrow> 'a wakeup \<Rightarrow> bool"
  for batch_size linger_us where
  cap_push: "CaptureThread \<notin> due w \<Longrightarrow> threads w = s \<Longrightarrow> capture_pc s = CIdle \<Longrightarrow> source s = x # xs \<Longrightarrow>
     push_ready (queue s) \<Longrightarrow> wakeup_step batch_size linger_us w (push_and_wake x (s\<lparr>source := xs\<rparr>) w)"
| cap_block: "CaptureThread \<notin> due w \<Longrightarrow> threads w = s \<Longrightarrow> capture_pc s = CIdle \<Longrightarrow> source s = x # xs \<Longrightarrow>
     \<not> push_ready (queue s) \<Longrightarrow>
     wakeup_step batch_size linger_us w (w\<lparr>threads := s\<lparr>source := xs, capture_pc := CBlocked x\<rparr>\<rparr>)"
| cap_spurious: "threads w = s \<Longrightarrow> capture_pc s = CBlocked x \<Longrightarrow>
     wakeup_step batch_size linger_us w (w\<lparr>threads := s\<lparr>capture_pc := CWoken x\<rparr>\<rparr>)"
| cap_sleep: "threads w = s \<Longrightarrow> capture_pc s = CWoken x \<Longrightarrow> \<not> push_ready (queue s) \<Longrightarrow>
     wakeup_step batch_size linger_us w (w\<lparr>threads := s\<lparr>capture_pc := CBlocked x\<rparr>\<rparr>)"
| cap_retry: "threads w = s \<Longrightarrow> capture_pc s = CWoken x \<Longrightarrow> push_ready (queue s) \<Longrightarrow>
     wakeup_step batch_size linger_us w (push_and_wake x (s\<lparr>queue := push_waited ns (queue s)\<rparr>) w)"
| cap_done: "CaptureThread \<notin> due w \<Longrightarrow> threads w = s \<Longrightarrow> capture_pc s = CIdle \<Longrightarrow> source s = [] \<Longrightarrow>
     wakeup_step batch_size linger_us w (w\<lparr>threads := s\<lparr>capture_pc := CDone\<rparr>\<rparr>)"
| cap_notify: "CaptureThread \<in> due w \<Longrightarrow> notify_one (w\<lparr>due := due w - {CaptureThread}\<rparr>) w' \<Longrightarrow>
     wakeup_step batch_size linger_us w w'"
| main_shutdown: "threads w = s \<Longrightarrow> main_pc s = MJoinCapture \<Longrightarrow> capture_pc s = CDone \<Longrightarrow>
     wakeup_step batch_size linger_us w
       (w\<lparr>threads := s\<lparr>queue := queue_shutdown (queue s), main_pc := MShutNotify\<rparr>\<rparr>)"
| main_notify_push: "threads w = s \<Longrightarrow> main_pc s = MShutNotify \<Longrightarrow>
     wakeup_step batch_size linger_us w
       (w\<lparr>threads := s\<lparr>capture_pc := notify_not_full (capture_pc s), main_pc := MJoinPool\<rparr>,
          due := insert MainThread (due w)\<rparr>)"
| main_notify_pop: "MainThread \<in> due w \<Longrightarrow>
     wakeup_step batch_size linger_us w (w\<lparr>asleep := {}, due := due w - {MainThread}\<rparr>)"
| main_join: "MainThread \<notin> due w \<Longrightarrow> threads w = s \<Longrightarrow> main_pc s = MJoinPool \<Longrightarrow>
     list_all (\<lambda>p. p = WExit) (workers s) \<Longrightarrow>
     wakeup_step batch_size linger_us w (w\<lparr>threads := s\<lparr>main_pc := MDone\<rparr>\<rparr>)"
| worker_enter: "worker_at i WStart w \<Longrightarrow>
     wakeup_step batch_size linger_us w (enter_pop batch_size linger_us ns i w)"
| worker_wake: "i \<in> asleep w \<Longrightarrow> wakeup_step batch_size linger_us w (w\<lparr>asleep := asleep w - {i}\<rparr>)"
| worker_sleep: "worker_at i WWait w \<Longrightarrow> i \<notin> asleep w \<Longrightarrow> \<not> pop_ready (queue (threads w)) \<Longrightarrow>
     wakeup_step batch_size linger_us w (w\<lparr>asleep := insert i (asleep w)\<rparr>)"
| worker_go: "worker_at i WWait w \<Longrightarrow> i \<notin> asleep w \<Longrightarrow>
     wakeup_step batch_size linger_us w (w\<lparr>threads := after_wait batch_size linger_us ns i (threads w)\<rparr>)"
| worker_linger_drain: "worker_at i WLinger w \<Longrightarrow>
     wakeup_step batch_size linger_us w (w\<lparr>threads := do_drain batch_size ns i (threads w)\<rparr>)"
| worker_notify_push: "threads w = s \<Longrightarrow> worker_at i (WNotify b left_over) w \<Longrightarrow>
     wakeup_step batch_size linger_us w
       (w\<lparr>threads := set_worker i (WGot b)
            (s\<lparr>capture_pc := (if b \<noteq> [] then notify_not_full (capture_pc s) else capture_pc s)\<rparr>),
          due := (if left_over then insert (WorkerThread i) (due w) else due w)\<rparr>)"
| worker_notify_pop: "WorkerThread i \<in> due w \<Longrightarrow> notify_one (w\<lparr>due := due w - {WorkerThread i}\<rparr>) w' \<Longrightarrow>
     wakeup_step batch_size linger_us w w'"
| worker_analyse: "WorkerThread i \<notin> due w \<Longrightarrow> worker_at i (WGot b) w \<Longrightarrow> b \<noteq> [] \<Longrightarrow>
     wakeup_step batch_size linger_us w (w\<lparr>threads := do_analyse b i (threads w)\<rparr>)"
| worker_exit: "WorkerThread i \<notin> due w \<Longrightarrow> worker_at i (WGot []) w \<Longrightarrow> is_finished (queue (threads w)) \<Longrightarrow>
     wakeup_step batch_size linger_us w (w\<lparr>threads := set_worker i WExit (threads w)\<rparr>)"
| worker_again: "WorkerThread i \<notin> due w \<Longrightarrow> worker_at i (WGot []) w \<Longrightarrow> \<not> is_finished (queue (threads w)) \<Longrightarrow>
     wakeup_step batch_size linger_us w (w\<lparr>threads := set_worker i WStart (threads w)\<rparr>)"

abbreviation wakeup_reachable :: "size_t \<Rightarrow> int \<Rightarrow> 'a wakeup \<Rightarrow> 'a wakeup \<Rightarrow> bool" where
  "wakeup_reachable batch_size linger_us \<equiv> reaches (wakeup_step batch_size linger_us)"

section \<open>Every run is a run of the pipeline\<close>

lemma push_and_wake_threads [simp]: "threads (push_and_wake x s w) = do_push x s"
  by (simp add: push_and_wake_def split: prod.splits)

lemma notify_one_threads: "notify_one w w' \<Longrightarrow> threads w' = threads w"
  by (auto elim: notify_oneE)

lemma after_wait_step:
  assumes "i < length (workers s)" "workers s ! i = WWait"
  shows "pipeline_step n l s (after_wait n l ns i s)"
  using assms by (auto simp: after_wait_def intro: pipeline_step.worker_linger pipeline_step.worker_drain)

lemma enter_pop_steps:
  assumes "worker_at i WStart w"
  shows "pipeline_reachable n l (threads w) (threads (enter_pop n l ns i w))"
proof -
  let ?s = "set_worker i WWait ((threads w)\<lparr>queue := pop_enter n (queue (threads w))\<rparr>)"
  have enter: "pipeline_reachable n l (threads w) ?s"
    using assms by (intro pipeline_runs(3) pipeline_step.worker_enter) (auto simp: worker_at_def)
  moreover have "pipeline_step n l ?s (after_wait n l ns i ?s)"
    using assms by (intro after_wait_step) (auto simp: worker_at_def set_worker_def)
  ultimately show ?thesis
    using pipeline_runs(2) [of n l "threads w" ?s] by (simp add: enter_pop_def Let_def)
qed

lemma wakeup_step_simulated:
  assumes "wakeup_step n l w w'"
  shows "pipeline_reachable n l (threads w) (threads w')"
  using assms
proof (cases rule: wakeup_step.cases)
  case (worker_enter i ns)
  then show ?thesis by (simp add: enter_pop_steps)
next
  case (worker_go i ns)
  then show ?thesis by (auto simp: worker_at_def intro: after_wait_step pipeline_runs(3))
next
  case (worker_notify_push s i b left_over)
  then show ?thesis
    using pipeline_step.worker_notify [of i s b left_over n l] by (auto simp: worker_at_def intro!: pipeline_runs(3))
qed (auto simp: worker_at_def notify_one_threads intro!: pipeline_runs(1) pipeline_runs(3) intro: pipeline_step.intros)

lemma wakeups_simulated:
  "wakeup_reachable n l w w' \<Longrightarrow> pipeline_reachable n l (threads w) (threads w')"
  by (induction rule: reaches.induct) (auto intro: pipeline_runs(1) pipeline_trans wakeup_step_simulated)

section \<open>Nobody sleeps while packets wait unattended\<close>

text \<open>
  A worker attends to the queue when it is awake in the first wait, in the bounded second wait, or
  took a batch and will hand the rest on.
\<close>

fun attends :: "'a worker_pc \<Rightarrow> bool" where
  "attends WWait = True"
| "attends WLinger = True"
| "attends (WNotify _ left_over) = left_over"
| "attends _ = False"

definition attended :: "'a wakeup \<Rightarrow> bool" where
  "attended w \<longleftrightarrow> due w \<noteq> {} \<or>
     (\<exists>i < length (workers (threads w)). i \<notin> asleep w \<and> attends (workers (threads w) ! i))"

definition sleepers_waiting :: "'a wakeup \<Rightarrow> bool" where
  "sleepers_waiting w \<longleftrightarrow> (\<forall>i \<in> asleep w. worker_at i WWait w)"

definition packets_attended :: "'a wakeup \<Rightarrow> bool" where
  "packets_attended w \<longleftrightarrow> (items (queue (threads w)) \<noteq> [] \<and> asleep w \<noteq> {} \<longrightarrow> attended w)"

definition shutdown_announced :: "'a wakeup \<Rightarrow> bool" where
  "shutdown_announced w \<longleftrightarrow> (shutdown_flag (queue (threads w)) \<and> asleep w \<noteq> {} \<longrightarrow>
     MainThread \<in> due w \<or> main_pc (threads w) = MShutNotify)"

lemmas wakeup_invs = sleepers_waiting_def packets_attended_def shutdown_announced_def

lemma not_asleep: "sleepers_waiting w \<Longrightarrow> worker_at i p w \<Longrightarrow> p \<noteq> WWait \<Longrightarrow> i \<notin> asleep w"
  by (auto simp: sleepers_waiting_def worker_at_def)

text \<open>One worker that is not asleep moves to \<open>p\<close>.\<close>

lemma sleepers_move:
  assumes "sleepers_waiting w" "i \<notin> asleep w" "workers (threads w') = (workers (threads w))[i := p]"
    "asleep w' \<subseteq> asleep w"
  shows "sleepers_waiting w'"
  using assms by (auto simp: sleepers_waiting_def worker_at_def subset_iff) (metis nth_list_update_neq)

lemma attended_by: "worker_at i p w \<Longrightarrow> attends p \<Longrightarrow> i \<notin> asleep w \<Longrightarrow> attended w"
  by (auto simp: attended_def worker_at_def)

lemma attended_due: "x \<in> due w \<Longrightarrow> attended w"
  by (auto simp: attended_def)

lemma attended_move:
  assumes "attended w" "worker_at i p w" "\<not> attends p" "workers (threads w') = (workers (threads w))[i := q]"
    "due w' = due w" "asleep w' = asleep w"
  shows "attended w'"
  using assms by (auto simp: attended_def worker_at_def) (metis nth_list_update_neq)

text \<open>The two regions of \<open>pop_batch\<close> that leave packets behind leave them attended.\<close>

lemma drain_attended:
  assumes "i < length (workers s)" "i \<notin> asleep w"
  shows "packets_attended (w\<lparr>threads := do_drain n ns i s\<rparr>)"
proof -
  let ?w = "w\<lparr>threads := do_drain n ns i s\<rparr>"
  have "worker_at i (WNotify (take n (items (queue s))) (n < length (items (queue s)))) ?w"
    using assms(1) by (simp add: worker_at_def do_drain_def pop_drain_eq set_worker_def)
  then have "n < length (items (queue s)) \<Longrightarrow> attended ?w"
    using attended_by [of i _ ?w] assms(2) by simp
  then show ?thesis by (auto simp: packets_attended_def do_drain_def pop_drain_eq set_worker_def)
qed

lemma after_wait_attended:
  assumes "i < length (workers s)" "i \<notin> asleep w"
  shows "packets_attended (w\<lparr>threads := after_wait n l ns i s\<rparr>)"
proof (cases "must_linger n l (queue s)")
  case True
  have "worker_at i WLinger (w\<lparr>threads := set_worker i WLinger s\<rparr>)"
    using assms(1) by (simp add: worker_at_def set_worker_def)
  then show ?thesis using True assms(2) attended_by [of i WLinger "w\<lparr>threads := set_worker i WLinger s\<rparr>"]
    by (simp add: after_wait_def packets_attended_def)
next
  case False
  then show ?thesis using drain_attended [OF assms] by (simp add: after_wait_def)
qed

lemma after_wait_fields:
  "\<exists>p. workers (after_wait n l ns i s) = (workers s)[i := p]"
  "shutdown_flag (queue (after_wait n l ns i s)) = shutdown_flag (queue s)"
  "main_pc (after_wait n l ns i s) = main_pc s"
  by (auto simp: after_wait_def do_drain_def pop_drain_eq set_worker_def)

lemma do_push_fields:
  "workers (do_push x s) = workers s" "main_pc (do_push x s) = main_pc s"
  "shutdown_flag (queue (do_push x s)) = shutdown_flag (queue s)"
  by (auto simp: do_push_def push_now_def push_commit_def Let_def)

lemma push_attended:
  assumes "packets_attended w" "workers s = workers (threads w)" "items (queue s) = items (queue (threads w))"
  shows "packets_attended (push_and_wake x s w)"
  using assms
  by (auto simp: packets_attended_def attended_def push_and_wake_def do_push_def push_now_def push_commit_def Let_def)

lemma notify_attended:
  assumes "notify_one w w'" "sleepers_waiting w"
  shows "packets_attended w'"
  using assms
proof (cases rule: notify_one.cases)
  case (wakes_sleeper i)
  then have "worker_at i WWait w'" "i \<notin> asleep w'"
    using assms(2) by (auto simp: sleepers_waiting_def worker_at_def)
  then show ?thesis using attended_by [of i WWait w'] by (simp add: packets_attended_def)
next
  case (wakes_lingerer i)
  then show ?thesis
    using attended_by [of i WLinger w'] not_asleep [OF assms(2)] by (simp add: packets_attended_def)
next
  case wakes_nobody
  then show ?thesis by (simp add: packets_attended_def)
qed

lemma wakeup_step_sleepers:
  assumes "wakeup_step n l w w'" "sleepers_waiting w"
  shows "sleepers_waiting w'"
  using assms
proof (cases rule: wakeup_step.cases)
  case (worker_enter i ns)
  let ?s = "set_worker i WWait ((threads w)\<lparr>queue := pop_enter n (queue (threads w))\<rparr>)"
  have i: "i \<notin> asleep w" "i < length (workers (threads w))"
    using worker_enter not_asleep [OF assms(2)] by (auto simp: worker_at_def)
  show ?thesis
  proof (cases "pop_ready (queue ?s)")
    case True
    obtain p where "workers (after_wait n l ns i ?s) = (workers ?s)[i := p]" using after_wait_fields(1) by blast
    then have "workers (threads w') = (workers (threads w))[i := p]"
      using worker_enter True by (simp add: enter_pop_def set_worker_def)
    then show ?thesis
      using sleepers_move [OF assms(2) i(1)] worker_enter True by (simp add: enter_pop_def Let_def)
  next
    case False
    then show ?thesis using assms(2) i worker_enter
      by (auto simp: enter_pop_def Let_def sleepers_waiting_def worker_at_def set_worker_def nth_list_update)
  qed
next
  case (worker_go i ns)
  then show ?thesis
    using sleepers_move [OF assms(2)] after_wait_fields(1) [of n l ns i "threads w"] by auto
next
  case (worker_linger_drain i ns)
  then show ?thesis using not_asleep [OF assms(2)]
    by (intro sleepers_move [OF assms(2), of i]) (auto simp: do_drain_def pop_drain_eq set_worker_def)
next
  case (worker_notify_push s i b left_over)
  then show ?thesis using not_asleep [OF assms(2)]
    by (intro sleepers_move [OF assms(2), of i]) (auto simp: set_worker_def)
next
  case (worker_analyse i b)
  then show ?thesis using not_asleep [OF assms(2)]
    by (intro sleepers_move [OF assms(2), of i]) (auto simp: set_worker_def do_analyse_def)
next
  case (worker_exit i)
  then show ?thesis using not_asleep [OF assms(2)]
    by (intro sleepers_move [OF assms(2), of i]) (auto simp: set_worker_def)
next
  case (worker_again i)
  then show ?thesis using not_asleep [OF assms(2)]
    by (intro sleepers_move [OF assms(2), of i]) (auto simp: set_worker_def)
qed (auto simp: sleepers_waiting_def worker_at_def push_and_wake_def do_push_fields elim!: notify_oneE split: prod.splits)

lemma idle_move_attended:
  assumes "packets_attended w" "worker_at i p w" "\<not> attends p"
    "workers (threads w') = (workers (threads w))[i := q]" "due w' = due w" "asleep w' = asleep w"
    "items (queue (threads w')) = items (queue (threads w))"
  shows "packets_attended w'"
  using assms(1,6,7) attended_move [OF _ assms(2-6)] by (auto simp: packets_attended_def)

lemma wakeup_step_attended:
  assumes "wakeup_step n l w w'" "packets_attended w" "sleepers_waiting w"
  shows "packets_attended w'"
  using assms(1)
proof (cases rule: wakeup_step.cases)
  case (worker_enter i ns)
  have i: "i \<notin> asleep w" "i < length (workers (threads w))"
    using worker_enter not_asleep [OF assms(3)] by (auto simp: worker_at_def)
  have quiet: "packets_attended (v :: 'a wakeup)" if "items (queue (threads v)) = []" for v
    using that by (simp add: packets_attended_def)
  show ?thesis using after_wait_attended [of i _ w] i worker_enter
    by (auto simp: enter_pop_def Let_def set_worker_def pop_ready_def pop_enter_def intro!: quiet)
next
  case (worker_wake i)
  then have "attended w'"
    using assms(3) attended_by [of i WWait w'] by (auto simp: sleepers_waiting_def worker_at_def)
  then show ?thesis by (simp add: packets_attended_def)
next
  case (worker_go i ns)
  then show ?thesis by (auto simp: worker_at_def intro: after_wait_attended)
next
  case (worker_linger_drain i ns)
  then have "i \<notin> asleep w" using not_asleep [OF assms(3)] by blast
  then show ?thesis using worker_linger_drain by (auto simp: worker_at_def intro: drain_attended)
next
  case (worker_notify_push s i b left_over)
  show ?thesis
  proof (cases left_over)
    case True
    then have "attended w'" using worker_notify_push by (intro attended_due [of "WorkerThread i"]) simp
    then show ?thesis by (simp add: packets_attended_def)
  next
    case False
    then show ?thesis using worker_notify_push
      by (intro idle_move_attended [OF assms(2), of i]) (auto simp: set_worker_def)
  qed
next
  case (worker_analyse i b)
  then show ?thesis by (intro idle_move_attended [OF assms(2), of i]) (auto simp: set_worker_def do_analyse_def)
next
  case (worker_exit i)
  then show ?thesis by (intro idle_move_attended [OF assms(2), of i]) (auto simp: set_worker_def)
next
  case (worker_again i)
  then show ?thesis by (intro idle_move_attended [OF assms(2), of i]) (auto simp: set_worker_def)
next
  case cap_notify
  then show ?thesis using assms(3) by (auto intro!: notify_attended simp: sleepers_waiting_def worker_at_def)
next
  case (worker_notify_pop i)
  then show ?thesis using assms(3) by (auto intro!: notify_attended simp: sleepers_waiting_def worker_at_def)
next
  case (cap_push s x xs)
  then show ?thesis by (auto intro!: push_attended [OF assms(2)])
next
  case (cap_retry s x ns)
  then show ?thesis by (auto intro!: push_attended [OF assms(2)] simp: push_waited_def)
qed (use assms(2) in \<open>auto simp: packets_attended_def attended_def pop_ready_def queue_shutdown_def\<close>)

lemma wakeup_step_shutdown:
  assumes "wakeup_step n l w w'" "shutdown_announced w"
  shows "shutdown_announced w'"
  using assms
  by (cases rule: wakeup_step.cases)
    (auto simp: shutdown_announced_def push_and_wake_def do_push_fields after_wait_fields enter_pop_def Let_def
      pop_ready_def pop_enter_def queue_shutdown_def push_waited_def set_worker_def do_drain_def pop_drain_eq do_analyse_def
      elim!: notify_oneE split: prod.splits)

interpretation sleepers: step_invariant "wakeup_step n l"
  "\<lambda>w. sleepers_waiting w \<and> packets_attended w \<and> shutdown_announced w" for n l
  by unfold_locales (blast intro: wakeup_step_sleepers wakeup_step_attended wakeup_step_shutdown)

text \<open>
  C10. No packet is stranded. Every run is a run of the pipeline; while packets are queued and a worker
  sleeps in \<open>pop_batch\<close>, a notification of \<open>not_empty_\<close> is on its way or some other worker is about to
  look at the queue, waits for a fuller batch or will hand the rest on; and once the queue is shut
  down, a worker that still sleeps is about to be woken by \<open>notify_all\<close>.
\<close>

theorem no_stranded_packets:
  assumes "wakeup_reachable n l (wakeup_start cap k packets) w"
  shows "pipeline_reachable n l (pipeline_start cap k packets) (threads w) \<and>
    (\<forall>j \<in> asleep w.
      (items (queue (threads w)) \<noteq> [] \<longrightarrow> due w \<noteq> {} \<or>
        (\<exists>i < length (workers (threads w)). i \<notin> asleep w \<and> attends (workers (threads w) ! i))) \<and>
      (shutdown_flag (queue (threads w)) \<longrightarrow> MainThread \<in> due w \<or> main_pc (threads w) = MShutNotify))"
proof -
  have "sleepers_waiting w \<and> packets_attended w \<and> shutdown_announced w"
    by (rule sleepers.everywhere [OF assms]) (simp add: wakeup_start_def wakeup_invs)
  then show ?thesis
    using wakeups_simulated [OF assms] by (auto simp: wakeup_start_def packets_attended_def attended_def shutdown_announced_def)
qed

text \<open>
  A run with two workers: both fall asleep, a packet arrives, and the capture thread is about to wake
  one of them.
\<close>

theorem no_stranded_packets_witness:
  "\<exists>w :: nat wakeup. asleep w = {0, 1} \<and> items (queue (threads w)) = [7] \<and> due w = {CaptureThread} \<and>
     pipeline_reachable 4 0 (pipeline_start 8 2 [7]) (threads w)"
proof -
  define w0 :: "nat wakeup" where "w0 = wakeup_start 8 2 [7]"
  define w1 where "w1 = enter_pop 4 0 0 0 w0"
  define w2 where "w2 = enter_pop 4 0 0 1 w1"
  define w3 where "w3 = push_and_wake 7 ((threads w2)\<lparr>source := []\<rparr>) w2"
  note defs = w0_def w1_def w2_def w3_def wakeup_start_def pipeline_start_def pool_size_def new_PacketQueue_def
    enter_pop_def pop_enter_def pop_ready_def set_worker_def push_and_wake_def push_commit_def do_push_def push_now_def
    push_ready_def worker_at_def numeral_2_eq_2
  have "wakeup_step 4 0 w0 w1" unfolding w1_def by (rule wakeup_step.worker_enter) (simp add: defs)
  moreover have "wakeup_step 4 0 w1 w2" unfolding w2_def by (rule wakeup_step.worker_enter) (simp add: defs)
  moreover have "wakeup_step 4 0 w2 w3" unfolding w3_def by (rule wakeup_step.cap_push) (simp_all add: defs)
  ultimately have "wakeup_reachable 4 0 (wakeup_start 8 2 [7]) w3"
    unfolding w0_def by (blast intro: reaches.intros [where next_step = "wakeup_step 4 0"])
  from no_stranded_packets [OF this] show ?thesis by (intro exI [of _ w3]) (auto simp: defs)
qed

end
