(* ===== verification/Fairness.thy ===== *)
theory Fairness
  imports Prelude
begin

text \<open>
  Runs under weak fairness. A run is an infinite sequence of states in which each position takes a
  step or stutters; it is fair to a thread if the thread is, again and again, unable to move or
  moves. The locale \<open>fair_steps\<close> is the interface between a step relation and the proof rules: from
  one helpful thread to a leads-to property, and from a measure to an eventuality.
\<close>

section \<open>Runs and leads-to\<close>

definition weakly_fair :: "('s \<Rightarrow> 's \<Rightarrow> bool) \<Rightarrow> ('t \<Rightarrow> 's \<Rightarrow> bool) \<Rightarrow> ('t \<Rightarrow> 's \<Rightarrow> 's \<Rightarrow> bool) \<Rightarrow> (nat \<Rightarrow> 's) \<Rightarrow> bool" where
  "weakly_fair next_step enabled moves run \<longleftrightarrow>
     (\<forall>i. run (Suc i) = run i \<or> next_step (run i) (run (Suc i))) \<and>
     (\<forall>t i. \<exists>j \<ge> i. \<not> enabled t (run j) \<or> moves t (run j) (run (Suc j)))"

definition leads_to :: "(nat \<Rightarrow> 's) \<Rightarrow> ('s \<Rightarrow> bool) \<Rightarrow> ('s \<Rightarrow> bool) \<Rightarrow> bool" where
  "leads_to run P Q \<longleftrightarrow> (\<forall>i. P (run i) \<longrightarrow> (\<exists>j \<ge> i. Q (run j)))"

lemma leads_to_now: "(\<And>i. P (run i) \<Longrightarrow> Q (run i)) \<Longrightarrow> leads_to run P Q"
  by (auto simp: leads_to_def)

lemma leads_to_trans: "leads_to run P Q \<Longrightarrow> leads_to run Q R \<Longrightarrow> leads_to run P R"
  unfolding leads_to_def by (meson order_trans)

lemma leads_to_weaken:
  "leads_to run P Q \<Longrightarrow> (\<And>i. P' (run i) \<Longrightarrow> P (run i)) \<Longrightarrow> (\<And>i. Q (run i) \<Longrightarrow> Q' (run i)) \<Longrightarrow> leads_to run P' Q'"
  unfolding leads_to_def by blast

lemma leads_to_cases:
  "leads_to run (\<lambda>s. P s \<and> C s) Q \<Longrightarrow> leads_to run (\<lambda>s. P s \<and> \<not> C s) Q \<Longrightarrow> leads_to run P Q"
  unfolding leads_to_def by blast

lemma leads_to_any: "(\<And>x. leads_to run (P x) Q) \<Longrightarrow> leads_to run (\<lambda>s. \<exists>x. P x s) Q"
  unfolding leads_to_def by blast

text \<open>A cancellation rule: \<open>P\<close> leads to \<open>Q\<close> or to \<open>R\<close>, and \<open>R\<close> to \<open>Q\<close>.\<close>

lemma leads_to_cancel:
  "leads_to run P (\<lambda>s. Q s \<or> R s) \<Longrightarrow> leads_to run R Q \<Longrightarrow> leads_to run P Q"
  unfolding leads_to_def by (meson order_trans)

lemma leads_to_measure:
  fixes m :: "'s \<Rightarrow> nat"
  assumes "\<And>k. leads_to run (\<lambda>s. P s \<and> m s = k) (\<lambda>s. Q s \<or> P s \<and> m s < k)"
  shows "leads_to run P Q"
proof -
  have "\<exists>j \<ge> i. Q (run j)" if "P (run i)" for i
    using that
  proof (induction "m (run i)" arbitrary: i rule: less_induct)
    case less
    obtain j where "i \<le> j" "Q (run j) \<or> P (run j) \<and> m (run j) < m (run i)"
      using assms [of "m (run i)"] less.prems unfolding leads_to_def by blast
    then show ?case using less.hyps [of j] by (meson order_trans)
  qed
  then show ?thesis by (simp add: leads_to_def)
qed

section \<open>The interface of a schedulable step relation\<close>

text \<open>
  \<open>moves t\<close> tells the steps of thread \<open>t\<close> and no stuttering; an enabled thread has a step, so fair runs
  are those of a scheduler that serves every thread.
\<close>

locale fair_steps = step_invariant next_step inv
  for next_step :: "'s \<Rightarrow> 's \<Rightarrow> bool" and inv :: "'s \<Rightarrow> bool" +
  fixes enabled :: "'t \<Rightarrow> 's \<Rightarrow> bool" and moves :: "'t \<Rightarrow> 's \<Rightarrow> 's \<Rightarrow> bool"
  assumes no_stutter: "\<not> moves t s s"
    and enabled_moves: "inv s \<Longrightarrow> enabled t s \<Longrightarrow> \<exists>u. next_step s u \<and> moves t s u"
begin

lemma along_run:
  assumes "weakly_fair next_step enabled moves run" "inv (run 0)"
  shows "inv (run i)"
proof (induction i)
  case (Suc i)
  then show ?case using assms(1) keeps [of "run i" "run (Suc i)"] unfolding weakly_fair_def by metis
qed (rule assms(2))

lemma run_reaches:
  assumes "weakly_fair next_step enabled moves run"
  shows "reaches next_step (run 0) (run i)"
proof (induction i)
  case (Suc i)
  then show ?case
    using assms reaches.step [of next_step "run 0" "run i" "run (Suc i)"] unfolding weakly_fair_def by metis
qed (rule reaches.start)

text \<open>The helpful thread: enabled while \<open>P\<close> lasts, and its move establishes \<open>Q\<close>.\<close>

lemma ensures:
  assumes fair: "weakly_fair next_step enabled moves run" and start: "inv (run 0)"
    and stays: "\<And>s u. inv s \<Longrightarrow> P s \<Longrightarrow> next_step s u \<Longrightarrow> P u \<or> Q u"
    and helps: "\<And>s u. inv s \<Longrightarrow> P s \<Longrightarrow> next_step s u \<Longrightarrow> moves t s u \<Longrightarrow> Q u"
    and ready: "\<And>s. inv s \<Longrightarrow> P s \<Longrightarrow> enabled t s"
  shows "leads_to run P Q"
proof -
  note inv = along_run [OF fair start]
  have next_step: "run (Suc j) = run j \<or> next_step (run j) (run (Suc j))" for j
    using fair unfolding weakly_fair_def by blast
  have "\<exists>j \<ge> i. Q (run j)" if p: "P (run i)" for i
  proof (rule ccontr)
    assume none: "\<not> (\<exists>j \<ge> i. Q (run j))"
    have lasts: "P (run (i + k))" for k
    proof (induction k)
      case (Suc k)
      have "\<not> Q (run (i + Suc k))" using none le_add1 by blast
      then show ?case using Suc next_step [of "i + k"] stays [OF inv Suc] by auto
    qed (simp add: p)
    obtain j where j: "i \<le> j" "\<not> enabled t (run j) \<or> moves t (run j) (run (Suc j))"
      using fair unfolding weakly_fair_def by blast
    have pj: "P (run j)" using lasts [of "j - i"] j(1) by simp
    then have m: "moves t (run j) (run (Suc j))" using j(2) ready [OF inv] by blast
    then have "next_step (run j) (run (Suc j))" using next_step [of j] no_stutter by metis
    then have "Q (run (Suc j))" by (rule helps [OF inv pj _ m])
    then show False using none j(1) le_Suc_eq by blast
  qed
  then show ?thesis by (simp add: leads_to_def)
qed

end

text \<open>An execution that ends where no thread is enabled is, with stuttering, a fair run.\<close>

lemma finished_execution_fair:
  assumes "reaches next_step s0 s" "\<And>t. \<not> enabled t s"
  shows "\<exists>run. run 0 = s0 \<and> weakly_fair next_step enabled moves run \<and> (\<exists>m. \<forall>i \<ge> m. run i = s)"
proof -
  have "\<exists>run m. run 0 = s0 \<and> (\<forall>i < m. next_step (run i) (run (Suc i))) \<and> (\<forall>i \<ge> m. run i = s)"
    using assms(1)
  proof (induction rule: reaches.induct)
    case start
    show ?case by (rule exI [of _ "\<lambda>_. s0"]) auto
  next
    case (step s u)
    then obtain run m where r: "run 0 = s0" "\<forall>i < m. next_step (run i) (run (Suc i))" "\<forall>i \<ge> m. run i = s" by blast
    have "run m = s" using r(3) by simp
    then show ?case using r step(2)
      by (intro exI [of _ "\<lambda>i. if i \<le> m then run i else u"] exI [of _ "Suc m"]) (auto simp: less_Suc_eq)
  qed
  then obtain run m where r: "run 0 = s0" "\<forall>i < m. next_step (run i) (run (Suc i))" "\<forall>i \<ge> m. run i = s" by blast
  have "run (Suc i) = run i \<or> next_step (run i) (run (Suc i))" for i
    using r by (cases "i < m") auto
  moreover have "\<exists>j \<ge> i. \<not> enabled t (run j) \<or> moves t (run j) (run (Suc j))" for t i
    using r(3) assms(2) [of t] by (intro exI [of _ "max i m"]) auto
  ultimately have "weakly_fair next_step enabled moves run" by (simp add: weakly_fair_def)
  then show ?thesis using r by blast
qed

end
