(* ===== verification/Fair_Pipeline.thy ===== *)
theory Fair_Pipeline
  imports Pipeline_Progress Fairness
begin

text \<open>
  The pipeline under a fair scheduler. Its threads are the capture thread, the main thread and the
  workers. A sleeping capture thread counts as unable to move, so the proof does not rest on spurious
  wake-ups; a waiting worker is able to move, since its waits are timed. Every fair run hands all
  packets to the analysis and ends with the pool joined.
\<close>

section \<open>Threads and their moves\<close>

datatype thread = Capturing | Joining | Working nat

fun thread_enabled :: "thread \<Rightarrow> 'a pipeline \<Rightarrow> bool" where
  "thread_enabled Capturing s = (case capture_pc s of CIdle \<Rightarrow> True | CWoken x \<Rightarrow> True | _ \<Rightarrow> False)"
| "thread_enabled Joining s = (case main_pc s of
     MJoinCapture \<Rightarrow> capture_pc s = CDone
   | MShutNotify \<Rightarrow> True
   | MJoinPool \<Rightarrow> list_all (\<lambda>w. w = WExit) (workers s)
   | MDone \<Rightarrow> False)"
| "thread_enabled (Working i) s = (i < length (workers s) \<and> workers s ! i \<noteq> WExit)"

fun thread_moves :: "thread \<Rightarrow> 'a pipeline \<Rightarrow> 'a pipeline \<Rightarrow> bool" where
  "thread_moves Capturing s t \<longleftrightarrow> main_pc t = main_pc s \<and> workers t = workers s \<and>
     (source t \<noteq> source s \<or> capture_pc t \<noteq> capture_pc s)"
| "thread_moves Joining s t \<longleftrightarrow> main_pc t \<noteq> main_pc s"
| "thread_moves (Working i) s t \<longleftrightarrow> i < length (workers s) \<and> workers t ! i \<noteq> workers s ! i"

lemma capturing_can_move:
  assumes "thread_enabled Capturing s"
  shows "\<exists>t. pipeline_step n l s t \<and> thread_moves Capturing s t"
proof (cases "capture_pc s")
  case CIdle
  show ?thesis
  proof (cases "source s")
    case Nil
    then show ?thesis using pipeline_step.cap_done [OF CIdle Nil] CIdle by fastforce
  next
    case (Cons x xs)
    show ?thesis
    proof (cases "push_ready (queue s)")
      case True
      have "thread_moves Capturing s (do_push x (s\<lparr>source := xs\<rparr>))"
        using Cons by (auto simp: do_push_def split: prod.splits)
      then show ?thesis using pipeline_step.cap_push [OF CIdle Cons True] by blast
    next
      case False
      then show ?thesis using pipeline_step.cap_block [OF CIdle Cons] CIdle by fastforce
    qed
  qed
next
  case (CWoken x)
  show ?thesis
  proof (cases "push_ready (queue s)")
    case True
    have "thread_moves Capturing s (do_push x (s\<lparr>queue := push_waited 0 (queue s)\<rparr>))"
      using CWoken by (auto simp: do_push_def split: prod.splits)
    then show ?thesis using pipeline_step.cap_retry [OF CWoken True] by blast
  next
    case False
    then show ?thesis using pipeline_step.cap_sleep [OF CWoken] CWoken by fastforce
  qed
qed (use assms in auto)

lemma joining_can_move:
  assumes "thread_enabled Joining s"
  shows "\<exists>t. pipeline_step n l s t \<and> thread_moves Joining s t"
proof (cases "main_pc s")
  case MJoinCapture
  then show ?thesis using pipeline_step.main_shutdown [OF MJoinCapture] assms by fastforce
next
  case MShutNotify
  then show ?thesis using pipeline_step.main_notify [OF MShutNotify] by fastforce
next
  case MJoinPool
  then show ?thesis using pipeline_step.main_join [OF MJoinPool] assms by fastforce
qed (use assms in auto)

lemma working_can_move:
  assumes "thread_enabled (Working i) s"
  shows "\<exists>t. pipeline_step n l s t \<and> thread_moves (Working i) s t"
proof -
  have i: "i < length (workers s)" "workers s ! i \<noteq> WExit" using assms by auto
  have moved: "\<exists>t. pipeline_step n l s t \<and> thread_moves (Working i) s t"
    if "pipeline_step n l s t" "workers t = (workers s)[i := w]" "w \<noteq> workers s ! i" for t w
    using i(1) that by (intro exI [of _ t]) simp
  have drained: "workers (do_drain n ns i s) = (workers s)[i := WNotify (take n (items (queue s))) (n < length (items (queue s)))]"
    for ns by (simp add: do_drain_def pop_drain_eq set_worker_def)
  show ?thesis
  proof (cases "workers s ! i")
    case WStart
    show ?thesis
      by (rule moved [OF pipeline_step.worker_enter [OF i(1) WStart]], simp add: set_worker_def WStart, simp add: set_worker_def WStart)
  next
    case WWait
    show ?thesis
    proof (cases "must_linger n l (queue s)")
      case True
      show ?thesis
        by (rule moved [OF pipeline_step.worker_linger [OF i(1) WWait True]], simp add: set_worker_def WWait, simp add: set_worker_def WWait)
    next
      case False
      show ?thesis by (rule moved [OF pipeline_step.worker_drain [OF i(1) WWait False] drained]) (simp add: WWait)
    qed
  next
    case WLinger
    show ?thesis by (rule moved [OF pipeline_step.worker_linger_drain [OF i(1) WLinger] drained]) (simp add: WLinger)
  next
    case (WNotify b lo)
    show ?thesis
      by (rule moved [OF pipeline_step.worker_notify [OF i(1) WNotify]], simp add: set_worker_def WNotify, simp add: set_worker_def WNotify)
  next
    case (WGot b)
    consider "b \<noteq> []" | "b = []" "is_finished (queue s)" | "b = []" "\<not> is_finished (queue s)" by blast
    then show ?thesis
    proof cases
      case 1
      show ?thesis
        by (rule moved [OF pipeline_step.worker_analyse [OF i(1) WGot 1]], simp add: do_analyse_def set_worker_def WGot, simp add: do_analyse_def set_worker_def WGot)
    next
      case 2
      show ?thesis
        by (rule moved [OF pipeline_step.worker_exit [OF i(1) WGot [unfolded 2(1)] 2(2)]], simp add: set_worker_def WGot, simp add: set_worker_def WGot)
    next
      case 3
      show ?thesis
        by (rule moved [OF pipeline_step.worker_again [OF i(1) WGot [unfolded 3(1)] 3(2)]], simp add: set_worker_def WGot, simp add: set_worker_def WGot)
    qed
  qed (use i in simp)
qed

lemma can_move: "thread_enabled t s \<Longrightarrow> \<exists>u. pipeline_step n l s u \<and> thread_moves t s u"
  using capturing_can_move joining_can_move working_can_move by (cases t) blast+

interpretation sched: fair_steps "pipeline_step n l" "\<lambda>s. 0 < n \<and> pipeline_inv cap packets n s" thread_enabled thread_moves
  for n l cap packets
proof unfold_locales
  show "\<not> thread_moves t s s" for t and s :: "'a pipeline" by (cases t) auto
qed (rule can_move)

section \<open>The capture thread gets through its source\<close>

text \<open>
  What the capture thread has left to do; no step of another thread changes it. While a packet is in
  flight and the queue is full, the pool's first worker is the helpful thread: \<open>to_drain\<close> counts its
  moves up to its next drain.
\<close>

definition capture_left :: "'a pipeline \<Rightarrow> nat" where
  "capture_left s = 4 * length (source s) +
     (case capture_pc s of CIdle \<Rightarrow> 1 | CBlocked x \<Rightarrow> 3 | CWoken x \<Rightarrow> 3 | CDone \<Rightarrow> 0)"

fun to_drain :: "'a worker_pc \<Rightarrow> nat" where
  "to_drain (WNotify b _) = 5"
| "to_drain (WGot b) = 4"
| "to_drain WStart = 3"
| "to_drain WWait = 2"
| "to_drain WLinger = 1"
| "to_drain WExit = 0"

definition in_push :: "'a pipeline \<Rightarrow> bool" where
  "in_push s \<longleftrightarrow> in_flight (capture_pc s) \<noteq> []"

lemma in_push_iff: "in_push s \<longleftrightarrow> (\<exists>x. capture_pc s = CBlocked x \<or> capture_pc s = CWoken x)"
  by (cases "capture_pc s") (auto simp: in_push_def)

lemma notify_keeps:
  "notify_not_full c = CIdle \<longleftrightarrow> c = CIdle" "notify_not_full c = CDone \<longleftrightarrow> c = CDone"
  "in_flight (notify_not_full c) = in_flight c" "notify_not_full c \<noteq> CBlocked x"
  by (cases c; simp add: notify_not_full_def)+

lemma step_capture_left:
  assumes "pipeline_step n l s t"
  shows "capture_left t < capture_left s \<or>
    capture_left t = capture_left s \<and> source t = source s \<and> in_flight (capture_pc t) = in_flight (capture_pc s) \<and>
      (capture_pc t = CIdle \<longleftrightarrow> capture_pc s = CIdle) \<and> (capture_pc t = CDone \<longleftrightarrow> capture_pc s = CDone)"
  using assms
  by (cases rule: pipeline_step.cases)
    (auto simp: capture_left_def pipeline_defs Let_def notify_keeps split: capture_pc.splits prod.splits)

text \<open>Room in the queue stays until the capture thread pushes.\<close>

lemma step_room:
  assumes "pipeline_step n l s t" "push_ready (queue s)"
  shows "push_ready (queue t) \<or> capture_left t < capture_left s"
  using assms
  by (cases rule: pipeline_step.cases)
    (auto simp: capture_left_def push_ready_def pipeline_defs Let_def)

lemma idle_progress:
  assumes "weakly_fair (pipeline_step n l) thread_enabled thread_moves run" "0 < n \<and> pipeline_inv cap packets n (run 0)"
  shows "leads_to run (\<lambda>s. capture_pc s = CIdle \<and> capture_left s = k) (\<lambda>s. capture_left s < k)"
proof (rule sched.ensures [OF assms, where t = Capturing])
  fix s u assume s: "capture_pc s = CIdle \<and> capture_left s = k" "pipeline_step n l s u"
  from step_capture_left [OF s(2)] s(1)
  show "capture_pc u = CIdle \<and> capture_left u = k \<or> capture_left u < k" by auto
  assume "thread_moves Capturing s u"
  with step_capture_left [OF s(2)] s(1) show "capture_left u < k" by auto
qed auto

lemma woken_progress:
  assumes "weakly_fair (pipeline_step n l) thread_enabled thread_moves run" "0 < n \<and> pipeline_inv cap packets n (run 0)"
  shows "leads_to run (\<lambda>s. capture_pc s = CWoken x \<and> push_ready (queue s) \<and> capture_left s = k) (\<lambda>s. capture_left s < k)"
proof (rule sched.ensures [OF assms, where t = Capturing])
  fix s u assume s: "capture_pc s = CWoken x \<and> push_ready (queue s) \<and> capture_left s = k" "pipeline_step n l s u"
  have kept: "capture_pc u = CWoken x \<or> capture_left u < k"
    using s(2,1) by (cases rule: pipeline_step.cases)
      (auto simp: capture_left_def pipeline_defs Let_def split: prod.splits)
  then show "capture_pc u = CWoken x \<and> push_ready (queue u) \<and> capture_left u = k \<or> capture_left u < k"
    using step_capture_left [OF s(2)] step_room [OF s(2)] s(1) by auto
  assume "thread_moves Capturing s u"
  then show "capture_left u < k" using kept step_capture_left [OF s(2)] s(1) by auto
qed auto

lemma notified_progress:
  assumes "weakly_fair (pipeline_step n l) thread_enabled thread_moves run" "0 < n \<and> pipeline_inv cap packets n (run 0)"
  shows "leads_to run
    (\<lambda>s. capture_pc s = CBlocked x \<and> push_ready (queue s) \<and> capture_left s = k \<and>
       j < length (workers s) \<and> wakes_capture (workers s ! j))
    (\<lambda>s. capture_left s < k \<or> capture_pc s = CWoken x \<and> push_ready (queue s) \<and> capture_left s = k)"
    (is "leads_to run ?P ?Q")
proof (rule sched.ensures [OF assms, where t = "Working j"])
  fix s u assume s: "?P s" "pipeline_step n l s u"
  have room: "push_ready (queue u) \<or> capture_left u < k" "capture_left u < k \<or> capture_left u = k"
    using step_room [OF s(2)] step_capture_left [OF s(2)] s(1) by auto
  have moved: "capture_pc u = CWoken x \<or>
      capture_pc u = CBlocked x \<and> length (workers u) = length (workers s) \<and> workers u ! j = workers s ! j"
    using s(2,1) by (cases rule: pipeline_step.cases)
      (auto simp: pipeline_defs Let_def nth_list_update split: prod.splits)
  then show "?P u \<or> ?Q u" using room s(1) by auto
  assume "thread_moves (Working j) s u"
  then show "?Q u" using moved room s(1) by auto
next
  show "thread_enabled (Working j) s" if "?P s" for s using that by (cases "workers s ! j") auto
qed

lemma room_progress:
  assumes "weakly_fair (pipeline_step n l) thread_enabled thread_moves run" "0 < n \<and> pipeline_inv cap packets n (run 0)"
  shows "leads_to run (\<lambda>s. in_push s \<and> push_ready (queue s) \<and> capture_left s = k) (\<lambda>s. capture_left s < k)"
proof -
  let ?R = "\<lambda>x s. capture_pc s = CWoken x \<and> push_ready (queue s) \<and> capture_left s = k"
  let ?B = "\<lambda>x j s. capture_pc s = CBlocked x \<and> push_ready (queue s) \<and> capture_left s = k \<and>
       j < length (workers s) \<and> wakes_capture (workers s ! j)"
  have "leads_to run (?B x j) (\<lambda>s. capture_left s < k)" for x j
    by (rule leads_to_cancel [OF notified_progress [OF assms] woken_progress [OF assms]])
  then have "leads_to run (\<lambda>s. \<exists>x. (\<exists>j. ?B x j s) \<or> ?R x s) (\<lambda>s. capture_left s < k)"
    using woken_progress [OF assms, of _ k] unfolding leads_to_def by blast
  then show ?thesis
  proof (rule leads_to_weaken)
    fix i assume p: "in_push (run i) \<and> push_ready (queue (run i)) \<and> capture_left (run i) = k"
    have "inv_wake (run i)" using sched.along_run [OF assms, of i] by (simp add: pipeline_inv_def)
    then show "\<exists>x. (\<exists>j. ?B x j (run i)) \<or> ?R x (run i)" using p by (auto simp: in_push_iff inv_wake_def)
  qed
qed

text \<open>
  A step keeps the queue full, its first worker where it was or nearer to its drain, unless it makes
  room or is the capture thread's.
\<close>

lemma full_step:
  assumes step: "pipeline_step n l s u" and inv: "0 < n \<and> pipeline_inv cap packets n s" and cap: "0 < cap"
    and full: "in_push s" "\<not> push_ready (queue s)"
  shows "push_ready (queue u) \<or> (workers u ! 0 = workers s ! 0 \<or> to_drain (workers u ! 0) < to_drain (workers s ! 0))"
proof -
  have q: "length (items (queue s)) \<le> capacity (queue s)" "items (queue s) \<noteq> []" "workers s \<noteq> []" "0 < n"
    using inv cap full(2) by (auto simp: pipeline_inv_def inv_fifo_def push_ready_def)
  have drain: "push_ready (queue (do_drain n ns i s))" for ns i
  proof -
    have "length (items (queue s)) - n < length (items (queue s))" using q(2,4) by (cases "items (queue s)") auto
    then have "length (items (queue s)) - n < capacity (queue s)" using q(1) by linarith
    then show ?thesis by (simp add: do_drain_def pop_drain_eq set_worker_def push_ready_def)
  qed
  from step show ?thesis
    using drain q full(2)
    by (cases rule: pipeline_step.cases)
      (auto simp: set_worker_def do_analyse_def nth_list_update is_finished_def do_push_def split: prod.splits)
qed

lemma full_progress:
  assumes fair: "weakly_fair (pipeline_step n l) thread_enabled thread_moves run"
    and start: "0 < n \<and> pipeline_inv cap packets n (run 0)" and cap: "0 < cap"
  shows "leads_to run (\<lambda>s. in_push s \<and> \<not> push_ready (queue s) \<and> capture_left s = k)
    (\<lambda>s. capture_left s < k \<or> in_push s \<and> push_ready (queue s) \<and> capture_left s = k)"
proof (rule leads_to_measure [where m = "\<lambda>s. to_drain (workers s ! 0)"])
  fix r
  let ?P = "\<lambda>s. in_push s \<and> \<not> push_ready (queue s) \<and> capture_left s = k"
  let ?G = "\<lambda>s. capture_left s < k \<or> in_push s \<and> push_ready (queue s) \<and> capture_left s = k"
  let ?d = "\<lambda>s. to_drain (workers s ! 0)"
  show "leads_to run (\<lambda>s. ?P s \<and> ?d s = r) (\<lambda>s. ?G s \<or> ?P s \<and> ?d s < r)"
  proof (rule sched.ensures [OF fair start, where t = "Working 0"])
    fix s u assume inv: "0 < n \<and> pipeline_inv cap packets n s" and s: "?P s \<and> ?d s = r" "pipeline_step n l s u"
    have push: "capture_left u < k \<or> in_push u \<and> capture_left u = k"
      using step_capture_left [OF s(2)] s(1) by (auto simp: in_push_def)
    note full = full_step [OF s(2) inv cap] s(1)
    then show "?P u \<and> ?d u = r \<or> ?G u \<or> ?P u \<and> ?d u < r" using push by auto
    assume "thread_moves (Working 0) s u"
    then show "?G u \<or> ?P u \<and> ?d u < r" using push full by auto
  next
    fix s assume inv: "0 < n \<and> pipeline_inv cap packets n s" and s: "?P s \<and> ?d s = r"
    have "items (queue s) \<noteq> []" using inv cap s by (auto simp: pipeline_inv_def push_ready_def)
    then have "WExit \<notin> set (workers s)" using inv by (auto simp: pipeline_inv_def inv_exit_def is_finished_def)
    moreover have "workers s ! 0 \<in> set (workers s)" "0 < length (workers s)"
      using inv by (simp_all add: pipeline_inv_def)
    ultimately have "workers s ! 0 \<noteq> WExit" by metis
    then show "thread_enabled (Working 0) s" using inv by (simp add: pipeline_inv_def)
  qed
qed

text \<open>So the capture thread returns.\<close>

lemma capture_finishes:
  assumes fair: "weakly_fair (pipeline_step n l) thread_enabled thread_moves run"
    and start: "0 < n \<and> pipeline_inv cap packets n (run 0)" and cap: "0 < cap"
  shows "leads_to run (\<lambda>s. True) (\<lambda>s. capture_pc s = CDone)"
proof (rule leads_to_measure [where m = capture_left])
  fix k
  have push: "leads_to run (\<lambda>s. in_push s \<and> capture_left s = k) (\<lambda>s. capture_left s < k)"
  proof (rule leads_to_cases [where C = "\<lambda>s. push_ready (queue s)"])
    show "leads_to run (\<lambda>s. (in_push s \<and> capture_left s = k) \<and> push_ready (queue s)) (\<lambda>s. capture_left s < k)"
      by (rule leads_to_weaken [OF room_progress [OF fair start]]) auto
    have "leads_to run (\<lambda>s. in_push s \<and> \<not> push_ready (queue s) \<and> capture_left s = k) (\<lambda>s. capture_left s < k)"
      by (rule leads_to_cancel [OF full_progress [OF fair start cap] room_progress [OF fair start]])
    then show "leads_to run (\<lambda>s. (in_push s \<and> capture_left s = k) \<and> \<not> push_ready (queue s)) (\<lambda>s. capture_left s < k)"
      by (rule leads_to_weaken) auto
  qed
  have "\<exists>j \<ge> i. capture_pc (run j) = CDone \<or> True \<and> capture_left (run j) < k" if "capture_left (run i) = k" for i
  proof (cases "capture_pc (run i)")
    case CIdle
    then show ?thesis using idle_progress [OF fair start, of k] that unfolding leads_to_def by blast
  next
    case CDone
    then show ?thesis by blast
  qed (use push that in \<open>auto simp: leads_to_def in_push_iff\<close>)
  then show "leads_to run (\<lambda>s. True \<and> capture_left s = k) (\<lambda>s. capture_pc s = CDone \<or> True \<and> capture_left s < k)"
    by (simp add: leads_to_def)
qed

section \<open>The main thread shuts the queue down and joins the pool\<close>

lemma shutdown_follows:
  assumes fair: "weakly_fair (pipeline_step n l) thread_enabled thread_moves run"
    and start: "0 < n \<and> pipeline_inv cap packets n (run 0)"
  shows "leads_to run (\<lambda>s. capture_pc s = CDone) (\<lambda>s. main_pc s \<noteq> MJoinCapture)"
proof -
  have "leads_to run (\<lambda>s. capture_pc s = CDone \<and> main_pc s = MJoinCapture) (\<lambda>s. main_pc s \<noteq> MJoinCapture)"
  proof (rule sched.ensures [OF fair start, where t = Joining])
    fix s u assume s: "capture_pc s = CDone \<and> main_pc s = MJoinCapture" "pipeline_step n l s u"
    have "capture_pc u = CDone" using s(2,1)
      by (cases rule: pipeline_step.cases) (auto simp: pipeline_defs notify_keeps Let_def split: prod.splits)
    then show "capture_pc u = CDone \<and> main_pc u = MJoinCapture \<or> main_pc u \<noteq> MJoinCapture" by blast
    assume "thread_moves Joining s u"
    then show "main_pc u \<noteq> MJoinCapture" using s(1) by simp
  qed simp
  then show ?thesis unfolding leads_to_def by blast
qed

lemma pool_joined:
  assumes fair: "weakly_fair (pipeline_step n l) thread_enabled thread_moves run"
    and start: "0 < n \<and> pipeline_inv cap packets n (run 0)"
  shows "leads_to run (\<lambda>s. main_pc s \<noteq> MJoinCapture) (\<lambda>s. main_pc s = MDone)"
proof (rule leads_to_measure [where m = work])
  fix k
  let ?G = "\<lambda>s. main_pc s = MDone \<or> main_pc s \<noteq> MJoinCapture \<and> work s < k"
  have helped: "leads_to run (\<lambda>s. main_pc s \<noteq> MJoinCapture \<and> work s = k \<and> thread_enabled t s) ?G" for t
  proof (rule sched.ensures [OF fair start, where t = t])
    fix s u assume inv: "0 < n \<and> pipeline_inv cap packets n s"
      and s: "main_pc s \<noteq> MJoinCapture \<and> work s = k \<and> thread_enabled t s" "pipeline_step n l s u"
    have "work u < work s" using shutdown_step_decreases [OF s(2)] inv s(1) by (auto simp: pipeline_inv_def)
    moreover have "main_pc u \<noteq> MJoinCapture"
      using s(2,1) by (cases rule: pipeline_step.cases) (auto simp: pipeline_defs Let_def split: prod.splits)
    ultimately have "?G u" using s(1) by simp
    then show "main_pc u \<noteq> MJoinCapture \<and> work u = k \<and> thread_enabled t u \<or> ?G u" "?G u" by blast+
  qed blast
  have "\<exists>t. thread_enabled t s" if "main_pc s \<noteq> MJoinCapture" "main_pc s \<noteq> MDone" for s :: "'a pipeline"
  proof (cases "main_pc s = MJoinPool \<and> \<not> list_all (\<lambda>w. w = WExit) (workers s)")
    case True
    then obtain i where "i < length (workers s)" "workers s ! i \<noteq> WExit" by (auto simp: list_all_length)
    then show ?thesis by (intro exI [of _ "Working i"]) simp
  next
    case False
    then show ?thesis using that by (intro exI [of _ Joining]) (cases "main_pc s"; simp)
  qed
  then show "leads_to run (\<lambda>s. main_pc s \<noteq> MJoinCapture \<and> work s = k) ?G"
    using helped unfolding leads_to_def by (metis order_refl)
qed

text \<open>
  Together: a fair run ends with the pool joined, and then every packet has been analysed.
\<close>

lemma fair_pipeline_finishes:
  assumes "weakly_fair (pipeline_step n l) thread_enabled thread_moves run" "run 0 = pipeline_start cap k packets"
    and "0 < n" "0 < cap"
  shows "\<exists>i. main_pc (run i) = MDone"
proof -
  have start: "0 < n \<and> pipeline_inv cap packets n (run 0)" using assms(2,3) start_inv by simp
  have "leads_to run (\<lambda>s. True) (\<lambda>s. main_pc s = MDone)"
    by (rule leads_to_trans [OF capture_finishes [OF assms(1) start assms(4)]
          leads_to_trans [OF shutdown_follows [OF assms(1) start] pool_joined [OF assms(1) start]]])
  then show ?thesis unfolding leads_to_def by blast
qed

end
