(* ===== verification/Wakeup_Progress.thy ===== *)
theory Wakeup_Progress
  imports Consumer_Wakeup Fair_Pipeline
begin

text \<open>
  The pipeline does not live on its timeouts. In the model with sleeping workers a thread asleep on a
  condition variable counts as unable to move until it is notified: fair runs may let a sleeper time
  out or wake spuriously, but need not. They end all the same, so \<open>push\<close>, \<open>pop_batch\<close> and \<open>shutdown\<close>
  notify often enough. Only the second wait of \<open>pop_batch\<close>, which collects a fuller batch, relies on its
  time limit.
\<close>

section \<open>Threads and their moves\<close>

definition wakeup_enabled :: "thread \<Rightarrow> 'a wakeup \<Rightarrow> bool" where
  "wakeup_enabled t w \<longleftrightarrow> (case t of
     Capturing \<Rightarrow> CaptureThread \<in> due w \<or> thread_enabled Capturing (threads w)
   | Joining \<Rightarrow> MainThread \<in> due w \<or> thread_enabled Joining (threads w)
   | Working i \<Rightarrow> WorkerThread i \<in> due w \<or> thread_enabled (Working i) (threads w) \<and> i \<notin> asleep w)"

definition wakeup_moves :: "thread \<Rightarrow> 'a wakeup \<Rightarrow> 'a wakeup \<Rightarrow> bool" where
  "wakeup_moves t w u \<longleftrightarrow> thread_moves t (threads w) (threads u) \<or> (case t of
     Capturing \<Rightarrow> (CaptureThread \<in> due w) \<noteq> (CaptureThread \<in> due u)
   | Joining \<Rightarrow> (MainThread \<in> due w) \<noteq> (MainThread \<in> due u)
   | Working i \<Rightarrow> (WorkerThread i \<in> due w) \<noteq> (WorkerThread i \<in> due u) \<or> i \<notin> asleep w \<and> i \<in> asleep u)"

lemma notify_one_due: "notify_one w u \<Longrightarrow> due u = due w"
  by (auto elim: notify_oneE)

lemma notify_one_exists: "\<exists>u. notify_one w u"
  by (cases "asleep w = {}") (blast intro: notify_one.intros)+

text \<open>A thread that is about to notify can do so.\<close>

lemma notifier_can_move:
  assumes "x \<in> due w" "\<And>u. notify_one (w\<lparr>due := due w - {x}\<rparr>) u \<Longrightarrow> wakeup_step n l w u"
  shows "\<exists>u. wakeup_step n l w u \<and> x \<notin> due u"
proof -
  obtain u where "notify_one (w\<lparr>due := due w - {x}\<rparr>) u" using notify_one_exists by blast
  then show ?thesis using assms(2) notify_one_due by fastforce
qed

lemma capturing_can_move_w:
  assumes "wakeup_enabled Capturing w"
  shows "\<exists>u. wakeup_step n l w u \<and> wakeup_moves Capturing w u"
proof (cases "CaptureThread \<in> due w")
  case True
  then show ?thesis
    using notifier_can_move [OF True wakeup_step.cap_notify [OF True]] by (auto simp: wakeup_moves_def)
next
  case False
  let ?s = "threads w"
  have moved: "\<exists>u. wakeup_step n l w u \<and> wakeup_moves Capturing w u"
    if "wakeup_step n l w u" "workers (threads u) = workers ?s" "main_pc (threads u) = main_pc ?s"
      "source (threads u) \<noteq> source ?s \<or> capture_pc (threads u) \<noteq> capture_pc ?s" for u
    using that by (intro exI [of _ u]) (simp add: wakeup_moves_def)
  have pushed: "capture_pc (do_push x s) = CIdle" "source (do_push x s) = source s" for x and s :: "'a pipeline"
    by (simp_all add: do_push_def split: prod.splits)
  show ?thesis
  proof (cases "capture_pc ?s")
    case CIdle
    show ?thesis
    proof (cases "source ?s")
      case Nil
      show ?thesis by (rule moved [OF wakeup_step.cap_done [OF False refl CIdle Nil]]) (simp_all add: CIdle)
    next
      case (Cons x xs)
      show ?thesis
      proof (cases "push_ready (queue ?s)")
        case True
        show ?thesis
          by (rule moved [OF wakeup_step.cap_push [OF False refl CIdle Cons True]])
            (simp_all add: do_push_fields pushed Cons)
      next
        case full: False
        show ?thesis
          by (rule moved [OF wakeup_step.cap_block [OF False refl CIdle Cons full]]) (simp_all add: CIdle)
      qed
    qed
  next
    case (CWoken x)
    show ?thesis
    proof (cases "push_ready (queue ?s)")
      case True
      show ?thesis
        by (rule moved [OF wakeup_step.cap_retry [OF refl CWoken True]]) (simp_all add: do_push_fields pushed CWoken)
    next
      case full: False
      show ?thesis by (rule moved [OF wakeup_step.cap_sleep [OF refl CWoken full]]) (simp_all add: CWoken)
    qed
  qed (use assms False in \<open>auto simp: wakeup_enabled_def\<close>)
qed

lemma joining_can_move_w:
  assumes "wakeup_enabled Joining w"
  shows "\<exists>u. wakeup_step n l w u \<and> wakeup_moves Joining w u"
proof (cases "MainThread \<in> due w")
  case True
  then show ?thesis using wakeup_step.main_notify_pop [OF True] by (fastforce simp: wakeup_moves_def)
next
  case False
  have moved: "\<exists>u. wakeup_step n l w u \<and> wakeup_moves Joining w u"
    if "wakeup_step n l w u" "main_pc (threads u) \<noteq> main_pc (threads w)" for u
    using that by (intro exI [of _ u]) (simp add: wakeup_moves_def)
  show ?thesis
  proof (cases "main_pc (threads w)")
    case MJoinCapture
    then show ?thesis using assms False
      by (intro moved [OF wakeup_step.main_shutdown [OF refl MJoinCapture]]) (auto simp: wakeup_enabled_def)
  next
    case MShutNotify
    show ?thesis by (rule moved [OF wakeup_step.main_notify_push [OF refl MShutNotify]]) (simp add: MShutNotify)
  next
    case MJoinPool
    then show ?thesis using assms False
      by (intro moved [OF wakeup_step.main_join [OF False refl MJoinPool]]) (auto simp: wakeup_enabled_def)
  qed (use assms False in \<open>auto simp: wakeup_enabled_def\<close>)
qed

lemma after_wait_pc:
  "\<exists>p. workers (after_wait n l ns i s) = (workers s)[i := p] \<and> (p = WLinger \<or> (\<exists>b lo. p = WNotify b lo))"
  by (auto simp: after_wait_def do_drain_def pop_drain_eq set_worker_def)

lemma enter_pop_pc:
  "\<exists>p. workers (threads (enter_pop n l ns i w)) = (workers (threads w))[i := p] \<and> p \<noteq> WStart"
proof -
  let ?s = "set_worker i WWait ((threads w)\<lparr>queue := pop_enter n (queue (threads w))\<rparr>)"
  obtain p where "workers (after_wait n l ns i ?s) = (workers ?s)[i := p]" "p \<noteq> WStart"
    using after_wait_pc [of n l ns i ?s] by auto
  then show ?thesis by (simp add: enter_pop_def Let_def set_worker_def) (metis worker_pc.distinct(1))
qed

lemma working_can_move_w:
  assumes "wakeup_enabled (Working i) w"
  shows "\<exists>u. wakeup_step n l w u \<and> wakeup_moves (Working i) w u"
proof (cases "WorkerThread i \<in> due w")
  case True
  then show ?thesis
    using notifier_can_move [OF True wakeup_step.worker_notify_pop [OF True]] by (auto simp: wakeup_moves_def)
next
  case False
  have i: "i < length (workers (threads w))" "workers (threads w) ! i \<noteq> WExit" "i \<notin> asleep w"
    using assms False by (auto simp: wakeup_enabled_def)
  have at_i: "worker_at i p w" if "workers (threads w) ! i = p" for p using i(1) that by (simp add: worker_at_def)
  have moved: "\<exists>u. wakeup_step n l w u \<and> wakeup_moves (Working i) w u"
    if "wakeup_step n l w u" "workers (threads u) = (workers (threads w))[i := p]" "p \<noteq> workers (threads w) ! i" for u p
    using that i(1) by (intro exI [of _ u]) (simp add: wakeup_moves_def)
  show ?thesis
  proof (cases "workers (threads w) ! i")
    case WStart
    obtain p where "workers (threads (enter_pop n l 0 i w)) = (workers (threads w))[i := p]" "p \<noteq> WStart"
      using enter_pop_pc by blast
    then show ?thesis using moved [OF wakeup_step.worker_enter [OF at_i [OF WStart]]] WStart by metis
  next
    case WWait
    obtain p where "workers (after_wait n l 0 i (threads w)) = (workers (threads w))[i := p]" "p \<noteq> WWait"
      using after_wait_pc [of n l 0 i "threads w"] by auto
    then show ?thesis
      using moved [OF wakeup_step.worker_go [OF at_i [OF WWait] i(3), of n l 0], of p] WWait by simp
  next
    case WLinger
    show ?thesis
      by (rule moved [OF wakeup_step.worker_linger_drain [OF at_i [OF WLinger]]],
          simp add: do_drain_def pop_drain_eq set_worker_def, simp add: WLinger)
  next
    case (WNotify b lo)
    show ?thesis
      by (rule moved [OF wakeup_step.worker_notify_push [OF refl at_i [OF WNotify]]],
          simp add: set_worker_def, simp add: WNotify)
  next
    case (WGot b)
    consider "b \<noteq> []" | "b = []" "is_finished (queue (threads w))" | "b = []" "\<not> is_finished (queue (threads w))"
      by blast
    then show ?thesis
    proof cases
      case 1
      show ?thesis
        by (rule moved [OF wakeup_step.worker_analyse [OF False at_i [OF WGot] 1]],
            simp add: do_analyse_def set_worker_def, simp add: WGot)
    next
      case 2
      show ?thesis
        by (rule moved [OF wakeup_step.worker_exit [OF False at_i [OF WGot [unfolded 2(1)]] 2(2)]],
            simp add: set_worker_def, simp add: WGot)
    next
      case 3
      show ?thesis
        by (rule moved [OF wakeup_step.worker_again [OF False at_i [OF WGot [unfolded 3(1)]] 3(2)]],
            simp add: set_worker_def, simp add: WGot)
    qed
  qed (use i in simp)
qed

section \<open>Who may be about to notify\<close>

definition notifiers_ok :: "'a wakeup \<Rightarrow> bool" where
  "notifiers_ok w \<longleftrightarrow> (\<forall>i. WorkerThread i \<in> due w \<longrightarrow> (\<exists>b. worker_at i (WGot b) w)) \<and>
     (MainThread \<in> due w \<longrightarrow> main_pc (threads w) = MJoinPool) \<and>
     (CaptureThread \<in> due w \<longrightarrow> capture_pc (threads w) = CIdle)"

text \<open>A worker step at \<open>i\<close> leaves the other workers in place.\<close>

lemma worker_elsewhere:
  assumes "workers (threads u) = (workers (threads w))[i := p]" "worker_at j q w" "j \<noteq> i"
  shows "worker_at j q u"
  using assms by (simp add: worker_at_def)

lemma notifiers_move:
  assumes "notifiers_ok w" "workers (threads u) = (workers (threads w))[i := p]" "due u \<subseteq> due w"
    "main_pc (threads u) = main_pc (threads w)" "WorkerThread i \<notin> due u"
    "capture_pc (threads u) = capture_pc (threads w)"
  shows "notifiers_ok u"
  using assms worker_elsewhere [OF assms(2)] unfolding notifiers_ok_def by (metis subsetD)

lemma not_got_not_due: "notifiers_ok w \<Longrightarrow> worker_at i p w \<Longrightarrow> (\<And>b. p \<noteq> WGot b) \<Longrightarrow> WorkerThread i \<notin> due w"
  by (auto simp: notifiers_ok_def worker_at_def)

lemma wakeup_step_notifiers:
  assumes "wakeup_step n l w u" "notifiers_ok w"
  shows "notifiers_ok u"
  using assms(1)
proof (cases rule: wakeup_step.cases)
  case (worker_enter i ns)
  obtain p where p: "workers (threads u) = (workers (threads w))[i := p]" using enter_pop_pc worker_enter(1) by metis
  have "due u = due w" "main_pc (threads u) = main_pc (threads w)" "capture_pc (threads u) = capture_pc (threads w)"
    using worker_enter
    by (simp_all add: enter_pop_def Let_def after_wait_def do_drain_def pop_drain_eq set_worker_def)
  then show ?thesis
    using notifiers_move [OF assms(2) p] not_got_not_due [OF assms(2) worker_enter(2)] by simp
next
  case (worker_go i ns)
  obtain p where p: "workers (threads u) = (workers (threads w))[i := p]"
    using after_wait_pc [of n l ns i "threads w"] worker_go(1) by auto
  then show ?thesis
    using worker_go notifiers_move [OF assms(2) p] not_got_not_due [OF assms(2) worker_go(2)]
    by (simp add: after_wait_def do_drain_def pop_drain_eq set_worker_def)
next
  case (worker_linger_drain i ns)
  then show ?thesis using not_got_not_due [OF assms(2) worker_linger_drain(2)]
    by (intro notifiers_move [OF assms(2), of _ i]) (auto simp: do_drain_def pop_drain_eq set_worker_def)
next
  case (worker_notify_push s i b left_over)
  then have "worker_at i (WGot b) u" by (simp add: worker_at_def set_worker_def)
  moreover have "worker_at j q u" if "worker_at j q w" "j \<noteq> i" for j q
    using worker_elsewhere [OF _ that] worker_notify_push by (simp add: set_worker_def)
  ultimately show ?thesis
    using assms(2) worker_notify_push
    by (auto simp: notifiers_ok_def set_worker_def notify_keeps split: if_splits) metis+
next
  case (worker_analyse i b)
  then show ?thesis by (intro notifiers_move [OF assms(2), of _ i]) (auto simp: do_analyse_def set_worker_def)
next
  case (worker_exit i)
  then show ?thesis by (intro notifiers_move [OF assms(2), of _ i]) (auto simp: set_worker_def)
next
  case (worker_again i)
  then show ?thesis by (intro notifiers_move [OF assms(2), of _ i]) (auto simp: set_worker_def)
qed (use assms(2) in \<open>auto simp: notifiers_ok_def worker_at_def push_and_wake_def do_push_fields notify_one_threads
      notify_one_due notify_keeps do_push_def split: prod.splits\<close>)

definition wakeup_inv :: "size_t \<Rightarrow> 'a list \<Rightarrow> size_t \<Rightarrow> 'a wakeup \<Rightarrow> bool" where
  "wakeup_inv cap packets n w \<longleftrightarrow> 0 < n \<and> pipeline_inv cap packets n (threads w) \<and>
     sleepers_waiting w \<and> packets_attended w \<and> shutdown_announced w \<and> notifiers_ok w"

lemma wakeup_step_inv:
  assumes "wakeup_step n l w u" "wakeup_inv cap packets n w"
  shows "wakeup_inv cap packets n u"
  using assms(2) wakeup_step_sleepers [OF assms(1)] wakeup_step_attended [OF assms(1)] wakeup_step_shutdown [OF assms(1)]
    wakeup_step_notifiers [OF assms(1)] reachable_inv [OF wakeup_step_simulated [OF assms(1)]]
  by (simp add: wakeup_inv_def)

lemma wakeup_start_inv: "0 < n \<Longrightarrow> wakeup_inv cap packets n (wakeup_start cap k packets)"
  using start_inv [of cap packets n k]
  by (simp add: wakeup_inv_def wakeup_start_def wakeup_invs notifiers_ok_def)

interpretation wake: fair_steps "wakeup_step n l" "wakeup_inv cap packets n" wakeup_enabled wakeup_moves
  for n l cap packets
proof unfold_locales
  show "wakeup_inv cap packets n u" if "wakeup_step n l w u" "wakeup_inv cap packets n w" for w u :: "'a wakeup"
    using that by (rule wakeup_step_inv)
  show "\<not> wakeup_moves t w w" for t and w :: "'a wakeup" by (cases t) (auto simp: wakeup_moves_def)
  show "\<exists>u. wakeup_step n l w u \<and> wakeup_moves t w u" if "wakeup_enabled t w" for t and w :: "'a wakeup"
    using that capturing_can_move_w joining_can_move_w working_can_move_w by (cases t) blast+
qed

section \<open>The capture thread gets through its source\<close>

text \<open>The capture thread's work, counting a notification it still has to make.\<close>

definition pushing_left :: "'a wakeup \<Rightarrow> nat" where
  "pushing_left w = 2 * capture_left (threads w) + (if CaptureThread \<in> due w then 1 else 0)"

lemma capture_left_reaches:
  assumes "pipeline_reachable n l s t"
  shows "capture_left t < capture_left s \<or>
    capture_left t = capture_left s \<and> in_flight (capture_pc t) = in_flight (capture_pc s) \<and>
      (capture_pc t = CIdle \<longleftrightarrow> capture_pc s = CIdle) \<and> (capture_pc t = CDone \<longleftrightarrow> capture_pc s = CDone)"
  using assms
proof (induction rule: reaches.induct)
  case (step s t)
  then show ?case using step_capture_left [of n l s t] by auto
qed simp

lemma room_reaches:
  assumes "pipeline_reachable n l s t" "push_ready (queue s)"
  shows "push_ready (queue t) \<or> capture_left t < capture_left s"
  using assms
proof (induction rule: reaches.induct)
  case (step t u)
  then show ?case using step_room [of n l t u] step_capture_left [of n l t u] capture_left_reaches [of n l s t] by fastforce
qed simp

text \<open>Only a push, which takes off more, makes the capture thread owe a notification.\<close>

lemma step_capture_due:
  assumes "wakeup_step n l w u" "CaptureThread \<in> due u" "CaptureThread \<notin> due w"
  shows "capture_left (threads u) < capture_left (threads w)"
  using assms
proof (cases rule: wakeup_step.cases)
  case (worker_enter i ns)
  then show ?thesis using assms by (auto simp: enter_pop_def Let_def)
qed (auto simp: push_and_wake_def capture_left_def do_push_def notify_one_due split: prod.splits if_splits)

lemma step_pushing_left:
  assumes "wakeup_step n l w u"
  shows "pushing_left u < pushing_left w \<or>
    pushing_left u = pushing_left w \<and> capture_left (threads u) = capture_left (threads w) \<and>
      in_flight (capture_pc (threads u)) = in_flight (capture_pc (threads w)) \<and>
      (capture_pc (threads u) = CIdle \<longleftrightarrow> capture_pc (threads w) = CIdle) \<and>
      (capture_pc (threads u) = CDone \<longleftrightarrow> capture_pc (threads w) = CDone) \<and>
      (CaptureThread \<in> due u \<longleftrightarrow> CaptureThread \<in> due w)"
  using capture_left_reaches [OF wakeup_step_simulated [OF assms]] step_capture_due [OF assms]
  by (auto simp: pushing_left_def)

lemma capturing_moves_left:
  assumes "wakeup_step n l w u" "wakeup_moves Capturing w u" "\<And>x. capture_pc (threads w) \<noteq> CBlocked x"
    "capture_pc (threads w) = CIdle \<or> push_ready (queue (threads w))"
  shows "pushing_left u < pushing_left w"
  using assms
proof (cases rule: wakeup_step.cases)
  case (worker_enter i ns)
  then show ?thesis using assms enter_pop_pc [of n l ns i w] 
    by (auto simp: wakeup_moves_def enter_pop_def Let_def worker_at_def after_wait_def do_drain_def pop_drain_eq set_worker_def
        split: if_splits)
next
  case (worker_notify_push s i b left_over)
  then have "workers (threads u) \<noteq> workers (threads w)"
    by (auto simp: worker_at_def set_worker_def list_update_same_conv)
  then show ?thesis using assms(2) worker_notify_push by (auto simp: wakeup_moves_def split: if_splits)
qed (auto simp: wakeup_moves_def pushing_left_def capture_left_def push_and_wake_def do_push_def after_wait_def do_drain_def
      pop_drain_eq set_worker_def do_analyse_def worker_at_def notify_one_due notify_one_threads
      split: prod.splits if_splits)

lemma idle_progress_w:
  assumes "weakly_fair (wakeup_step n l) wakeup_enabled wakeup_moves run" "wakeup_inv cap packets n (run 0)"
  shows "leads_to run (\<lambda>w. capture_pc (threads w) = CIdle \<and> pushing_left w = k) (\<lambda>w. pushing_left w < k)"
proof (rule wake.ensures [OF assms, where t = Capturing])
  fix w u assume w: "capture_pc (threads w) = CIdle \<and> pushing_left w = k" "wakeup_step n l w u"
  show "capture_pc (threads u) = CIdle \<and> pushing_left u = k \<or> pushing_left u < k"
    using step_pushing_left [OF w(2)] w(1) by auto
  assume "wakeup_moves Capturing w u"
  then show "pushing_left u < k" using capturing_moves_left [OF w(2)] w(1) by simp
qed (auto simp: wakeup_enabled_def)

text \<open>The capture thread stays woken until it acts.\<close>

lemma woken_reaches:
  assumes "pipeline_reachable n l s t" "capture_pc s = CWoken x" "push_ready (queue s)"
  shows "capture_left t < capture_left s \<or> capture_pc t = CWoken x \<and> push_ready (queue t)"
  using assms
proof (induction rule: reaches.induct)
  case (step t u)
  show ?case
  proof (cases "capture_left t < capture_left s")
    case True
    then show ?thesis using step_capture_left [OF step(2)] by auto
  next
    case False
    then have t: "capture_pc t = CWoken x" "push_ready (queue t)" "capture_left t = capture_left s"
      using step.IH [OF step.prems] capture_left_reaches [OF step(1)] by auto
    have "capture_left u < capture_left t \<or> capture_pc u = CWoken x"
      using step(2) t by (cases rule: pipeline_step.cases) (auto simp: capture_left_def pipeline_defs Let_def split: prod.splits)
    then show ?thesis using step_room [OF step(2) t(2)] t(3) by auto
  qed
qed simp

lemma woken_progress_w:
  assumes "weakly_fair (wakeup_step n l) wakeup_enabled wakeup_moves run" "wakeup_inv cap packets n (run 0)"
  shows "leads_to run (\<lambda>w. capture_pc (threads w) = CWoken x \<and> push_ready (queue (threads w)) \<and> pushing_left w = k)
    (\<lambda>w. pushing_left w < k)"
    (is "leads_to run ?P ?Q")
proof (rule wake.ensures [OF assms, where t = Capturing])
  fix w u assume w: "?P w" "wakeup_step n l w u"
  have "capture_left (threads u) < capture_left (threads w) \<longrightarrow> pushing_left u < pushing_left w"
    by (simp add: pushing_left_def)
  then show "?P u \<or> ?Q u"
    using woken_reaches [OF wakeup_step_simulated [OF w(2)]] step_pushing_left [OF w(2)] w(1) by auto
  assume "wakeup_moves Capturing w u"
  then show "?Q u" using capturing_moves_left [OF w(2)] w(1) by simp
qed (auto simp: wakeup_enabled_def)

lemma do_drain_workers: "workers (do_drain n ns i s) = (workers s)[i := WNotify (take n (items (queue s))) (n < length (items (queue s)))]"
  by (simp add: do_drain_def pop_drain_eq set_worker_def)

lemma notify_stays:
  assumes "wakeup_step n l w u" "worker_at j (WNotify b lo) w" "b \<noteq> []" "capture_pc (threads w) = CBlocked x"
  shows "capture_pc (threads u) = CWoken x \<or> worker_at j (WNotify b lo) u"
  using assms(1)
proof (cases rule: wakeup_step.cases)
  case (worker_enter i ns)
  obtain p where p: "workers (threads u) = (workers (threads w))[i := p]" using enter_pop_pc worker_enter(1) by metis
  have "j \<noteq> i" using assms(2) worker_enter(2) by (auto simp: worker_at_def)
  then show ?thesis using worker_elsewhere [OF p assms(2)] by simp
next
  case (worker_go i ns)
  obtain p where p: "workers (threads u) = (workers (threads w))[i := p]"
    using after_wait_pc [of n l ns i "threads w"] worker_go(1) by auto
  have "j \<noteq> i" using assms(2) worker_go(2) by (auto simp: worker_at_def)
  then show ?thesis using worker_elsewhere [OF p assms(2)] by simp
qed (use assms(2-4) in \<open>auto simp: worker_at_def push_and_wake_def do_push_fields notify_one_threads do_drain_workers
      set_worker_def do_analyse_def notify_not_full_def nth_list_update split: prod.splits\<close>)

lemma notified_progress_w:
  assumes "weakly_fair (wakeup_step n l) wakeup_enabled wakeup_moves run" "wakeup_inv cap packets n (run 0)"
  shows "leads_to run
    (\<lambda>w. capture_pc (threads w) = CBlocked x \<and> push_ready (queue (threads w)) \<and> pushing_left w = k \<and>
       worker_at j (WNotify b lo) w \<and> b \<noteq> [])
    (\<lambda>w. pushing_left w < k \<or> capture_pc (threads w) = CWoken x \<and> push_ready (queue (threads w)) \<and> pushing_left w = k)"
    (is "leads_to run ?P ?Q")
proof (rule wake.ensures [OF assms, where t = "Working j"])
  fix w u assume inv: "wakeup_inv cap packets n w" and w: "?P w" "wakeup_step n l w u"
  have room: "push_ready (queue (threads u)) \<or> pushing_left u < k"
    using room_reaches [OF wakeup_step_simulated [OF w(2)]] w(1) by (auto simp: pushing_left_def)
  have same: "pushing_left u < k \<or> pushing_left u = k \<and> in_flight (capture_pc (threads u)) = [x]"
    using step_pushing_left [OF w(2)] w(1) by auto
  have pc: "capture_pc (threads u) = CBlocked x \<or> capture_pc (threads u) = CWoken x" if "in_flight (capture_pc (threads u)) = [x]"
    using that by (cases "capture_pc (threads u)") auto
  have stays: "capture_pc (threads u) = CWoken x \<or> worker_at j (WNotify b lo) u"
    using notify_stays [OF w(2)] w(1) by blast
  then show "?P u \<or> ?Q u" using room same pc w(1) by blast
  assume move: "wakeup_moves (Working j) w u"
  have "\<not> worker_at j (WNotify b lo) u"
  proof
    assume at_j: "worker_at j (WNotify b lo) u"
    have "notifiers_ok w" "notifiers_ok u" "sleepers_waiting u"
      using inv wake.keeps [OF w(2) inv] by (simp_all add: wakeup_inv_def)
    then have "WorkerThread j \<notin> due w" "WorkerThread j \<notin> due u" "j \<notin> asleep u"
      using w(1) at_j by (auto simp: notifiers_ok_def sleepers_waiting_def worker_at_def)
    then show False using move w(1) at_j by (auto simp: wakeup_moves_def worker_at_def)
  qed
  then show "?Q u" using stays room same by blast
next
  fix w assume inv: "wakeup_inv cap packets n w" and w: "?P w"
  then have "j \<notin> asleep w" using not_asleep [of w j "WNotify b lo"] by (auto simp: wakeup_inv_def)
  then show "wakeup_enabled (Working j) w" using w by (auto simp: wakeup_enabled_def worker_at_def)
qed

lemma room_progress_w:
  assumes "weakly_fair (wakeup_step n l) wakeup_enabled wakeup_moves run" "wakeup_inv cap packets n (run 0)"
  shows "leads_to run (\<lambda>w. in_push (threads w) \<and> push_ready (queue (threads w)) \<and> pushing_left w = k) (\<lambda>w. pushing_left w < k)"
proof -
  let ?R = "\<lambda>x w. capture_pc (threads w) = CWoken x \<and> push_ready (queue (threads w)) \<and> pushing_left w = k"
  let ?B = "\<lambda>x j b lo w. capture_pc (threads w) = CBlocked x \<and> push_ready (queue (threads w)) \<and> pushing_left w = k \<and>
       worker_at j (WNotify b lo) w \<and> b \<noteq> []"
  have "leads_to run (?B x j b lo) (\<lambda>w. pushing_left w < k)" for x j b lo
    by (rule leads_to_cancel [OF notified_progress_w [OF assms] woken_progress_w [OF assms]])
  then have "leads_to run (\<lambda>w. \<exists>x. (\<exists>j b lo. ?B x j b lo w) \<or> ?R x w) (\<lambda>w. pushing_left w < k)"
    using woken_progress_w [OF assms, of _ k] unfolding leads_to_def by blast
  then show ?thesis
  proof (rule leads_to_weaken)
    fix i assume p: "in_push (threads (run i)) \<and> push_ready (queue (threads (run i))) \<and> pushing_left (run i) = k"
    have wake: "inv_wake (threads (run i))" using wake.along_run [OF assms, of i] by (simp add: wakeup_inv_def pipeline_inv_def)
    have "\<exists>b lo. worker_at j (WNotify b lo) (run i) \<and> b \<noteq> []"
      if "j < length (workers (threads (run i)))" "wakes_capture (workers (threads (run i)) ! j)" for j
      using that by (cases "workers (threads (run i)) ! j") (auto simp: worker_at_def)
    then show "\<exists>x. (\<exists>j b lo. ?B x j b lo (run i)) \<or> ?R x (run i)" using p wake
      by (auto simp: in_push_iff inv_wake_def) blast
  qed
qed

section \<open>A full queue is drained without a timeout\<close>

text \<open>The moves of worker \<open>i\<close> up to its next drain, notifications included.\<close>

definition drain_left :: "nat \<Rightarrow> 'a wakeup \<Rightarrow> nat" where
  "drain_left i w = 2 * to_drain (workers (threads w) ! i) + (if WorkerThread i \<in> due w then 1 else 0)"

lemma drain_room:
  assumes "items (queue s) \<noteq> []" "length (items (queue s)) \<le> capacity (queue s)" "0 < n"
  shows "push_ready (queue (do_drain n ns i s))"
proof -
  have "length (items (queue s)) - n < length (items (queue s))" using assms(1,3) by (cases "items (queue s)") auto
  then show ?thesis using assms(2) by (simp add: do_drain_def pop_drain_eq set_worker_def push_ready_def)
qed

text \<open>While the queue is full, an awake worker stays awake and comes nearer to its drain.\<close>

lemma awake_step:
  assumes step: "wakeup_step n l w u" and inv: "wakeup_inv cap packets n w" and full: "items (queue (threads w)) \<noteq> []"
    and i: "i < length (workers (threads w))" "i \<notin> asleep w"
  shows "push_ready (queue (threads u)) \<or> i \<notin> asleep u \<and>
    (drain_left i u < drain_left i w \<or> drain_left i u = drain_left i w \<and> \<not> wakeup_moves (Working i) w u)"
proof -
  have q: "length (items (queue (threads w))) \<le> capacity (queue (threads w))" "0 < n" "notifiers_ok w"
    "\<not> is_finished (queue (threads w))"
    using inv full by (simp_all add: wakeup_inv_def pipeline_inv_def inv_fifo_def is_finished_def)
  have drained: "push_ready (queue (do_drain n ns j s))"
    if "items (queue s) = items (queue (threads w))" "capacity (queue s) = capacity (queue (threads w))" for ns j s
    using drain_room [of s n ns j] full q(1,2) that by simp
  have lingers: "push_ready (queue (after_wait n l ns j s)) \<or> after_wait n l ns j s = set_worker j WLinger s"
    if "items (queue s) = items (queue (threads w))" "capacity (queue s) = capacity (queue (threads w))" for ns j s
    using drained [OF that] by (simp add: after_wait_def)
  from step show ?thesis
  proof (cases rule: wakeup_step.cases)
    case (worker_enter j ns)
    let ?s = "set_worker j WWait ((threads w)\<lparr>queue := pop_enter n (queue (threads w))\<rparr>)"
    have "pop_ready (queue ?s)" using full by (simp add: pop_ready_def pop_enter_def set_worker_def)
    then have u: "u = w\<lparr>threads := after_wait n l ns j ?s\<rparr>" using worker_enter(1) by (simp add: enter_pop_def Let_def)
    have "WorkerThread j \<notin> due w" using not_got_not_due [OF q(3) worker_enter(2)] by simp
    then show ?thesis using lingers [of ?s ns j] u worker_enter(2) i
      by (auto simp: set_worker_def pop_enter_def drain_left_def worker_at_def wakeup_moves_def nth_list_update)
  next
    case (worker_go j ns)
    then show ?thesis using lingers [of "threads w" ns j] i
      by (auto simp: set_worker_def drain_left_def worker_at_def wakeup_moves_def nth_list_update)
  next
    case (worker_linger_drain j ns)
    then show ?thesis using drained [of "threads w" ns j] by simp
  next
    case (worker_notify_push s j b left_over)
    then show ?thesis using i
      by (auto simp: set_worker_def drain_left_def worker_at_def wakeup_moves_def nth_list_update)
  next
    case (worker_analyse j b)
    then show ?thesis using i
      by (auto simp: set_worker_def do_analyse_def drain_left_def worker_at_def wakeup_moves_def nth_list_update)
  next
    case (worker_again j)
    then show ?thesis using i
      by (auto simp: set_worker_def drain_left_def worker_at_def wakeup_moves_def nth_list_update)
  next
    case (worker_sleep j)
    then show ?thesis using full by (simp add: pop_ready_def)
  qed (use i q(4) in \<open>auto simp: drain_left_def wakeup_moves_def push_and_wake_def do_push_fields notify_one_threads
      notify_one_due elim!: notify_oneE split: prod.splits\<close>)
qed

lemma full_items:
  assumes "wakeup_inv cap packets n w" "0 < cap" "\<not> push_ready (queue (threads w))"
  shows "items (queue (threads w)) \<noteq> []" "\<And>i. i < length (workers (threads w)) \<Longrightarrow> workers (threads w) ! i \<noteq> WExit"
proof -
  show ne: "items (queue (threads w)) \<noteq> []" using assms by (auto simp: wakeup_inv_def pipeline_inv_def push_ready_def)
  then have "WExit \<notin> set (workers (threads w))"
    using assms(1) by (auto simp: wakeup_inv_def pipeline_inv_def inv_exit_def is_finished_def)
  then show "\<And>i. i < length (workers (threads w)) \<Longrightarrow> workers (threads w) ! i \<noteq> WExit" by (metis nth_mem)
qed

lemma in_push_kept:
  assumes "wakeup_step n l w u" "in_push (threads w)"
  shows "pushing_left u < pushing_left w \<or> in_push (threads u) \<and> pushing_left u = pushing_left w"
  using step_pushing_left [OF assms(1)] assms(2) by (auto simp: in_push_def)

lemma awake_drains:
  assumes fair: "weakly_fair (wakeup_step n l) wakeup_enabled wakeup_moves run"
    and start: "wakeup_inv cap packets n (run 0)" and cap: "0 < cap"
  shows "leads_to run (\<lambda>w. in_push (threads w) \<and> \<not> push_ready (queue (threads w)) \<and> pushing_left w = k \<and>
      i < length (workers (threads w)) \<and> i \<notin> asleep w)
    (\<lambda>w. pushing_left w < k \<or> in_push (threads w) \<and> push_ready (queue (threads w)) \<and> pushing_left w = k)"
    (is "leads_to run ?P ?G")
proof (rule leads_to_measure [where m = "drain_left i"])
  fix r
  show "leads_to run (\<lambda>w. ?P w \<and> drain_left i w = r) (\<lambda>w. ?G w \<or> ?P w \<and> drain_left i w < r)"
  proof (rule wake.ensures [OF fair start, where t = "Working i"])
    fix w u assume inv: "wakeup_inv cap packets n w" and w: "?P w \<and> drain_left i w = r" "wakeup_step n l w u"
    note step = awake_step [OF w(2) inv full_items(1) [OF inv cap], of i] in_push_kept [OF w(2)]
    have len: "length (workers (threads u)) = length (workers (threads w))"
      using wakeup_step_simulated [OF w(2)]
      by (induction rule: reaches.induct) (auto dest: step_capacity)
    show "?P u \<and> drain_left i u = r \<or> ?G u \<or> ?P u \<and> drain_left i u < r" using step w(1) len by auto
    assume "wakeup_moves (Working i) w u"
    then show "?G u \<or> ?P u \<and> drain_left i u < r" using step w(1) len by auto
  next
    fix w assume "wakeup_inv cap packets n w" and "?P w \<and> drain_left i w = r"
    then show "wakeup_enabled (Working i) w" using full_items(2) [OF _ cap] by (auto simp: wakeup_enabled_def)
  qed
qed

text \<open>
  The workers cannot all be asleep: the packets are attended, and neither the capture thread, which is
  in its next \<open>push\<close>, nor the main thread has a notification to make.
\<close>

lemma full_awake:
  assumes inv: "wakeup_inv cap packets n w" and "items (queue (threads w)) \<noteq> []" "in_push (threads w)"
  shows "\<exists>i < length (workers (threads w)). i \<notin> asleep w"
proof (rule ccontr)
  assume "\<not> ?thesis"
  then have asleep: "i \<in> asleep w" if "i < length (workers (threads w))" for i using that by blast
  have ne: "0 < length (workers (threads w))" and src: "main_pc (threads w) = MJoinCapture"
    using inv assms(3) by (auto simp: wakeup_inv_def pipeline_inv_def inv_source_def in_push_iff)
  have "attended w" using inv assms(2) asleep [OF ne] by (auto simp: wakeup_inv_def packets_attended_def)
  then obtain x where x: "x \<in> due w" using asleep by (auto simp: attended_def)
  show False
  proof (cases x)
    case (WorkerThread i)
    then obtain b where "worker_at i (WGot b) w" using inv x by (auto simp: wakeup_inv_def notifiers_ok_def)
    then show ?thesis using asleep [of i] not_asleep [of w i "WGot b"] inv by (auto simp: wakeup_inv_def worker_at_def)
  qed (use inv x src assms(3) in \<open>auto simp: wakeup_inv_def notifiers_ok_def in_push_iff\<close>)
qed

lemma push_progress:
  assumes fair: "weakly_fair (wakeup_step n l) wakeup_enabled wakeup_moves run"
    and start: "wakeup_inv cap packets n (run 0)" and cap: "0 < cap"
  shows "leads_to run (\<lambda>w. in_push (threads w) \<and> pushing_left w = k) (\<lambda>w. pushing_left w < k)"
proof -
  let ?F = "\<lambda>i w. in_push (threads w) \<and> \<not> push_ready (queue (threads w)) \<and> pushing_left w = k \<and>
      i < length (workers (threads w)) \<and> i \<notin> asleep w"
  let ?R = "\<lambda>w. in_push (threads w) \<and> push_ready (queue (threads w)) \<and> pushing_left w = k"
  have "leads_to run (?F i) (\<lambda>w. pushing_left w < k)" for i
    by (rule leads_to_cancel [OF awake_drains [OF fair start cap] room_progress_w [OF fair start]])
  then have "leads_to run (\<lambda>w. (\<exists>i. ?F i w) \<or> ?R w) (\<lambda>w. pushing_left w < k)"
    using room_progress_w [OF fair start, of k] unfolding leads_to_def by blast
  then show ?thesis
  proof (rule leads_to_weaken)
    fix j assume p: "in_push (threads (run j)) \<and> pushing_left (run j) = k"
    note inv = wake.along_run [OF fair start, of j]
    show "(\<exists>i. ?F i (run j)) \<or> ?R (run j)"
      using p full_awake [OF inv] full_items(1) [OF inv cap] by blast
  qed
qed

lemma capture_finishes_w:
  assumes fair: "weakly_fair (wakeup_step n l) wakeup_enabled wakeup_moves run"
    and start: "wakeup_inv cap packets n (run 0)" and cap: "0 < cap"
  shows "leads_to run (\<lambda>w. True) (\<lambda>w. capture_pc (threads w) = CDone)"
proof (rule leads_to_measure [where m = pushing_left])
  fix k
  have "\<exists>j \<ge> i. capture_pc (threads (run j)) = CDone \<or> True \<and> pushing_left (run j) < k" if "pushing_left (run i) = k" for i
  proof (cases "capture_pc (threads (run i))")
    case CIdle
    then show ?thesis using idle_progress_w [OF fair start, of k] that unfolding leads_to_def by blast
  next
    case CDone
    then show ?thesis by blast
  qed (use push_progress [OF fair start cap, of k] that in \<open>auto simp: leads_to_def in_push_iff\<close>)
  then show "leads_to run (\<lambda>w. True \<and> pushing_left w = k)
      (\<lambda>w. capture_pc (threads w) = CDone \<or> True \<and> pushing_left w < k)"
    by (simp add: leads_to_def)
qed

section \<open>The shutdown reaches every sleeper\<close>

lemma shutdown_follows_w:
  assumes fair: "weakly_fair (wakeup_step n l) wakeup_enabled wakeup_moves run"
    and start: "wakeup_inv cap packets n (run 0)"
  shows "leads_to run (\<lambda>w. capture_pc (threads w) = CDone) (\<lambda>w. main_pc (threads w) \<noteq> MJoinCapture)"
proof -
  have "leads_to run (\<lambda>w. capture_pc (threads w) = CDone \<and> main_pc (threads w) = MJoinCapture)
      (\<lambda>w. main_pc (threads w) \<noteq> MJoinCapture)"
  proof (rule wake.ensures [OF fair start, where t = Joining])
    fix w u assume inv: "wakeup_inv cap packets n w" and step: "wakeup_step n l w u"
      and w: "capture_pc (threads w) = CDone \<and> main_pc (threads w) = MJoinCapture"
    have "source (threads w) = []" using inv w by (auto simp: wakeup_inv_def pipeline_inv_def inv_source_def)
    then have "capture_left (threads w) = 0" using w by (simp add: capture_left_def)
    then have "capture_pc (threads u) = CDone"
      using capture_left_reaches [OF wakeup_step_simulated [OF step]] w by auto
    then show "capture_pc (threads u) = CDone \<and> main_pc (threads u) = MJoinCapture \<or> main_pc (threads u) \<noteq> MJoinCapture"
      by blast
    have "MainThread \<notin> due w" "MainThread \<in> due u \<longrightarrow> main_pc (threads u) = MJoinPool"
      using inv wake.keeps [OF step inv] w by (auto simp: wakeup_inv_def notifiers_ok_def)
    moreover assume "wakeup_moves Joining w u"
    ultimately show "main_pc (threads u) \<noteq> MJoinCapture" using w by (auto simp: wakeup_moves_def)
  qed (simp add: wakeup_enabled_def)
  then show ?thesis unfolding leads_to_def by blast
qed

text \<open>After the shutdown every step decreases this number: nobody falls asleep any more.\<close>

definition winding_up :: "'a wakeup \<Rightarrow> nat" where
  "winding_up w = 3 * work (threads w) + card (due w) + card (asleep w)"

lemma finite_waiting:
  assumes "wakeup_inv cap packets n w"
  shows "finite (due w)" "finite (asleep w)"
proof -
  let ?n = "length (workers (threads w))"
  have "x \<in> {CaptureThread, MainThread} \<union> WorkerThread ` {..<?n}" if "x \<in> due w" for x
    using assms that by (cases x) (auto simp: wakeup_inv_def notifiers_ok_def worker_at_def)
  then show "finite (due w)" by (meson finite.emptyI finite.insertI finite_Un finite_imageI finite_lessThan finite_subset subsetI)
  have "asleep w \<subseteq> {..<?n}" using assms by (auto simp: wakeup_inv_def sleepers_waiting_def worker_at_def)
  then show "finite (asleep w)" by (rule finite_subset) simp
qed

lemma card_insert_le_Suc: "finite A \<Longrightarrow> card (insert x A) \<le> Suc (card A)"
  by (simp add: card_insert_if)

lemma work_reaches:
  assumes "pipeline_reachable n l s t" "pipeline_inv cap packets n s" "0 < n" "main_pc s \<noteq> MJoinCapture"
  shows "(work t < work s \<or> t = s) \<and> main_pc t \<noteq> MJoinCapture"
  using assms
proof (induction rule: reaches.induct)
  case (step t u)
  have inv: "pipeline_inv cap packets n t" by (rule reachable_inv [OF step(1) step.prems(1,2)])
  have down: "main_pc t \<noteq> MJoinCapture" using step by blast
  have "work u < work t" using shutdown_step_decreases [OF step(2) _ step.prems(2) down] inv by (auto simp: pipeline_inv_def)
  moreover have "main_pc u \<noteq> MJoinCapture"
    using step(2) down by (cases rule: pipeline_step.cases) (auto simp: pipeline_defs Let_def split: prod.splits)
  ultimately show ?case using step.IH [OF step.prems] by auto
qed simp

text \<open>What a step does to the sleepers and to the notifications that are due.\<close>

lemma step_waiting:
  assumes step: "wakeup_step n l w u" and inv: "wakeup_inv cap packets n w" and down: "main_pc (threads w) \<noteq> MJoinCapture"
  shows "asleep u \<subseteq> asleep w \<and> card (due u) \<le> Suc (card (due w)) \<and>
    (threads u = threads w \<longrightarrow> card (due u) + card (asleep u) < card (due w) + card (asleep w))"
proof -
  note fin = finite_waiting [OF inv]
  have sd: "shutdown_flag (queue (threads w))" "capture_pc (threads w) = CDone"
    using inv down by (simp_all add: wakeup_inv_def pipeline_inv_def inv_source_def)
  have moved: ?thesis
    if "workers (threads u) = (workers (threads w))[i := p]" "worker_at i q w" "p \<noteq> q" "asleep u \<subseteq> asleep w"
      "card (due u) \<le> Suc (card (due w))" for i p q
  proof -
    have "workers (threads u) ! i \<noteq> workers (threads w) ! i" using that(1-3) by (simp add: worker_at_def)
    then show ?thesis using that(4,5) by auto
  qed
  from step show ?thesis
  proof (cases rule: wakeup_step.cases)
    case cap_notify
    then show ?thesis using fin sd(2) inv by (auto simp: wakeup_inv_def notifiers_ok_def)
  next
    case (worker_notify_pop i)
    then have d: "due u = due w - {WorkerThread i}" "asleep u \<subseteq> asleep w"
      by (auto simp: notify_one_due elim!: notify_oneE)
    then show ?thesis using fin worker_notify_pop(1) card_mono [OF fin(2) d(2)] card_Diff1_less [OF fin(1)]
      by (auto simp: card_Diff_subset) (metis add_less_le_mono)
  next
    case main_notify_pop
    then show ?thesis using fin card_Diff1_less [OF fin(1), of MainThread] by (auto intro: le_SucI less_imp_le)
  next
    case (worker_wake i)
    then show ?thesis using card_Diff1_less [OF fin(2)] by auto
  next
    case (worker_sleep i)
    then show ?thesis using sd by (simp add: pop_ready_def)
  next
    case (worker_enter i ns)
    obtain p where p: "workers (threads u) = (workers (threads w))[i := p]" "p \<noteq> WStart"
      using enter_pop_pc worker_enter(1) by metis
    show ?thesis
      by (rule moved [OF p(1) worker_enter(2) p(2)])
        (use worker_enter(1) sd in \<open>simp_all add: enter_pop_def Let_def pop_ready_def pop_enter_def set_worker_def\<close>)
  next
    case (worker_go i ns)
    obtain p where p: "workers (threads u) = (workers (threads w))[i := p]" "p \<noteq> WWait"
      using after_wait_pc [of n l ns i "threads w"] worker_go(1) by auto
    show ?thesis by (rule moved [OF p(1) worker_go(2) p(2)]) (use worker_go(1) in simp_all)
  next
    case (worker_linger_drain i ns)
    then show ?thesis by (intro moved [OF _ worker_linger_drain(2)]) (auto simp: do_drain_workers)
  next
    case (worker_notify_push s i b left_over)
    then show ?thesis
      by (intro moved [OF _ worker_notify_push(3)]) (auto simp: set_worker_def card_insert_le_Suc fin)
  next
    case (worker_analyse i b)
    then show ?thesis by (intro moved [OF _ worker_analyse(3)]) (auto simp: set_worker_def do_analyse_def)
  next
    case (worker_exit i)
    then show ?thesis by (intro moved [OF _ worker_exit(3)]) (auto simp: set_worker_def)
  next
    case (worker_again i)
    then show ?thesis by (intro moved [OF _ worker_again(3)]) (auto simp: set_worker_def)
  next
    case (main_notify_push s)
    then have "main_pc (threads u) \<noteq> main_pc (threads w)" by simp
    then have "threads u \<noteq> threads w" by metis
    moreover have "asleep u = asleep w" "card (due u) \<le> Suc (card (due w))"
      using main_notify_push(1) fin by (simp_all add: card_insert_le_Suc)
    ultimately show ?thesis by blast
  next
    case (main_join s)
    then have "main_pc (threads u) \<noteq> main_pc (threads w)" by simp
    then have "threads u \<noteq> threads w" by metis
    then show ?thesis using main_join(1) by simp
  qed (use sd down in auto)
qed

lemma winding_up_decreases:
  assumes step: "wakeup_step n l w u" and inv: "wakeup_inv cap packets n w" and down: "main_pc (threads w) \<noteq> MJoinCapture"
  shows "winding_up u < winding_up w \<and> main_pc (threads u) \<noteq> MJoinCapture"
proof -
  have "pipeline_inv cap packets n (threads w)" "0 < n" using inv by (simp_all add: wakeup_inv_def)
  note work = work_reaches [OF wakeup_step_simulated [OF step] this down]
  note waiting = step_waiting [OF step inv down]
  have "card (asleep u) \<le> card (asleep w)" using waiting finite_waiting(2) [OF inv] by (simp add: card_mono)
  then have "winding_up u < winding_up w" using work waiting by (cases "threads u = threads w") (auto simp: winding_up_def)
  then show ?thesis using work by blast
qed

text \<open>As long as the pool is not joined, some thread is able to move.\<close>

lemma somebody_enabled:
  assumes inv: "wakeup_inv cap packets n w" and down: "main_pc (threads w) \<noteq> MJoinCapture" "main_pc (threads w) \<noteq> MDone"
  shows "\<exists>t. wakeup_enabled t w"
proof (cases "wakeup_enabled Joining w")
  case False
  then have quiet: "main_pc (threads w) = MJoinPool" "MainThread \<notin> due w"
    "\<not> list_all (\<lambda>p. p = WExit) (workers (threads w))"
    using down by (cases "main_pc (threads w)"; simp add: wakeup_enabled_def)+
  have "shutdown_flag (queue (threads w))"
    using inv down(1) by (simp add: wakeup_inv_def pipeline_inv_def inv_source_def)
  then have "asleep w = {}" using inv quiet(1,2) by (auto simp: wakeup_inv_def shutdown_announced_def)
  moreover obtain i where "i < length (workers (threads w))" "workers (threads w) ! i \<noteq> WExit"
    using quiet(3) by (auto simp: list_all_length)
  ultimately show ?thesis by (intro exI [of _ "Working i"]) (simp add: wakeup_enabled_def)
qed blast

lemma pool_joined_w:
  assumes fair: "weakly_fair (wakeup_step n l) wakeup_enabled wakeup_moves run"
    and start: "wakeup_inv cap packets n (run 0)"
  shows "leads_to run (\<lambda>w. main_pc (threads w) \<noteq> MJoinCapture) (\<lambda>w. main_pc (threads w) = MDone)"
proof (rule leads_to_measure [where m = winding_up])
  fix k
  let ?G = "\<lambda>w. main_pc (threads w) = MDone \<or> main_pc (threads w) \<noteq> MJoinCapture \<and> winding_up w < k"
  have helped: "leads_to run (\<lambda>w. main_pc (threads w) \<noteq> MJoinCapture \<and> winding_up w = k \<and> wakeup_enabled t w) ?G" for t
  proof (rule wake.ensures [OF fair start, where t = t])
    fix w u assume inv: "wakeup_inv cap packets n w" and step: "wakeup_step n l w u"
      and w: "main_pc (threads w) \<noteq> MJoinCapture \<and> winding_up w = k \<and> wakeup_enabled t w"
    have "?G u" using winding_up_decreases [OF step inv] w by simp
    then show "main_pc (threads u) \<noteq> MJoinCapture \<and> winding_up u = k \<and> wakeup_enabled t u \<or> ?G u" "?G u" by blast+
  qed blast
  have "\<exists>t. wakeup_enabled t (run i)"
    if "main_pc (threads (run i)) \<noteq> MJoinCapture" "main_pc (threads (run i)) \<noteq> MDone" for i
    using somebody_enabled [OF wake.along_run [OF fair start]] that by blast
  then show "leads_to run (\<lambda>w. main_pc (threads w) \<noteq> MJoinCapture \<and> winding_up w = k) ?G"
    using helped unfolding leads_to_def by (metis order_refl)
qed


text \<open>An execution with one packet and one worker, step by step.\<close>

definition sample_state :: "'a list \<Rightarrow> bool \<Rightarrow> 'a list \<Rightarrow> 'a capture_pc \<Rightarrow> 'a worker_pc \<Rightarrow> main_pc \<Rightarrow> u64 \<Rightarrow>
    'a list \<Rightarrow> 'a list \<Rightarrow> 'a list list \<Rightarrow> notifier set \<Rightarrow> 'a wakeup" where
  "sample_state its down src c p m num pu po an notifying =
     \<lparr>threads = \<lparr>queue = \<lparr>items = its, capacity = 1, wanted = 1, shutdown_flag = down, push_wait_ns = 0, pop_wait_ns = 0\<rparr>,
        source = src, capture_pc = c, workers = [p], main_pc = m, processed = num, batches = num,
        pushed = pu, popped = po, analysed = an\<rparr>, asleep = {}, due = notifying\<rparr>"

lemma sample_execution:
  "wakeup_reachable 1 0 (wakeup_start 1 1 [7 :: nat])
     (sample_state [] True [] CDone WExit MDone 1 [7] [7] [[7]] {})"
proof -
  let ?w0 = "sample_state [] False [7] CIdle WStart MJoinCapture 0 [] [] [] {} :: nat wakeup"
  let ?w1 = "sample_state [7] False [] CIdle WStart MJoinCapture 0 [7] [] [] {CaptureThread} :: nat wakeup"
  let ?w2 = "sample_state [7] False [] CIdle WStart MJoinCapture 0 [7] [] [] {} :: nat wakeup"
  let ?w3 = "sample_state [7] False [] CDone WStart MJoinCapture 0 [7] [] [] {} :: nat wakeup"
  let ?w4 = "sample_state [7] True [] CDone WStart MShutNotify 0 [7] [] [] {} :: nat wakeup"
  let ?w5 = "sample_state [7] True [] CDone WStart MJoinPool 0 [7] [] [] {MainThread} :: nat wakeup"
  let ?w6 = "sample_state [7] True [] CDone WStart MJoinPool 0 [7] [] [] {} :: nat wakeup"
  let ?w7 = "sample_state [] True [] CDone (WNotify [7] False) MJoinPool 0 [7] [7] [] {} :: nat wakeup"
  let ?w8 = "sample_state [] True [] CDone (WGot [7]) MJoinPool 0 [7] [7] [] {} :: nat wakeup"
  let ?w9 = "sample_state [] True [] CDone WStart MJoinPool 1 [7] [7] [[7]] {} :: nat wakeup"
  let ?w10 = "sample_state [] True [] CDone (WNotify [] False) MJoinPool 1 [7] [7] [[7]] {} :: nat wakeup"
  let ?w11 = "sample_state [] True [] CDone (WGot []) MJoinPool 1 [7] [7] [[7]] {} :: nat wakeup"
  let ?w12 = "sample_state [] True [] CDone WExit MJoinPool 1 [7] [7] [[7]] {} :: nat wakeup"
  let ?w13 = "sample_state [] True [] CDone WExit MDone 1 [7] [7] [[7]] {} :: nat wakeup"
  note defs = sample_state_def push_and_wake_def push_commit_def do_push_def push_now_def push_ready_def set_worker_def
    enter_pop_def after_wait_def do_drain_def pop_drain_eq pop_enter_def pop_ready_def must_linger_def worker_at_def
    queue_shutdown_def notify_not_full_def do_analyse_def is_finished_def Let_def
  have s0: "wakeup_start 1 1 [7] = ?w0"
    by (simp add: wakeup_start_def pipeline_start_def new_PacketQueue_def pool_size_def sample_state_def)
  have s1: "wakeup_step 1 0 ?w0 ?w1"
    using wakeup_step.cap_push [of ?w0 _ 7 "[]" 1 0] by (simp add: defs del: One_nat_def)
  have s2: "wakeup_step 1 0 ?w1 ?w2"
    by (rule wakeup_step.cap_notify) (auto simp: sample_state_def intro!: notify_one.wakes_nobody)
  have s3: "wakeup_step 1 0 ?w2 ?w3"
    using wakeup_step.cap_done [of ?w2 _ 1 0] by (simp add: defs del: One_nat_def)
  have s4: "wakeup_step 1 0 ?w3 ?w4"
    using wakeup_step.main_shutdown [of ?w3 _ 1 0] by (simp add: defs del: One_nat_def)
  have s5: "wakeup_step 1 0 ?w4 ?w5"
    using wakeup_step.main_notify_push [of ?w4 _ 1 0] by (simp add: defs del: One_nat_def)
  have s6: "wakeup_step 1 0 ?w5 ?w6"
    using wakeup_step.main_notify_pop [of ?w5 1 0] by (simp add: defs del: One_nat_def)
  have s7: "wakeup_step 1 0 ?w6 ?w7"
    using wakeup_step.worker_enter [of 0 ?w6 1 0 0] by (simp add: defs del: One_nat_def)
  have s8: "wakeup_step 1 0 ?w7 ?w8"
    using wakeup_step.worker_notify_push [of ?w7 _ 0 "[7]" False 1 0] by (simp add: defs del: One_nat_def)
  have s9: "wakeup_step 1 0 ?w8 ?w9"
    using wakeup_step.worker_analyse [of 0 ?w8 "[7]" 1 0] by (simp add: defs del: One_nat_def)
  have s10: "wakeup_step 1 0 ?w9 ?w10"
    using wakeup_step.worker_enter [of 0 ?w9 1 0 0] by (simp add: defs del: One_nat_def)
  have s11: "wakeup_step 1 0 ?w10 ?w11"
    using wakeup_step.worker_notify_push [of ?w10 _ 0 "[]" False 1 0] by (simp add: defs del: One_nat_def)
  have s12: "wakeup_step 1 0 ?w11 ?w12"
    using wakeup_step.worker_exit [of 0 ?w11 1 0] by (simp add: defs del: One_nat_def)
  have s13: "wakeup_step 1 0 ?w12 ?w13"
    using wakeup_step.main_join [of ?w12 _ 1 0] by (simp add: defs del: One_nat_def)
  note more = reaches.step [where next_step = "wakeup_step 1 0"]
  show ?thesis unfolding s0
    by (rule more [OF _ s13], rule more [OF _ s12], rule more [OF _ s11],
        rule more [OF _ s10], rule more [OF _ s9], rule more [OF _ s8],
        rule more [OF _ s7], rule more [OF _ s6], rule more [OF _ s5],
        rule more [OF _ s4], rule more [OF _ s3], rule more [OF _ s2],
        rule more [OF _ s1], rule reaches.start)
qed


end
