(* ===== verification/Fair_System.thy ===== *)
theory Fair_System
  imports Whole_System Fair_Pipeline
begin

text \<open>
  The whole program under a fair scheduler. A worker that analyses a batch takes a step per packet, so
  its moves are more than those of the pipeline; since a call of \<open>analyze_batch\<close> has finitely many, a
  fair run of the whole is still a fair run of the pipeline, and ends.
\<close>

section \<open>Moves of the whole\<close>

definition call_left :: "'w call option \<Rightarrow> nat" where
  "call_left slot = (case slot of None \<Rightarrow> 0 | Some c \<Rightarrow> Suc (length (call_rest c)))"

definition system_enabled :: "thread \<Rightarrow> 'w system \<Rightarrow> bool" where
  "system_enabled t s \<longleftrightarrow> thread_enabled t (pipe s)"

definition system_moves :: "thread \<Rightarrow> 'w system \<Rightarrow> 'w system \<Rightarrow> bool" where
  "system_moves t s u \<longleftrightarrow> thread_moves t (pipe s) (pipe u) \<or>
     (case t of Working i \<Rightarrow> i < length (calls (eng s)) \<and> call_left (calls (eng u) ! i) \<noteq> call_left (calls (eng s) ! i)
      | _ \<Rightarrow> False)"

lemma system_step_pipe:
  assumes "system_step n l h s u" "coupled s"
  shows "pipe u = pipe s \<or> pipeline_step n l (pipe s) (pipe u)"
  using assms(1)
proof (cases rule: system_step.cases)
  case (sys_finish i c b)
  then have "i < length (workers (pipe s))" "workers (pipe s) ! i = WGot b" "b \<noteq> []"
    using assms(2) by (auto simp: coupled_def)
  then show ?thesis using sys_finish by (auto intro: pipeline_step.worker_analyse)
qed auto

lemma step_analysed:
  assumes "pipeline_step n l s t"
  shows "analysed t = analysed s \<or> (\<exists>i b. i < length (workers s) \<and> workers s ! i = WGot b \<and> b \<noteq> [] \<and> t = do_analyse b i s)"
  using assms by (cases rule: pipeline_step.cases) (auto simp: do_push_def do_drain_def set_worker_def split: prod.splits)

text \<open>A move of the pipeline that is no return from the analysis is a move of the whole.\<close>

lemma lift_move:
  assumes "pipeline_step n l (pipe s) p" "thread_moves t (pipe s) p"
    and "\<And>i b. t = Working i \<Longrightarrow> workers (pipe s) ! i = WGot b \<Longrightarrow> b = []"
  shows "\<exists>u. system_step n l h s u \<and> system_moves t s u"
proof -
  have "analysed p = analysed (pipe s)"
  proof (rule ccontr)
    assume "analysed p \<noteq> analysed (pipe s)"
    then obtain i b where i: "i < length (workers (pipe s))" "workers (pipe s) ! i = WGot b" "b \<noteq> []"
      "p = do_analyse b i (pipe s)" using step_analysed [OF assms(1)] by blast
    then show False using assms(2,3)
      by (cases t) (auto simp: do_analyse_def set_worker_def nth_list_update list_update_same_conv split: if_splits)
  qed
  then show ?thesis
    using system_step.sys_pipe [OF assms(1)] assms(2) by (intro exI [of _ "s\<lparr>pipe := p\<rparr>"]) (auto simp: system_moves_def)
qed

lemma call_can_move:
  assumes "coupled s" "i < length (workers (pipe s))" "workers (pipe s) ! i = WGot b" "b \<noteq> []"
  shows "\<exists>u. system_step n l h s u \<and> system_moves (Working i) s u"
proof -
  have i: "i < length (calls (eng s))" using assms by (simp add: coupled_def)
  show ?thesis
  proof (cases "calls (eng s) ! i")
    case None
    show ?thesis
      by (intro exI conjI, rule system_step.sys_begin [OF assms(2-4) None])
        (use None i in \<open>simp add: system_moves_def begin_call_def Let_def call_left_def\<close>)
  next
    case (Some c)
    show ?thesis
    proof (cases "call_rest c")
      case Nil
      show ?thesis
        by (intro exI conjI, rule system_step.sys_finish [OF i Some Nil assms(3)])
          (use Some i in \<open>simp add: system_moves_def finish_call_def Let_def call_left_def\<close>)
    next
      case (Cons p rest)
      show ?thesis
        by (intro exI conjI, rule system_step.sys_inspect [OF i Some Cons], rule reorders_id)
          (use Some Cons i in \<open>simp add: system_moves_def inspect_next_def split_beta call_left_def\<close>)
    qed
  qed
qed

definition system_inv :: "size_t \<Rightarrow> QueuedPacket list \<Rightarrow> size_t \<Rightarrow> 'w system \<Rightarrow> bool" where
  "system_inv cap packets n s \<longleftrightarrow> 0 < n \<and> coupled s \<and> pipeline_inv cap packets n (pipe s)"

interpretation whole: fair_steps "system_step n l h" "system_inv cap packets n" system_enabled system_moves
  for n l h cap packets
proof unfold_locales
  show "system_inv cap packets n u" if "system_step n l h s u" "system_inv cap packets n s" for s u :: "'w system"
    using that system_step_pipe [OF that(1)] step_coupled [OF that(1)] step_inv unfolding system_inv_def by metis
  show "\<not> system_moves t s s" for t and s :: "'w system" by (cases t) (auto simp: system_moves_def)
  show "\<exists>u. system_step n l h s u \<and> system_moves t s u" if "system_inv cap packets n s" "system_enabled t s"
    for t and s :: "'w system"
  proof (cases "\<exists>i b. t = Working i \<and> workers (pipe s) ! i = WGot b \<and> b \<noteq> []")
    case True
    then show ?thesis using that call_can_move by (auto simp: system_inv_def system_enabled_def)
  next
    case False
    have "\<exists>p. pipeline_step n l (pipe s) p \<and> thread_moves t (pipe s) p"
      using that(2) can_move unfolding system_enabled_def by blast
    then show ?thesis using lift_move False by blast
  qed
qed

section \<open>A fair run of the whole is one of the pipeline\<close>

text \<open>A call of \<open>analyze_batch\<close> on \<open>b\<close> returns.\<close>

definition analysis_left :: "QueuedPacket list \<Rightarrow> 'w call option \<Rightarrow> nat" where
  "analysis_left b slot = (case slot of None \<Rightarrow> length b + 2 | Some c \<Rightarrow> Suc (length (call_rest c)))"

lemma analysis_step:
  assumes "system_step n l h s u" "coupled s" "workers (pipe s) ! i = WGot b" "b \<noteq> []" "i < length (workers (pipe s))"
  shows "workers (pipe u) ! i \<noteq> WGot b \<or>
    analysis_left b (calls (eng u) ! i) < analysis_left b (calls (eng s) ! i) \<or> calls (eng u) ! i = calls (eng s) ! i"
  using assms
  by (cases rule: system_step.cases)
    (auto simp: coupled_def begin_call_def inspect_next_def finish_call_def analysis_left_def do_analyse_def set_worker_def
      Let_def split_beta nth_list_update split: if_splits)

lemma analysis_returns:
  assumes fair: "weakly_fair (system_step n l h) system_enabled system_moves run" and start: "system_inv cap packets n (run 0)"
    and b: "b \<noteq> []"
  shows "leads_to run (\<lambda>s. i < length (workers (pipe s)) \<and> workers (pipe s) ! i = WGot b) (\<lambda>s. workers (pipe s) ! i \<noteq> WGot b)"
proof (rule leads_to_measure [where m = "\<lambda>s. analysis_left b (calls (eng s) ! i)"])
  fix k
  let ?P = "\<lambda>s. i < length (workers (pipe s)) \<and> workers (pipe s) ! i = WGot b"
  let ?m = "\<lambda>s. analysis_left b (calls (eng s) ! i)"
  show "leads_to run (\<lambda>s. ?P s \<and> ?m s = k) (\<lambda>s. workers (pipe s) ! i \<noteq> WGot b \<or> ?P s \<and> ?m s < k)"
  proof (rule whole.ensures [OF fair start, where t = "Working i"])
    fix s u assume inv: "system_inv cap packets n s" and p: "?P s \<and> ?m s = k" and step: "system_step n l h s u"
    have c: "coupled s" using inv by (simp add: system_inv_def)
    have len: "i < length (workers (pipe u))"
      using system_step_pipe [OF step c] step_capacity p by metis
    note moved = analysis_step [OF step c _ b, of i]
    show "?P u \<and> ?m u = k \<or> workers (pipe u) ! i \<noteq> WGot b \<or> ?P u \<and> ?m u < k" using moved p len by auto
    assume "system_moves (Working i) s u"
    then show "workers (pipe u) ! i \<noteq> WGot b \<or> ?P u \<and> ?m u < k"
      using moved p len by (auto simp: system_moves_def)
  qed (use b in \<open>auto simp: system_enabled_def\<close>)
qed

lemma calling:
  "coupled s \<Longrightarrow> i < length (calls (eng s)) \<Longrightarrow> calls (eng s) ! i = Some c \<Longrightarrow>
     workers (pipe s) ! i = WGot (call_batch c) \<and> call_batch c \<noteq> []"
  by (simp add: coupled_def)

lemma projection_fair:
  assumes fair: "weakly_fair (system_step n l h) system_enabled system_moves run" and start: "system_inv cap packets n (run 0)"
  shows "weakly_fair (pipeline_step n l) thread_enabled thread_moves (\<lambda>i. pipe (run i))"
proof -
  note inv = whole.along_run [OF fair start]
  have next_step: "run (Suc j) = run j \<or> system_step n l h (run j) (run (Suc j))" for j
    using fair unfolding weakly_fair_def by blast
  have served: "\<exists>j \<ge> p. \<not> system_enabled t (run j) \<or> system_moves t (run j) (run (Suc j))" for t p
    using fair unfolding weakly_fair_def by blast
  have working: "\<exists>j \<ge> p. \<not> thread_enabled (Working i) (pipe (run j)) \<or>
      thread_moves (Working i) (pipe (run j)) (pipe (run (Suc j)))" for i p
  proof (rule ccontr)
    assume "\<not> ?thesis"
    then have still: "thread_enabled (Working i) (pipe (run j))"
      "\<not> thread_moves (Working i) (pipe (run j)) (pipe (run (Suc j)))" if "p \<le> j" for j using that by blast+
    have same: "workers (pipe (run (p + k))) ! i = workers (pipe (run p)) ! i" for k
    proof (induction k)
      case (Suc k)
      then show ?case using still [of "p + k"] by simp
    qed simp
    obtain j where j: "p \<le> j" "system_moves (Working i) (run j) (run (Suc j))"
      using served [of p "Working i"] still(1) by (auto simp: system_enabled_def)
    have at_j: "workers (pipe (run j)) ! i = workers (pipe (run p)) ! i"
      "workers (pipe (run (Suc j))) ! i = workers (pipe (run p)) ! i"
      using same [of "j - p"] same [of "Suc j - p"] j(1) by simp_all
    have i: "i < length (calls (eng (run j)))" "call_left (calls (eng (run (Suc j))) ! i) \<noteq> call_left (calls (eng (run j)) ! i)"
      using j still(2) [OF j(1)] by (auto simp: system_moves_def)
    have len: "length (calls (eng (run m))) = length (workers (pipe (run m)))" "i < length (workers (pipe (run m)))" if "p \<le> m" for m
      using inv [of m] still(1) [OF that] by (auto simp: system_inv_def coupled_def)
    have "\<exists>b. workers (pipe (run p)) ! i = WGot b \<and> b \<noteq> []"
    proof (cases "calls (eng (run j)) ! i")
      case None
      then obtain c where "calls (eng (run (Suc j))) ! i = Some c"
        using i(2) by (auto simp: call_left_def split: option.splits)
      then show ?thesis using calling [of "run (Suc j)" i c] inv [of "Suc j"] len [of "Suc j"] j(1) at_j(2)
        by (simp add: system_inv_def)
    next
      case (Some c)
      then show ?thesis using calling [of "run j" i c] inv [of j] i(1) at_j(1) by (simp add: system_inv_def)
    qed
    then obtain b where b: "workers (pipe (run p)) ! i = WGot b" "b \<noteq> []" by blast
    obtain m where "p \<le> m" "workers (pipe (run m)) ! i \<noteq> WGot b"
      using analysis_returns [OF fair start b(2), of i] b(1) len(2) [of p] unfolding leads_to_def by blast
    then show False using same [of "m - p"] b(1) by simp
  qed
  have "\<exists>j \<ge> p. \<not> thread_enabled t (pipe (run j)) \<or> thread_moves t (pipe (run j)) (pipe (run (Suc j)))" for t p
  proof (cases t)
    case (Working i)
    then show ?thesis using working by simp
  qed (use served [of p t] in \<open>auto simp: system_enabled_def system_moves_def\<close>)
  moreover have "pipe (run (Suc j)) = pipe (run j) \<or> pipeline_step n l (pipe (run j)) (pipe (run (Suc j)))" for j
    using next_step [of j] system_step_pipe [of n l h "run j" "run (Suc j)"] inv [of j] by (auto simp: system_inv_def)
  ultimately show ?thesis by (simp add: weakly_fair_def)
qed

section \<open>The program ends\<close>

text \<open>
  C12. Under every fair scheduler the program comes to its end by itself: with a positive queue capacity and
  batch size (which \<open>main\<close> insists on), every run in which no thread that is able to move is passed over
  forever reaches the state in which the main thread has joined the pool, every captured packet has
  been analysed exactly once and inspected by the rules, and no analysis is in progress. A capture
  thread asleep in \<open>push\<close> is not taken to wake by itself, so no notification it needs is ever missing.
\<close>

theorem fair_runs_finish:
  assumes "weakly_fair (system_step n l h) system_enabled system_moves run" "run 0 = system_start cfg cap k packets"
    and "0 < n" "0 < cap"
  shows "\<exists>i. main_pc (pipe (run i)) = MDone \<and> mset (concat (analysed (pipe (run i)))) = mset packets \<and>
    mset (map snd (observed (eng (run i)))) = mset packets \<and> all_idle (eng (run i))"
proof -
  have start: "system_inv cap packets n (run 0)"
    using assms(2,3) start_coupled [of cfg cap k packets] start_inv [of cap packets n k]
    by (simp add: system_inv_def system_start_def)
  obtain i where i: "main_pc (pipe (run i)) = MDone"
    using fair_pipeline_finishes [OF projection_fair [OF assms(1) start], of cap k packets] assms(2-4)
    by (auto simp: system_start_def)
  have r: "system_reachable n l h (system_start cfg cap k packets) (run i)"
    using whole.run_reaches [OF assms(1)] assms(2) by metis
  have inv: "coupled (run i)" "pipeline_inv cap packets n (pipe (run i))"
    using whole.along_run [OF assms(1) start, of i] by (simp_all add: system_inv_def)
  note fin = finished_idle [OF inv i]
  note engine = reachable_engine_inv [OF system_projects [OF r, THEN conjunct2, THEN conjunct2]]
  have "sum_list (map uninspected (calls (eng (run i)))) = {#}"
    using fin(1) by (intro idle_sum) (simp_all add: uninspected_def)
  then have "mset (map snd (observed (eng (run i)))) = mset packets"
    using engine fin(2) by (simp add: engine_inv_def)
  then show ?thesis using i done_state(1) [OF inv(2) i] fin(1) by blast
qed

text \<open>
  A fair run of the whole program with three workers on a burst of packets, from an execution to the
  end.
\<close>

theorem fair_runs_finish_witness:
  "\<exists>run :: nat \<Rightarrow> ReadyEntropy system. \<exists>i. run 0 = system_start default_analysis_config 1 3 (map snd burst_run) \<and>
     mset (concat (analysed (pipe (run i)))) = mset (map snd burst_run)"
proof -
  let ?s0 = "system_start default_analysis_config 1 3 (map snd burst_run) :: ReadyEntropy system"
  obtain s where s: "system_reachable 2 5 (\<lambda>_. 0) ?s0 s" "main_pc (pipe s) = MDone"
    by (rule finished_run [of 2 1]) auto
  note proj = system_projects [OF s(1)]
  have inv: "pipeline_inv 1 (map snd burst_run) 2 (pipe s)"
    by (rule start_reachable_inv [OF proj [THEN conjunct2, THEN conjunct1]]) simp
  have "\<not> system_enabled t s" for t
    using inv s(2) by (cases t) (auto simp: system_enabled_def pipeline_inv_def inv_source_def inv_exit_def)
  then obtain run where run: "run 0 = ?s0" "weakly_fair (system_step 2 5 (\<lambda>_. 0)) system_enabled system_moves run"
    using finished_execution_fair [OF s(1)] by blast
  from fair_runs_finish [OF run(2,1)] obtain i where "mset (concat (analysed (pipe (run i)))) = mset (map snd burst_run)"
    by auto
  then show ?thesis using run(1) by blast
qed

end
