(* ===== verification/Gpu_Pool.thy ===== *)
theory Gpu_Pool
  imports Gpu_Backend
begin

text \<open>
  One \<open>MetalContext\<close> shared by all workers. The pool of buffer sets and the last error are behind
  mutexes; between taking a set and giving it back, a worker works on buffers no one else holds.
  Steps of the workers interleave in any order, allocations and commands may fail at any time, and
  a dispatch may be abandoned without a wait.
\<close>

section \<open>Sessions\<close>

text \<open>
  A worker uses no buffers, holds a set it is filling for the given payloads, or has a dispatch of
  them in flight.
\<close>

datatype gpu_slot = Unused | Holding "u8 list list" EntropyBufferSet | InFlight "u8 list list" PendingState

record gpu_session =
  shared_context :: MetalContext
  slots :: "gpu_slot list"

definition gpu_start :: "MetalContext \<Rightarrow> nat \<Rightarrow> gpu_session" where
  "gpu_start ctx k = \<lparr>shared_context = ctx, slots = replicate k Unused\<rparr>"

definition batch_fits :: "u8 list list \<Rightarrow> bool" where
  "batch_fits ps \<longleftrightarrow> length (concat ps) < 4294967296 \<and> length ps * 4 < size_modulus"

definition set_slot :: "nat \<Rightarrow> gpu_slot \<Rightarrow> MetalContext \<Rightarrow> gpu_session \<Rightarrow> gpu_session" where
  "set_slot i x ctx s = s\<lparr>shared_context := ctx, slots := (slots s)[i := x]\<rparr>"

inductive gpu_step :: "gpu_session \<Rightarrow> gpu_session \<Rightarrow> bool" where
  gpu_not_loaded: "i < length (slots s) \<Longrightarrow> slots s ! i = Unused \<Longrightarrow>
     find_pipeline ''payload_entropy'' (shared_context s) = (False, ctx) \<Longrightarrow> gpu_step s (set_slot i Unused ctx s)"
| gpu_take: "i < length (slots s) \<Longrightarrow> slots s ! i = Unused \<Longrightarrow> batch_fits ps \<Longrightarrow>
     find_pipeline ''payload_entropy'' (shared_context s) = (True, ctx) \<Longrightarrow> take_buffers ctx = (b, ctx') \<Longrightarrow>
     gpu_step s (set_slot i (Holding ps b) ctx' s)"
| gpu_commit: "i < length (slots s) \<Longrightarrow> slots s ! i = Holding ps b \<Longrightarrow> device_ok dev \<Longrightarrow>
     fill_and_commit dev ps b (shared_context s) = Inr (Some st, ctx) \<Longrightarrow> gpu_step s (set_slot i (InFlight ps st) ctx s)"
| gpu_refuse: "i < length (slots s) \<Longrightarrow> slots s ! i = Holding ps b \<Longrightarrow> device_ok dev \<Longrightarrow>
     fill_and_commit dev ps b (shared_context s) = Inr (None, ctx) \<Longrightarrow> gpu_step s (set_slot i Unused ctx s)"
| gpu_collect: "i < length (slots s) \<Longrightarrow> slots s ! i = InFlight ps st \<Longrightarrow> run_ok run \<Longrightarrow>
     gpu_wait run st (shared_context s) = Inr (r, st', ctx) \<Longrightarrow> gpu_step s (set_slot i (InFlight ps st') ctx s)"
| gpu_destroy: "i < length (slots s) \<Longrightarrow> slots s ! i = InFlight ps st \<Longrightarrow> run_ok run \<Longrightarrow>
     destroy_pending run st (shared_context s) = Inr ctx \<Longrightarrow> gpu_step s (set_slot i Unused ctx s)"

abbreviation gpu_reachable :: "gpu_session \<Rightarrow> gpu_session \<Rightarrow> bool" where
  "gpu_reachable \<equiv> reaches gpu_step"

section \<open>Invariant\<close>

definition slot_ok :: "gpu_slot \<Rightarrow> bool" where
  "slot_ok x = (case x of Unused \<Rightarrow> True | Holding ps b \<Rightarrow> bufset_ok b \<and> batch_fits ps
     | InFlight ps st \<Rightarrow> dispatch_ok ps st)"

definition sets_held :: "gpu_slot \<Rightarrow> nat" where
  "sets_held x = (if x = Unused then 0 else 1)"

definition session_inv :: "nat \<Rightarrow> gpu_session \<Rightarrow> bool" where
  "session_inv k s \<longleftrightarrow> length (slots s) = k \<and> pool_ok (shared_context s) \<and> list_all slot_ok (slots s) \<and>
     length (free_buffers (shared_context s)) + sum_list (map sets_held (slots s)) \<le> k"

lemma held_bound: "sum_list (map sets_held xs) \<le> length xs"
  by (induction xs) (auto simp: sets_held_def)

text \<open>A step on one slot keeps the invariant when the sets it gives up or takes balance with the pool.\<close>

lemma set_slot_inv:
  assumes "session_inv k s" "i < length (slots s)" "slot_ok x" "pool_ok ctx"
    and "length (free_buffers ctx) + sets_held x \<le> length (free_buffers (shared_context s)) + sets_held (slots s ! i) \<or>
      length (free_buffers ctx) = 0"
  shows "session_inv k (set_slot i x ctx s)"
proof -
  have "sum_list (map sets_held ((slots s)[i := x])) + sets_held (slots s ! i) = sum_list (map sets_held (slots s)) + sets_held x"
    using assms(2) by (rule sum_list_map_update)
  moreover have "sum_list (map sets_held ((slots s)[i := x])) \<le> k"
    using held_bound [of "(slots s)[i := x]"] assms(1) by (simp add: session_inv_def)
  moreover have "list_all slot_ok ((slots s)[i := x])"
    using assms(1,3) by (auto simp: session_inv_def list_all_iff dest!: set_update_subset_insert [THEN subsetD])
  ultimately show ?thesis using assms by (auto simp: session_inv_def set_slot_def)
qed

lemma slot_ok_nth: "session_inv k s \<Longrightarrow> i < length (slots s) \<Longrightarrow> slot_ok (slots s ! i)"
  by (simp add: session_inv_def list_all_length)

lemma gpu_step_inv:
  assumes "gpu_step s t" "session_inv k s"
  shows "session_inv k t"
proof -
  have pool: "pool_ok (shared_context s)" using assms(2) by (simp add: session_inv_def)
  show ?thesis
    using assms(1)
  proof (cases rule: gpu_step.cases)
    case (gpu_not_loaded i ctx)
    then have "free_buffers ctx = free_buffers (shared_context s)"
      by (auto simp: find_pipeline_def set_error_def split: if_splits)
    then show ?thesis using gpu_not_loaded pool
      by (auto simp: pool_ok_def slot_ok_def intro!: set_slot_inv [OF assms(2)])
  next
    case (gpu_take i ps ctx b ctx')
    have ctx: "ctx = shared_context s" using gpu_take by (auto simp: find_pipeline_def split: if_splits)
    have "pool_ok ctx" using assms(2) ctx by (simp add: session_inv_def)
    from take_buffers_ok [OF this gpu_take(6)] gpu_take show ?thesis
      by (auto simp: slot_ok_def sets_held_def ctx max_def split: if_splits intro!: set_slot_inv [OF assms(2)])
  next
    case (gpu_commit i ps b dev st ctx)
    have b: "bufset_ok b" "length (concat ps) < 4294967296" "length ps * 4 < size_modulus"
      using slot_ok_nth [OF assms(2) gpu_commit(2)] gpu_commit by (simp_all add: slot_ok_def batch_fits_def)
    have "ctx = shared_context s \<and> dispatch_ok ps st"
      by (rule fill_and_commit_correct [OF gpu_commit(4) b, of "shared_context s"]) (use gpu_commit(5) in auto)
    then show ?thesis using gpu_commit pool
      by (auto simp: slot_ok_def sets_held_def intro!: set_slot_inv [OF assms(2)])
  next
    case (gpu_refuse i ps b dev ctx)
    have b: "bufset_ok b" "length (concat ps) < 4294967296" "length ps * 4 < size_modulus"
      using slot_ok_nth [OF assms(2) gpu_refuse(2)] gpu_refuse by (simp_all add: slot_ok_def batch_fits_def)
    have "\<exists>b' e. bufset_ok b' \<and> ctx = return_buffers b' (set_error e (shared_context s))"
      by (rule fill_and_commit_correct [OF gpu_refuse(4) b, of "shared_context s"]) (use gpu_refuse(5) in auto)
    then show ?thesis using gpu_refuse pool
      by (auto simp: slot_ok_def sets_held_def return_buffers_def set_error_def pool_ok_def
          intro!: set_slot_inv [OF assms(2)])
  next
    case (gpu_collect i ps st run r st' ctx)
    have st: "dispatch_ok ps st" using slot_ok_nth [OF assms(2) gpu_collect(2)] gpu_collect by (simp add: slot_ok_def)
    from gpu_wait_ok [OF st gpu_collect(4), of "shared_context s"] gpu_collect(5)
    have "dispatch_ok ps st'" "free_buffers ctx = free_buffers (shared_context s)" by auto
    then show ?thesis using gpu_collect pool
      by (auto simp: slot_ok_def sets_held_def pool_ok_def intro!: set_slot_inv [OF assms(2)])
  next
    case (gpu_destroy i ps st run ctx)
    have st: "dispatch_ok ps st" using slot_ok_nth [OF assms(2) gpu_destroy(2)] gpu_destroy by (simp add: slot_ok_def)
    from destroy_pending_ok [OF st gpu_destroy(4), of "shared_context s"] gpu_destroy(5)
    obtain b where "bufset_ok b" "ctx = return_buffers b (shared_context s)" by auto
    then show ?thesis using gpu_destroy pool
      by (auto simp: slot_ok_def sets_held_def return_buffers_def pool_ok_def intro!: set_slot_inv [OF assms(2)])
  qed
qed

lemma gpu_start_inv: "pool_ok ctx \<Longrightarrow> length (free_buffers ctx) \<le> k \<Longrightarrow> session_inv k (gpu_start ctx k)"
  by (simp add: session_inv_def gpu_start_def slot_ok_def sets_held_def list_all_iff sum_list_replicate)

interpretation session: step_invariant gpu_step "session_inv k" for k
  by unfold_locales (rule gpu_step_inv)

section \<open>What the workers can rely on\<close>



end
