(* ===== verification/Bench_Analysis.thy ===== *)
theory Bench_Analysis
  imports Command_Line
begin

text \<open>
  \<open>src/bench/bench_analysis.cpp\<close>: the option parser, the thread counts to measure, the median, and
  \<open>run_rule\<close>, where threads take batches of packets from a shared counter. A turn of a thread takes
  one number from the counter and processes that batch; a schedule is the list of threads in the
  order of their turns. The measurements and the tables are in \<open>Bench_Reports\<close>.
\<close>

section \<open>Options, medians and thread counts\<close>

text \<open>
  \<open>strtol\<close> is \<open>strtoll\<close>, \<open>long\<close> having 64 bits; \<open>errno\<close> is not read. A refused argument gives the text
  written to \<open>stderr\<close>. The benchmarks differ in the least number they accept.
\<close>

definition parse_count :: "int \<Rightarrow> string \<Rightarrow> string \<Rightarrow> int \<Rightarrow> string + int" where
  "parse_count least text flag most =
     (let refused = Inl (flag @ '' expects a number from '' @ dec_int least @ '' to '' @ dec_int most @ [CHR 0x0A])
      in case strtoll text of
           None \<Rightarrow> refused
         | Some (value, rest, erange) \<Rightarrow> if rest \<noteq> [] \<or> value < least \<or> value > most then refused else Inr value)"

record analysis_bench_options =
  ab_path :: string
  ab_batch_size :: size_t
  ab_reps :: int
  ab_max_threads :: size_t

definition analysis_bench_defaults :: "nat \<Rightarrow> analysis_bench_options" where
  "analysis_bench_defaults cores = \<lparr>ab_path = [], ab_batch_size = 256, ab_reps = 5,
     ab_max_threads = (if cores > 0 then cores else 4)\<rparr>"

definition analysis_bench_usage :: "string \<Rightarrow> string" where
  "analysis_bench_usage argv0 =
     ''usage: '' @ argv0 @ '' [-b batch] [--reps N] [--max-threads N] capture.pcap'' @ [CHR 0x0A]"

fun analysis_bench_args :: "string \<Rightarrow> string list \<Rightarrow> analysis_bench_options \<Rightarrow> string + analysis_bench_options" where
  "analysis_bench_args argv0 [] opts = Inr opts"
| "analysis_bench_args argv0 (arg # rest) opts =
     (let path_or_fail = (if arg \<noteq> [] \<and> hd arg \<noteq> CHR ''-'' \<and> ab_path opts = []
                          then analysis_bench_args argv0 rest (opts\<lparr>ab_path := arg\<rparr>)
                          else Inl (analysis_bench_usage argv0))
      in case rest of
           [] \<Rightarrow> path_or_fail
         | text # rest' \<Rightarrow>
             if arg = ''-b'' then
               and_then (parse_count 1 text ''-b'' 1048576)
                 (\<lambda>v. analysis_bench_args argv0 rest' (opts\<lparr>ab_batch_size := nat v\<rparr>))
             else if arg = ''--reps'' then
               and_then (parse_count 1 text ''--reps'' 1000)
                 (\<lambda>v. analysis_bench_args argv0 rest' (opts\<lparr>ab_reps := v\<rparr>))
             else if arg = ''--max-threads'' then
               and_then (parse_count 1 text ''--max-threads'' 256)
                 (\<lambda>v. analysis_bench_args argv0 rest' (opts\<lparr>ab_max_threads := nat v\<rparr>))
             else path_or_fail)"

text \<open>Reading the middle of an empty vector has no defined result.\<close>

definition median :: "real list \<Rightarrow> real option" where
  "median v =
     (let s = sort v; n = length s in
      if n mod 2 = 1 then Some (s ! (n div 2))
      else if n = 0 then None
      else Some ((s ! (n div 2 - 1) + s ! (n div 2)) / 2))"

function doublings :: "nat \<Rightarrow> nat \<Rightarrow> nat list" where
  "doublings t most = (if 0 < t \<and> t < most then t # doublings (t * 2) most else [])"
  by pat_completeness auto
termination
  by (relation "measure (\<lambda>(t, most). most - t)") auto

declare doublings.simps [simp del]

definition thread_counts :: "nat \<Rightarrow> nat list" where
  "thread_counts max_threads =
     remdups_adj (sort (doublings 1 max_threads @ (if max_threads > 2 then [max_threads - 1] else []) @ [max_threads]))"

section \<open>Running a rule\<close>

datatype Rule = kEntropy | kSignature | kFlow | kAll

definition kEntropyMinPayload :: size_t where "kEntropyMinPayload = 32"

text \<open>A thread's local vectors and its private sum; what the threads share.\<close>

record bench_thread =
  bt_batch :: "QueuedPacket list"
  bt_entropies :: "real list"
  bt_sink :: u64

record bench_shared =
  bs_packets :: "QueuedPacket list"
  bs_flow :: FlowTracker
  bs_engine :: AnalysisEngine
  bs_alerts :: u64

text \<open>\<open>batch.resize\<close>, and the two swapping loops around \<open>analyze_batch\<close>.\<close>

definition resize :: "nat \<Rightarrow> QueuedPacket list \<Rightarrow> QueuedPacket list" where
  "resize n b = take n b @ replicate (n - length b) \<lparr>meta = default_packet, qpayload = []\<rparr>"

definition swap_in :: "QueuedPacket list \<Rightarrow> QueuedPacket list \<Rightarrow> QueuedPacket list \<times> QueuedPacket list" where
  "swap_in b ps = (map2 (\<lambda>x p. x\<lparr>meta := meta p, qpayload := qpayload p\<rparr>) b ps, map2 (\<lambda>x p. p\<lparr>qpayload := qpayload x\<rparr>) b ps)"

definition swap_out :: "QueuedPacket list \<Rightarrow> QueuedPacket list \<Rightarrow> QueuedPacket list \<times> QueuedPacket list" where
  "swap_out b ps = (map2 (\<lambda>x p. x\<lparr>qpayload := qpayload p\<rparr>) b ps, map2 (\<lambda>x p. p\<lparr>qpayload := qpayload x\<rparr>) b ps)"

definition put_slice :: "nat \<Rightarrow> 'a list \<Rightarrow> 'a list \<Rightarrow> 'a list" where
  "put_slice first new xs = take first xs @ new @ drop (first + length new) xs"

text \<open>
  The body of the switch on the packets \<open>first\<close> to \<open>last\<close> (excluded). \<open>visit\<close> gives the order in which
  a sweep during packet \<open>i\<close> meets the table. Stale values of \<open>entropies\<close> are counted again when a batch
  has no eligible payload, as in the code.
\<close>

definition rule_body :: "Rule \<Rightarrow> (nat \<Rightarrow> visit_order) \<Rightarrow> (u32 \<Rightarrow> u64) \<Rightarrow> nat \<Rightarrow> nat \<Rightarrow> bench_thread \<Rightarrow> bench_shared
    \<Rightarrow> bench_thread \<times> bench_shared" where
  "rule_body rule visit h first fin th sh =
     (let ps = take (fin - first) (drop first (bs_packets sh));
          vps = zip (map visit [first..<fin]) ps
      in case rule of
        kEntropy \<Rightarrow>
          let eligible = filter (\<lambda>p. payload_size p \<ge> kEntropyMinPayload) ps;
              es = (if eligible \<noteq> [] then (case compute CpuEntropyBackend eligible of None \<Rightarrow> bt_entropies th | Some es \<Rightarrow> es)
                    else bt_entropies th)
          in (th\<lparr>bt_entropies := es, bt_sink := bt_sink th + of_nat (length es)\<rparr>, sh)
      | kSignature \<Rightarrow>
          (th\<lparr>bt_sink := bt_sink th + of_nat (length (filter (\<lambda>p. matches new_SignatureDatabase (qpayload p)) ps))\<rparr>, sh)
      | kFlow \<Rightarrow>
          let (ft, alerts) = observe_all h vps (bs_flow sh)
          in (th\<lparr>bt_sink := bt_sink th + of_nat (length (concat alerts))\<rparr>, sh\<lparr>bs_flow := ft\<rparr>)
      | kAll \<Rightarrow>
          let (b, ps) = swap_in (resize (fin - first) (bt_batch th)) ps;
              (engine, alerts) = analyze_batch CpuEntropyBackend h (zip (map visit [first..<fin]) b) (bs_engine sh);
              (b, ps) = swap_out b ps
          in (th\<lparr>bt_batch := b\<rparr>,
              sh\<lparr>bs_packets := put_slice first ps (bs_packets sh), bs_engine := engine,
                 bs_alerts := bs_alerts sh + of_nat (length alerts)\<rparr>))"

definition batch_total :: "size_t \<Rightarrow> size_t \<Rightarrow> size_t" where
  "batch_total n batch_size = (n + batch_size - 1) div batch_size"

text \<open>\<open>None\<close> in the list of threads is one that has left its loop; \<open>taken\<close> records the batches in order.\<close>

record bench_state =
  b_shared :: bench_shared
  b_threads :: "bench_thread option list"
  b_next :: size_t
  b_sink :: u64
  b_taken :: "size_t list"

definition bench_start :: "QueuedPacket list \<Rightarrow> nat \<Rightarrow> bench_state" where
  "bench_start packets threads =
     \<lparr>b_shared = \<lparr>bs_packets = packets, bs_flow = new_FlowTracker default_config,
        bs_engine = new_AnalysisEngine default_analysis_config, bs_alerts = 0\<rparr>,
      b_threads = replicate threads (Some \<lparr>bt_batch = [], bt_entropies = [], bt_sink = 0\<rparr>),
      b_next = 0, b_sink = 0, b_taken = []\<rparr>"

definition bench_turn :: "Rule \<Rightarrow> (nat \<Rightarrow> visit_order) \<Rightarrow> (u32 \<Rightarrow> u64) \<Rightarrow> size_t \<Rightarrow> nat \<Rightarrow> bench_state \<Rightarrow> bench_state" where
  "bench_turn rule visit h batch_size i s =
     (if i < length (b_threads s) then
        (case b_threads s ! i of
           None \<Rightarrow> s
         | Some th \<Rightarrow>
             let b = b_next s; n = length (bs_packets (b_shared s)); s = s\<lparr>b_next := b + 1\<rparr> in
             if b \<ge> batch_total n batch_size then
               s\<lparr>b_threads := (b_threads s)[i := None], b_sink := b_sink s + bt_sink th\<rparr>
             else
               let first = b * batch_size; fin = min (first + batch_size) n;
                   (th, sh) = rule_body rule visit h first fin th (b_shared s)
               in s\<lparr>b_shared := sh, b_threads := (b_threads s)[i := Some th], b_taken := b_taken s @ [b]\<rparr>)
      else s)"

definition run_rule :: "Rule \<Rightarrow> (nat \<Rightarrow> visit_order) \<Rightarrow> (u32 \<Rightarrow> u64) \<Rightarrow> size_t \<Rightarrow> nat list \<Rightarrow> bench_state \<Rightarrow> bench_state" where
  "run_rule rule visit h batch_size schedule s = foldl (\<lambda>s i. bench_turn rule visit h batch_size i s) s schedule"

definition all_left :: "bench_state \<Rightarrow> bool" where
  "all_left s \<longleftrightarrow> list_all (\<lambda>t. t = None) (b_threads s)"

section \<open>Medians and thread counts\<close>

lemma half_below:
  fixes m :: real
  assumes "sorted s" "k < length s" "s ! k \<le> m"
  shows "Suc k \<le> length (filter (\<lambda>x. x \<le> m) s)"
proof -
  have "{..k} \<subseteq> {i. i < length s \<and> s ! i \<le> m}"
    using assms by (auto intro: order_trans [OF sorted_nth_mono])
  from card_mono [OF _ this] show ?thesis by (simp add: length_filter_conv_card)
qed

lemma half_above:
  fixes m :: real
  assumes "sorted s" "k < length s" "m \<le> s ! k"
  shows "length s - k \<le> length (filter (\<lambda>x. m \<le> x) s)"
proof -
  have "{k..<length s} \<subseteq> {i. i < length s \<and> m \<le> s ! i}"
    using assms by (auto intro: order_trans [OF _ sorted_nth_mono])
  from card_mono [OF _ this] show ?thesis by (simp add: length_filter_conv_card)
qed

lemma median_halves:
  assumes "v \<noteq> []"
  shows "\<exists>m. median v = Some m \<and> length v \<le> 2 * length (filter (\<lambda>x. x \<le> m) v) \<and>
    length v \<le> 2 * length (filter (\<lambda>x. m \<le> x) v)"
proof -
  let ?s = "sort v"
  have len: "length (filter P ?s) = length (filter P v)" for P by (metis mset_filter mset_sort size_mset)
  have sorted: "sorted ?s" by simp
  have half: "length v \<le> 2 * length (filter (\<lambda>x. x \<le> m) v) \<and> length v \<le> 2 * length (filter (\<lambda>x. m \<le> x) v)"
    if "j < length v" "k < length v" "?s ! j \<le> m" "m \<le> ?s ! k" "length v \<le> 2 * Suc j" "2 * k \<le> length v" for j k m
    using half_below [OF sorted, of j m] half_above [OF sorted, of k m] that by (simp add: len)
  have ne: "length v \<noteq> 0" using assms by simp
  show ?thesis
  proof (cases "length v mod 2 = 1")
    case True
    have "length v div 2 < length v" using ne by simp
    then show ?thesis
      using True half [of "length v div 2" "length v div 2" "?s ! (length v div 2)"] by (simp add: median_def)
  next
    case False
    have k: "length v div 2 - 1 < length v" "length v div 2 < length v" using ne by presburger+
    have "?s ! (length v div 2 - 1) \<le> ?s ! (length v div 2)" using k by (intro sorted_nth_mono) auto
    then have m: "?s ! (length v div 2 - 1) \<le> (?s ! (length v div 2 - 1) + ?s ! (length v div 2)) / 2"
      "(?s ! (length v div 2 - 1) + ?s ! (length v div 2)) / 2 \<le> ?s ! (length v div 2)" by simp_all
    have "length v \<le> 2 * Suc (length v div 2 - 1)" "2 * (length v div 2) \<le> length v" using False ne by presburger+
    note bounds = half [OF k m this]
    moreover have "median v = Some ((?s ! (length v div 2 - 1) + ?s ! (length v div 2)) / 2)"
      using False ne by (simp add: median_def Let_def)
    ultimately show ?thesis by blast
  qed
qed

lemma doublings_range: "0 < t \<Longrightarrow> x \<in> set (doublings t most) \<Longrightarrow> t \<le> x \<and> x < most"
proof (induction t most rule: doublings.induct)
  case (1 t most)
  then show ?case by (subst (asm) (2) doublings.simps) (fastforce split: if_splits)
qed

lemma remdups_adj_strict: "sorted xs \<Longrightarrow> sorted_wrt (<) (remdups_adj xs)" for xs :: "nat list"
proof (induction xs rule: remdups_adj.induct)
  case (3 x y xs)
  then show ?case by (auto dest: order.trans)
qed simp_all

text \<open>The thread counts go strictly up from 1 to the maximum.\<close>

lemma thread_counts_range:
  assumes "0 < most"
  shows "sorted_wrt (<) (thread_counts most)" "set (thread_counts most) \<subseteq> {1..most}"
    "1 \<in> set (thread_counts most)" "most \<in> set (thread_counts most)"
proof -
  show "sorted_wrt (<) (thread_counts most)"
    unfolding thread_counts_def by (simp add: remdups_adj_strict)
  show "set (thread_counts most) \<subseteq> {1..most}"
    using doublings_range [of 1 _ most] assms by (fastforce simp: thread_counts_def split: if_splits)
  show "1 \<in> set (thread_counts most)"
  proof (cases "most = 1")
    case False
    then have "1 \<in> set (doublings 1 most)" using assms by (subst doublings.simps) simp
    then show ?thesis by (simp add: thread_counts_def)
  qed (simp add: thread_counts_def)
  show "most \<in> set (thread_counts most)" by (simp add: thread_counts_def)
qed

section \<open>Every packet is processed once\<close>

definition slice :: "nat \<Rightarrow> 'a list \<Rightarrow> nat \<Rightarrow> 'a list" where
  "slice n xs b = take (min (b * n + n) (length xs) - b * n) (drop (b * n) xs)"

lemma slices_cover:
  assumes "0 < n"
  shows "concat (map (slice n xs) [0..<batch_total (length xs) n]) = xs"
proof -
  have prefix: "concat (map (slice n xs) [0..<k]) = take (k * n) xs" if "k * n \<le> length xs + n" for k
    using that
  proof (induction k)
    case (Suc k)
    then have "k * n \<le> length xs" by simp
    then have "take (k * n) xs @ slice n xs k = take (k * n + n) xs"
      by (simp add: slice_def take_add min_def)
    then show ?case using Suc by (simp add: add.commute)
  qed simp
  have "batch_total (length xs) n * n \<le> length xs + n" "length xs \<le> batch_total (length xs) n * n"
  proof -
    have "(length xs + n - 1) div n * n \<le> length xs + n - 1" by (rule div_times_less_eq_dividend)
    then show "batch_total (length xs) n * n \<le> length xs + n" unfolding batch_total_def by linarith
    have "length xs + n - 1 < Suc ((length xs + n - 1) div n) * n"
      using assms by (simp add: dividend_less_div_times)
    then show "length xs \<le> batch_total (length xs) n * n" by (simp add: batch_total_def)
  qed
  then show ?thesis using prefix by simp
qed

lemma swaps:
  assumes "length b = length ps"
  shows "fst (swap_in b ps) = ps" "snd (swap_out (fst (swap_in b ps)) (snd (swap_in b ps))) = ps"
  using assms
  by (induction b ps rule: list_induct2) (simp_all add: swap_in_def swap_out_def)

lemma put_slice_same:
  "put_slice first (take n (drop first xs)) xs = xs"
proof -
  have "put_slice first (take n (drop first xs)) xs = take first xs @ take n (drop first xs) @ drop n (drop first xs)"
    by (cases "n \<le> length xs - first") (simp_all add: put_slice_def min_def add.commute)
  then show ?thesis by (simp only: append_take_drop_id)
qed

lemma rule_body_keeps:
  assumes "first \<le> fin" "fin \<le> length (bs_packets sh)"
  shows "bs_packets (snd (rule_body rule visit h first fin th sh)) = bs_packets sh"
proof (cases rule)
  case kAll
  let ?ps = "take (fin - first) (drop first (bs_packets sh))" and ?b = "resize (fin - first) (bt_batch th)"
  have "length ?b = length ?ps" using assms by (simp add: resize_def)
  from swaps [OF this] kAll show ?thesis
    by (simp add: rule_body_def Let_def split_beta put_slice_same)
qed (simp_all add: rule_body_def Let_def split_beta)

definition bench_inv :: "QueuedPacket list \<Rightarrow> size_t \<Rightarrow> bench_state \<Rightarrow> bool" where
  "bench_inv packets batch_size s \<longleftrightarrow> bs_packets (b_shared s) = packets \<and>
     b_taken s = [0..<min (b_next s) (batch_total (length packets) batch_size)] \<and>
     (None \<in> set (b_threads s) \<longrightarrow> batch_total (length packets) batch_size \<le> b_next s)"

lemma batch_inside:
  assumes "b < batch_total n k" "0 < k"
  shows "b * k \<le> min (b * k + k) n"
proof -
  have "Suc b * k \<le> n + k - 1"
    using assms by (metis Suc_leI batch_total_def div_times_less_eq_dividend le_trans mult_le_mono1)
  then show ?thesis using assms(2) by simp
qed

lemma turn_inv:
  assumes "bench_inv packets k s" "0 < k"
  shows "bench_inv packets k (bench_turn rule visit h k i s)"
proof (cases "i < length (b_threads s) \<and> b_threads s ! i \<noteq> None")
  case True
  then obtain th where i: "i < length (b_threads s)" "b_threads s ! i = Some th" by blast
  let ?n = "length packets" and ?b = "b_next s"
  have ps: "bs_packets (b_shared s) = packets" using assms(1) by (simp add: bench_inv_def)
  have none: "None \<in> set ((b_threads s)[i := x]) \<Longrightarrow> x = None \<or> None \<in> set (b_threads s)" for x
    by (auto dest!: set_update_subset_insert [THEN subsetD])
  show ?thesis
  proof (cases "?b \<ge> batch_total ?n k")
    case True
    then show ?thesis using assms(1) i ps by (simp add: bench_inv_def bench_turn_def Let_def)
  next
    case False
    then have "b_taken s @ [?b] = [0..<min (Suc ?b) (batch_total ?n k)]"
      using assms(1) by (simp add: bench_inv_def)
    moreover have "bs_packets (snd (rule_body rule visit h (?b * k) (min (?b * k + k) ?n) th (b_shared s))) = packets"
      using rule_body_keeps [OF batch_inside [of ?b ?n k], of "b_shared s" rule visit h th] False assms(2) ps by simp
    moreover have "None \<notin> set (b_threads s)" using False assms(1) by (auto simp: bench_inv_def)
    ultimately show ?thesis
      using False i ps none by (auto simp: bench_inv_def bench_turn_def Let_def split_beta)
  qed
next
  case False
  then show ?thesis using assms(1) by (auto simp: bench_turn_def)
qed

lemma run_inv:
  "bench_inv packets k s \<Longrightarrow> 0 < k \<Longrightarrow> bench_inv packets k (run_rule rule visit h k schedule s)"
  by (induction schedule arbitrary: s) (simp_all add: run_rule_def turn_inv)

lemma turn_threads: "length (b_threads (bench_turn rule visit h k i s)) = length (b_threads s)"
  by (simp add: bench_turn_def Let_def split_beta split: option.split)

lemma run_threads: "length (b_threads (run_rule rule visit h k schedule s)) = length (b_threads s)"
  by (induction schedule arbitrary: s) (simp_all add: run_rule_def turn_threads)

lemma finished_bench:
  assumes "0 < k" "0 < threads" "all_left (run_rule rule visit h k schedule (bench_start packets threads))"
  shows "bench_inv packets k (run_rule rule visit h k schedule (bench_start packets threads))"
    "b_taken (run_rule rule visit h k schedule (bench_start packets threads)) = [0..<batch_total (length packets) k]"
proof -
  let ?s = "run_rule rule visit h k schedule (bench_start packets threads)"
  have "bench_inv packets k (bench_start packets threads)" by (simp add: bench_inv_def bench_start_def)
  then show inv: "bench_inv packets k ?s" using assms(1) by (rule run_inv)
  have "b_threads ?s \<noteq> []" using run_threads [of rule visit h k schedule "bench_start packets threads"] assms(2)
    by (auto simp: bench_start_def)
  then have "None \<in> set (b_threads ?s)" using assms(3) by (cases "b_threads ?s") (auto simp: all_left_def)
  then show "b_taken ?s = [0..<batch_total (length packets) k]" using inv by (simp add: bench_inv_def min.absorb2)
qed

section \<open>The signature rule counts the matches\<close>

definition thread_sink :: "bench_thread option \<Rightarrow> u64" where
  "thread_sink t = (case t of None \<Rightarrow> 0 | Some th \<Rightarrow> bt_sink th)"

definition signature_hits :: "QueuedPacket list \<Rightarrow> nat" where
  "signature_hits ps = length (filter (\<lambda>p. matches new_SignatureDatabase (qpayload p)) ps)"

definition hits_inv :: "QueuedPacket list \<Rightarrow> size_t \<Rightarrow> bench_state \<Rightarrow> bool" where
  "hits_inv packets k s \<longleftrightarrow> b_sink s + sum_list (map thread_sink (b_threads s)) =
     of_nat (signature_hits (concat (map (slice k packets) (b_taken s))))"

lemma turn_hits:
  assumes "bench_inv packets k s" "hits_inv packets k s"
  shows "hits_inv packets k (bench_turn kSignature visit h k i s)"
proof (cases "i < length (b_threads s) \<and> b_threads s ! i \<noteq> None")
  case True
  then obtain th where i: "i < length (b_threads s)" "b_threads s ! i = Some th" by blast
  have ps: "bs_packets (b_shared s) = packets" using assms(1) by (simp add: bench_inv_def)
  have upd: "sum_list (map thread_sink ((b_threads s)[i := x])) + bt_sink th =
      sum_list (map thread_sink (b_threads s)) + thread_sink x" for x
    using sum_list_map_update [OF i(1), of thread_sink x] i(2) by (simp add: thread_sink_def)
  then have upd': "sum_list (map thread_sink ((b_threads s)[i := x])) =
      sum_list (map thread_sink (b_threads s)) + thread_sink x - bt_sink th" for x
    by (metis add_diff_cancel_right')
  show ?thesis
    using assms(2) i ps
    by (auto simp: hits_inv_def bench_turn_def rule_body_def Let_def upd' thread_sink_def slice_def signature_hits_def
        algebra_simps)
next
  case False
  then show ?thesis using assms(2) by (auto simp: bench_turn_def)
qed

lemma run_hits:
  "bench_inv packets k s \<Longrightarrow> hits_inv packets k s \<Longrightarrow> 0 < k \<Longrightarrow>
     hits_inv packets k (run_rule kSignature visit h k schedule s)"
  by (induction schedule arbitrary: s) (simp_all add: run_rule_def turn_inv turn_hits)

text \<open>
  C37. The benchmark's work sharing is sound: for every rule, batch size, number of threads and
  schedule in which all threads finish, the batches taken from the shared counter are all batches,
  each once; together they are the packets in order; and the packets are unchanged afterwards,
  although the engine rule swaps their payloads out and back. The signature rule's sum is the
  number of packets with a known-bad payload.
\<close>

theorem bench_processes_all:
  assumes "0 < batch_size" "0 < threads"
    and "s = run_rule rule visit h batch_size schedule (bench_start packets threads)" "all_left s"
  shows "b_taken s = [0..<batch_total (length packets) batch_size] \<and>
    concat (map (slice batch_size packets) (b_taken s)) = packets \<and> bs_packets (b_shared s) = packets \<and>
    (rule = kSignature \<longrightarrow>
       b_sink s = of_nat (length (filter (\<lambda>p. matches new_SignatureDatabase (qpayload p)) packets)))"
proof -
  note fin = finished_bench [OF assms(1,2) assms(4) [unfolded assms(3)], folded assms(3)]
  have all: "concat (map (slice batch_size packets) (b_taken s)) = packets"
    unfolding fin(2) by (rule slices_cover [OF assms(1)])
  have "hits_inv packets batch_size s" if "rule = kSignature"
    unfolding assms(3) that using assms(1)
    by (intro run_hits)
      (simp_all add: bench_inv_def hits_inv_def bench_start_def thread_sink_def signature_hits_def sum_list_replicate)
  moreover have "list_all (\<lambda>t. t = None) ts \<Longrightarrow> sum_list (map thread_sink ts) = 0" for ts
    by (induction ts) (auto simp: thread_sink_def)
  then have "sum_list (map thread_sink (b_threads s)) = 0" using assms(4) by (simp add: all_left_def)
  ultimately show ?thesis using fin all by (auto simp: bench_inv_def hits_inv_def signature_hits_def)
qed

theorem bench_processes_all_witness:
  "let s = run_rule kEntropy (\<lambda>_. id) (\<lambda>_. 0) 1 [0, 0] (bench_start [\<lparr>meta = default_packet, qpayload = []\<rparr>] 1)
   in all_left s \<and> b_taken s = [0]"
proof -
  let ?p = "\<lparr>meta = default_packet, qpayload = []\<rparr>"
  define s where "s = run_rule kEntropy (\<lambda>_. id) (\<lambda>_. 0) 1 [0, 0] (bench_start [?p] 1)"
  have turn: "bench_turn kEntropy (\<lambda>_. id) (\<lambda>_. 0) 1 0 (bench_start [?p] 1) =
      (bench_start [?p] 1)\<lparr>b_next := 1, b_taken := [0]\<rparr>"
    by (simp add: bench_start_def bench_turn_def batch_total_def rule_body_def payload_size_def kEntropyMinPayload_def)
  have left: "all_left s"
    unfolding s_def run_rule_def using turn
    by (simp add: bench_start_def bench_turn_def batch_total_def all_left_def)
  then show ?thesis
    using bench_processes_all [OF _ _ s_def left] unfolding Let_def s_def [symmetric] by (simp add: batch_total_def)
qed

end
