(* ===== verification/Bench_Capture.thy ===== *)
theory Bench_Capture
  imports Bench_Analysis Pipeline_Progress
begin

text \<open>
  \<open>src/bench/bench_capture.cpp\<close>: the option parser and \<open>run_stage\<close>, which reads a capture file and
  does a growing part of the capture thread's work per frame. The queue stages push to a
  \<open>PacketQueue\<close> that workers drain with the loop of \<open>WorkerPool\<close>, so their run is a run of the pipeline
  over the packets pushed. The measurements and the table are in \<open>Bench_Reports\<close>.
\<close>

section \<open>Options\<close>

record capture_bench_options =
  cb_path :: string
  cb_workers :: size_t
  cb_batch :: size_t
  cb_linger_us :: int
  cb_capacity :: size_t
  cb_reps :: int

definition capture_bench_defaults :: "nat \<Rightarrow> capture_bench_options" where
  "capture_bench_defaults cores = \<lparr>cb_path = [], cb_workers = (if cores > 1 then cores - 1 else 1), cb_batch = 256,
     cb_linger_us = 2000, cb_capacity = 4096, cb_reps = 5\<rparr>"

text \<open>\<open>parse_count\<close> accepts 0; four of the options then refuse it without writing anything.\<close>

definition positive_count :: "string \<Rightarrow> string \<Rightarrow> int \<Rightarrow> string + int" where
  "positive_count text flag most = and_then (parse_count 0 text flag most) (\<lambda>v. if v = 0 then Inl [] else Inr v)"

definition capture_bench_usage :: "string \<Rightarrow> string" where
  "capture_bench_usage argv0 =
     ''usage: '' @ argv0 @ '' [-w workers] [-b batch] [-L linger_us] [-q capacity] '' @
     ''[--reps N] capture.pcap'' @ [CHR 0x0A]"

fun capture_bench_args :: "string \<Rightarrow> string list \<Rightarrow> capture_bench_options \<Rightarrow> string + capture_bench_options" where
  "capture_bench_args argv0 [] opts = Inr opts"
| "capture_bench_args argv0 (arg # rest) opts =
     (let path_or_fail = (if arg \<noteq> [] \<and> hd arg \<noteq> CHR ''-'' \<and> cb_path opts = []
                          then capture_bench_args argv0 rest (opts\<lparr>cb_path := arg\<rparr>)
                          else Inl (capture_bench_usage argv0))
      in case rest of
           [] \<Rightarrow> path_or_fail
         | text # rest' \<Rightarrow>
             if arg = ''-w'' then
               and_then (positive_count text ''-w'' 256)
                 (\<lambda>v. capture_bench_args argv0 rest' (opts\<lparr>cb_workers := nat v\<rparr>))
             else if arg = ''-b'' then
               and_then (positive_count text ''-b'' 1048576)
                 (\<lambda>v. capture_bench_args argv0 rest' (opts\<lparr>cb_batch := nat v\<rparr>))
             else if arg = ''-L'' then
               and_then (parse_count 0 text ''-L'' 1000000)
                 (\<lambda>v. capture_bench_args argv0 rest' (opts\<lparr>cb_linger_us := v\<rparr>))
             else if arg = ''-q'' then
               and_then (positive_count text ''-q'' 16777216)
                 (\<lambda>v. capture_bench_args argv0 rest' (opts\<lparr>cb_capacity := nat v\<rparr>))
             else if arg = ''--reps'' then
               and_then (positive_count text ''--reps'' 1000)
                 (\<lambda>v. capture_bench_args argv0 rest' (opts\<lparr>cb_reps := v\<rparr>))
             else path_or_fail)"

text \<open>So \<open>-w 0\<close> ends the program without a word, although 0 is in the range the error text names.\<close>

lemma zero_refused_silently: "capture_bench_args argv0 [''-w'', ''0'', path] opts = Inl []"
proof -
  have "positive_count ''0'' ''-w'' 256 = Inl []" by code_simp
  then show ?thesis by simp
qed

section \<open>The stages\<close>

datatype Stage = kRead | kDecode | kCopy | kAllocate | kQueue | kQueueNoPayload

record stage_state =
  st_reused :: "u8 list"
  st_sink :: u64
  st_packets :: size_t
  st_pushed :: "QueuedPacket list"

definition stage_start :: stage_state where
  "stage_start = \<lparr>st_reused = replicate 65536 0, st_sink = 0, st_packets = 0, st_pushed = []\<rparr>"

text \<open>\<open>memcpy\<close> of part of a payload to the front of the reused buffer.\<close>

definition copy_payload :: "u8 list \<Rightarrow> ParsedPacket \<Rightarrow> u8 list \<Rightarrow> mem_error + u8 list" where
  "copy_payload data p reused =
     (if payload_length p > 0 then
        (case payload p of
           None \<Rightarrow> Inl OutOfBounds
         | Some off \<Rightarrow>
             let n = min (payload_length p) (length reused)
             in and_then (overlay data off n) (\<lambda>bs. Inr (bs @ drop n reused)))
      else Inr reused)"

definition stage_packet :: "Stage \<Rightarrow> raw_frame \<Rightarrow> ParsedPacket \<Rightarrow> stage_state \<Rightarrow> mem_error + stage_state" where
  "stage_packet stage f p s =
     (case stage of
        kRead \<Rightarrow> Inr s
      | kDecode \<Rightarrow> Inr (s\<lparr>st_sink := st_sink s + of_nat (payload_length p) + ucast (dst_port p)\<rparr>)
      | kCopy \<Rightarrow>
          and_then (copy_payload (frame_bytes f) p (st_reused s)) (\<lambda>reused.
            Inr (s\<lparr>st_reused := reused, st_sink := st_sink s + ucast (hd reused)\<rparr>))
      | kAllocate \<Rightarrow>
          and_then (make_queued_packet (frame_bytes f) p) (\<lambda>q.
            Inr (s\<lparr>st_sink := st_sink s + of_nat (payload_size q)\<rparr>))
      | kQueue \<Rightarrow>
          and_then (make_queued_packet (frame_bytes f) p) (\<lambda>q. Inr (s\<lparr>st_pushed := st_pushed s @ [q]\<rparr>))
      | kQueueNoPayload \<Rightarrow>
          Inr (s\<lparr>st_pushed := st_pushed s @ [\<lparr>meta = p\<lparr>payload := None, payload_length := 0\<rparr>, qpayload = []\<rparr>]\<rparr>))"

text \<open>The reading loop ends with the first answer of \<open>pcap_next_ex\<close> that is not a frame.\<close>

fun stage_loop :: "Stage \<Rightarrow> next_answer list \<Rightarrow> stage_state \<Rightarrow> mem_error + stage_state" where
  "stage_loop stage (NextFrame f # nexts) s =
     (if stage = kRead then
        stage_loop stage nexts (s\<lparr>st_sink := st_sink s + ucast (frame_caplen f), st_packets := st_packets s + 1\<rparr>)
      else
        and_then (parse_packet (Some (frame_bytes f)) (frame_caplen f) (frame_len f) (frame_ts f)) (\<lambda>parsed.
          case parsed of
            None \<Rightarrow> stage_loop stage nexts s
          | Some p \<Rightarrow>
              and_then (stage_packet stage f p (s\<lparr>st_packets := st_packets s + 1\<rparr>)) (stage_loop stage nexts)))"
| "stage_loop stage nexts s = Inr s"

definition queued_stage :: "Stage \<Rightarrow> bool" where
  "queued_stage stage \<longleftrightarrow> stage = kQueue \<or> stage = kQueueNoPayload"

text \<open>The end of \<open>run_stage\<close>: the check that no packet was lost, and the average batch.\<close>

definition stage_result :: "size_t \<Rightarrow> u64 \<Rightarrow> u64 \<Rightarrow> string + real" where
  "stage_result packets consumed batch_number =
     (if unat consumed \<noteq> packets then
        Inl (''queue lost packets: pushed '' @ dec_nat packets @ '', consumed '' @ dec_nat (unat consumed) @ [CHR 0x0A])
      else Inr (if batch_number > 0 then real packets / real (unat batch_number) else 0))"

section \<open>The loop is safe and counts the frames\<close>

lemma frame_packet:
  assumes "raw_frame_ok f" "parse_packet (Some (frame_bytes f)) (frame_caplen f) (frame_len f) (frame_ts f) = Inr (Some p)"
  shows "parsed_of f = Some p" "payload_inside (unat (frame_caplen f)) p"
  using parse_packet_safe [of "frame_caplen f" "frame_bytes f" "frame_len f" "frame_ts f"] assms
  by (auto simp: parsed_of_def raw_frame_ok_def)

lemma copy_payload_safe:
  assumes "payload_inside n p" "n \<le> length data" "reused \<noteq> []"
  shows "\<exists>r. copy_payload data p reused = Inr r \<and> length r = length reused"
  using assms by (auto simp: copy_payload_def payload_inside_def Let_def split: option.split)

lemma stage_packet_safe:
  assumes "raw_frame_ok f" "payload_inside (unat (frame_caplen f)) p" "stage \<noteq> kRead" "length (st_reused s) = 65536"
  shows "\<exists>t. stage_packet stage f p s = Inr t \<and> st_packets t = st_packets s \<and> length (st_reused t) = 65536 \<and>
    length (st_pushed t) = length (st_pushed s) + (if queued_stage stage then 1 else 0)"
proof -
  have n: "unat (frame_caplen f) \<le> length (frame_bytes f)" using assms(1) by (simp add: raw_frame_ok_def)
  obtain q where q: "make_queued_packet (frame_bytes f) p = Inr q" using make_queued_packet_safe [OF assms(2) n] by blast
  have "st_reused s \<noteq> []" using assms(4) by auto
  from copy_payload_safe [OF assms(2) n this] obtain r where
    "copy_payload (frame_bytes f) p (st_reused s) = Inr r" "length r = 65536" using assms(4) by auto
  then show ?thesis using q assms(3,4) by (cases stage) (simp_all add: stage_packet_def queued_stage_def)
qed

lemma stage_loop_safe:
  assumes "list_all raw_frame_ok fs" "length (st_reused s) = 65536"
  shows "\<exists>t. stage_loop stage (map NextFrame fs @ [NextEnd]) s = Inr t \<and>
    st_packets t = st_packets s + (if stage = kRead then length fs else length (parsed_frames fs)) \<and>
    length (st_pushed t) = length (st_pushed s) + (if queued_stage stage then length (parsed_frames fs) else 0)"
  using assms
proof (induction fs arbitrary: s)
  case (Cons f fs)
  show ?case
  proof (cases "stage = kRead")
    case True
    then show ?thesis
      using Cons.prems Cons.IH [of "s\<lparr>st_sink := st_sink s + ucast (frame_caplen f), st_packets := st_packets s + 1\<rparr>"]
      by (auto simp: queued_stage_def)
  next
    case stage: False
    have f: "raw_frame_ok f" using Cons.prems by simp
    note parse = parse_frame [OF f]
    show ?thesis
    proof (cases "parsed_of f")
      case None
      then show ?thesis using stage parse Cons.prems Cons.IH [of s] by auto
    next
      case (Some p)
      let ?s = "s\<lparr>st_packets := st_packets s + 1\<rparr>"
      have "payload_inside (unat (frame_caplen f)) p" using frame_packet [OF f] parse Some by simp
      from stage_packet_safe [OF f this stage, of ?s] obtain t where
        t: "stage_packet stage f p ?s = Inr t" "st_packets t = st_packets s + 1" "length (st_reused t) = 65536"
          "length (st_pushed t) = length (st_pushed s) + (if queued_stage stage then 1 else 0)"
        using Cons.prems by auto
      then show ?thesis using stage parse Some Cons.prems Cons.IH [of t] by auto
    qed
  qed
qed simp

section \<open>No packet is reported lost\<close>

lemma length_parsed_frames: "length (parsed_frames fs) \<le> length fs"
  by (induction fs) (auto split: option.split)

lemma length_le_concat: "\<forall>b \<in> set bs. b \<noteq> [] \<Longrightarrow> length bs \<le> length (concat bs)"
proof (induction bs)
  case (Cons b bs)
  then have "1 \<le> length b" by (cases b) auto
  then show ?case using Cons by auto
qed simp

lemma concat_bound: "\<forall>b \<in> set bs. length b \<le> n \<Longrightarrow> length (concat bs) \<le> n * length bs"
  by (induction bs) auto

lemma stage_run_sound:
  assumes "list_all raw_frame_ok fs" "0 < batch" "length fs < 2 ^ 64"
  shows "\<exists>t. stage_loop stage (map NextFrame fs @ [NextEnd]) stage_start = Inr t \<and>
    st_packets t = (if stage = kRead then length fs else length (parsed_frames fs)) \<and>
    (queued_stage stage \<longrightarrow> (\<forall>cap workers linger s.
       pipeline_reachable batch linger (pipeline_start cap workers (st_pushed t)) s \<and> main_pc s = MDone \<longrightarrow>
       (\<exists>avg. stage_result (st_packets t) (processed s) (batches s) = Inr avg \<and> 0 \<le> avg \<and> avg \<le> real batch)))"
proof -
  obtain t where t: "stage_loop stage (map NextFrame fs @ [NextEnd]) stage_start = Inr t"
    "st_packets t = (if stage = kRead then length fs else length (parsed_frames fs))"
    "length (st_pushed t) = (if queued_stage stage then length (parsed_frames fs) else 0)"
    using stage_loop_safe [OF assms(1), of stage_start stage] by (auto simp: stage_start_def)
  have short: "length (parsed_frames fs) < 2 ^ 64"
    using length_parsed_frames [of fs] assms(3) by linarith
  have "\<exists>avg. stage_result (st_packets t) (processed s) (batches s) = Inr avg \<and> 0 \<le> avg \<and> avg \<le> real batch"
    if q: "queued_stage stage" and r: "pipeline_reachable batch linger (pipeline_start cap workers (st_pushed t)) s"
      and d: "main_pc s = MDone" for cap workers linger s
  proof -
    note inv = start_reachable_inv [OF r assms(2)]
    have hands: "batches s = of_nat (length (analysed s))" "\<forall>b \<in> set (analysed s). b \<noteq> [] \<and> length b \<le> batch"
      using inv by (simp_all add: pipeline_inv_def inv_hands_def)
    have len: "length (concat (analysed s)) = length (st_pushed t)" using done_state(1) [OF inv d] by (metis size_mset)
    have "length (analysed s) \<le> length (concat (analysed s))"
      using hands(2) by (intro length_le_concat) blast
    then have nb: "length (analysed s) < 2 ^ 64" using len t(3) short q by simp
    have small: "unat (of_nat n :: u64) = n" if "n < 2 ^ 64" for n
      using that by (simp add: unsigned_of_nat take_bit_nat_eq_self)
    have p: "st_packets t = length (st_pushed t)" using t q by (auto simp: queued_stage_def)
    have "unat (processed s) = st_packets t" "unat (batches s) = length (analysed s)"
      using done_state(4) [OF inv d] small nb short t(3) q p by (simp_all add: hands(1))
    moreover have "real (st_packets t) \<le> real batch * real (length (analysed s))"
      using concat_bound [of "analysed s" batch] hands(2) len p by (metis of_nat_le_iff of_nat_mult)
    ultimately show ?thesis
      by (auto simp: stage_result_def word_gt_0 unat_eq_0 divide_le_eq simp flip: unat_gt_0)
  qed
  then show ?thesis using t(1,2) by blast
qed

text \<open>
  C38. The capture benchmark is safe and its self-check never fires: reading a file of any frames,
  every stage stays inside the frames and the reused buffer and counts all frames (the read stage) or
  all decoded ones; and in the queue stages, whatever the schedule of the workers, the packets
  consumed equal the packets pushed and the average batch is at most the batch size.
\<close>

theorem capture_bench_sound:
  assumes "list_all raw_frame_ok fs" "0 < batch" "length fs < 2 ^ 64"
  shows "\<exists>t. stage_loop stage (map NextFrame fs @ [NextEnd]) stage_start = Inr t \<and>
    st_packets t = (if stage = kRead then length fs else length (parsed_frames fs)) \<and>
    (queued_stage stage \<longrightarrow> (\<forall>cap workers linger s.
       pipeline_reachable batch linger (pipeline_start cap workers (st_pushed t)) s \<and> main_pc s = MDone \<longrightarrow>
       (\<exists>avg. stage_result (st_packets t) (processed s) (batches s) = Inr avg \<and> 0 \<le> avg \<and> avg \<le> real batch)))"
  by (rule stage_run_sound [OF assms])

theorem capture_bench_sound_witness:
  "\<exists>t. stage_loop kQueue (map NextFrame [sample_frame] @ [NextEnd]) stage_start = Inr t \<and> st_packets t = 1"
proof -
  have "length (parsed_frames [sample_frame]) = 1" using sample_frame_ok(2) by auto
  then show ?thesis
    using capture_bench_sound [of "[sample_frame]" 1 kQueue] sample_frame_ok(1) by auto
qed

end
