(* ===== verification/Bench_Entropy.thy ===== *)
theory Bench_Entropy
  imports Main_Program Bench_Analysis
begin

text \<open>
  \<open>src/bench/bench_entropy.cpp\<close>, which compares the entropy backends on the same packets, and
  \<open>src/gpu/vector_add_smoke_test.cpp\<close>, which checks the GPU plumbing. Clock readings are arguments, as is the
  stream of random bytes. The table and the CSV file are in \<open>Bench_Reports\<close>.
\<close>

section \<open>Packets and passes\<close>

definition kReps :: nat where "kReps = 7"
definition kMaxPackets :: size_t where "kMaxPackets = 65536"
definition kMaxBatchesPerRun :: size_t where "kMaxBatchesPerRun = 512"

text \<open>\<open>rng k\<close> is the \<open>k\<close>-th value of the generator.\<close>

definition make_packets :: "(nat \<Rightarrow> u32) \<Rightarrow> size_t \<Rightarrow> size_t \<Rightarrow> QueuedPacket list" where
  "make_packets rng n payload_bytes =
     map (\<lambda>i. \<lparr>meta = default_packet, qpayload = map (\<lambda>j. ucast (rng (i * payload_bytes + j))) [0..<payload_bytes]\<rparr>) [0..<n]"

text \<open>
  One pass over the packets in batches; a batch the backend cannot compute ends the program (\<open>None\<close>).
  The batch sizes of the program are positive; with 0 the loop would not end.
\<close>

function one_pass :: "'w EntropyBackend \<Rightarrow> size_t \<Rightarrow> QueuedPacket list \<Rightarrow> real list option" where
  "one_pass backend batch_size packets =
     (if packets = [] then Some []
      else if batch_size = 0 then None
      else case compute backend (take batch_size packets) of
        None \<Rightarrow> None
      | Some out \<Rightarrow>
          (case one_pass backend batch_size (drop batch_size packets) of None \<Rightarrow> None | Some rest \<Rightarrow> Some (out @ rest)))"
  by pat_completeness auto
termination
  by (relation "measure (\<lambda>(backend, batch_size, packets). length packets)") auto

declare one_pass.simps [simp del]

text \<open>
  A warm-up pass, \<open>kReps\<close> timed passes and one whose results are kept. \<open>passes\<close> gives the backend as it
  behaves in each pass, \<open>seconds\<close> the time of each timed pass.
\<close>

definition time_backend :: "'w EntropyBackend list \<Rightarrow> real list \<Rightarrow> size_t \<Rightarrow> QueuedPacket list \<Rightarrow> (real \<times> real list) option" where
  "time_backend passes seconds batch_size packets =
     (let outs = map (\<lambda>backend. one_pass backend batch_size packets) passes in
      if None \<in> set outs then None
      else Some (sort seconds ! (length seconds div 2), the (last outs)))"

definition max_error :: "real list \<Rightarrow> real list \<Rightarrow> real" where
  "max_error results cpu_results = foldl max 0 (map2 (\<lambda>r c. \<bar>r - c\<bar>) results cpu_results)"

definition packets_for :: "size_t \<Rightarrow> size_t" where
  "packets_for batch = min kMaxPackets (batch * kMaxBatchesPerRun)"

record Row =
  row_backend :: string
  row_payload_bytes :: size_t
  row_batch_size :: size_t
  packets_per_sec :: real
  megabytes_per_sec :: real
  max_abs_error :: real

text \<open>The rows of one payload size and batch size, backend by backend with its time and results.\<close>

fun bench_rows :: "size_t \<Rightarrow> size_t \<Rightarrow> real list \<Rightarrow> (string \<times> real \<times> real list) list \<Rightarrow> Row list" where
  "bench_rows bytes batch cpu_results [] = []"
| "bench_rows bytes batch cpu_results ((name, seconds, results) # rest) =
     (let cpu_results = (if name = ''cpu'' then results else cpu_results);
          pps = real (packets_for batch) / seconds
      in \<lparr>row_backend = name, row_payload_bytes = bytes, row_batch_size = batch, packets_per_sec = pps,
          megabytes_per_sec = pps * real bytes / 1000000, max_abs_error = max_error results cpu_results\<rparr>
         # bench_rows bytes batch cpu_results rest)"

section \<open>The error column\<close>

lemma one_pass_exact:
  "0 < n \<Longrightarrow> \<forall>es k. compute backend (take n (drop k ps)) = Some es \<longrightarrow> es = cpu_entropies (take n (drop k ps)) \<Longrightarrow>
     one_pass backend n ps = Some rs \<Longrightarrow> rs = cpu_entropies ps"
proof (induction backend n ps arbitrary: rs rule: one_pass.induct)
  case (1 backend n ps)
  show ?case
  proof (cases "ps = []")
    case True
    then show ?thesis using 1(4) by (simp add: one_pass.simps)
  next
    case False
    from 1(4) False 1(2) obtain out rest where o: "compute backend (take n ps) = Some out"
      "one_pass backend n (drop n ps) = Some rest" "rs = out @ rest"
      by (subst (asm) one_pass.simps) (auto split: option.splits)
    have "\<forall>es k. compute backend (take n (drop k (drop n ps))) = Some es \<longrightarrow> es = cpu_entropies (take n (drop k (drop n ps)))"
      using 1(3) by (metis drop_drop)
    from 1(1) [OF False _ o(1) 1(2) this o(2)] have "rest = cpu_entropies (drop n ps)" using 1(2) by simp
    moreover have "out = cpu_entropies (take n ps)" using 1(3) o(1) by (metis drop_0)
    ultimately show ?thesis using o(3) by (metis append_take_drop_id map_append)
  qed
qed

text \<open>The CPU backend never fails, and a GPU pass that completes shows no error against it.\<close>

lemma one_pass_cpu: "0 < n \<Longrightarrow> one_pass CpuEntropyBackend n ps = Some (cpu_entropies ps)"
proof (induction "length ps" arbitrary: ps rule: less_induct)
  case less
  show ?case
  proof (cases "ps = []")
    case False
    then have "one_pass CpuEntropyBackend n (drop n ps) = Some (cpu_entropies (drop n ps))"
      using less by (intro less.hyps) auto
    then show ?thesis using False less.prems
      by (subst one_pass.simps) (simp add: compute_cpu flip: map_append)
  qed (simp add: one_pass.simps)
qed

lemma gpu_pass_no_error:
  assumes "0 < n" "\<And>k. gpu_fits env (take n (drop k ps))"
    and "one_pass (GpuEntropyBackend env) n ps = Some rs" "one_pass CpuEntropyBackend n ps = Some cs"
  shows "max_error rs cs = 0"
proof -
  have "es = cpu_entropies (take n (drop k ps))" if "compute (GpuEntropyBackend env) (take n (drop k ps)) = Some es" for es k
    using that gpu_backend_result [OF assms(2)] by (auto simp: compute_def split: option.splits)
  then have "rs = cs" using one_pass_exact [OF assms(1) _ assms(3)] assms(1,4) one_pass_cpu by auto
  moreover have "map2 (\<lambda>r c. \<bar>r - c\<bar>) cs cs = map (\<lambda>_. 0) cs" by (induction cs) simp_all
  moreover have "foldl max (0 :: real) (map (\<lambda>_. 0) cs) = 0" by (induction cs) simp_all
  ultimately show ?thesis by (simp add: max_error_def)
qed

section \<open>The smoke test\<close>

definition kCount :: nat where "kCount = 1024"

definition smoke_a :: "real list" where "smoke_a = map real [0..<kCount]"
definition smoke_b :: "real list" where "smoke_b = map (\<lambda>i. real i * 2) [0..<kCount]"

text \<open>The indices at which the result is off, the first five of which are reported.\<close>

definition mismatches :: "real list \<Rightarrow> nat list" where
  "mismatches result = filter (\<lambda>i. \<bar>result ! i - (smoke_a ! i + smoke_b ! i)\<bar> > 1 / 100000) [0..<kCount]"

definition smoke_test :: "metal_handles \<Rightarrow> kernel_build \<Rightarrow> (nat \<Rightarrow> size_t \<Rightarrow> bool) \<Rightarrow> bool \<Rightarrow> string option option \<Rightarrow> exit" where
  "smoke_test h build alloc done_ok failure =
     (let ctx = new_MetalContext h in
      if \<not> is_available h then (EXIT_FAILURE, [], ''no Metal device available: '' @ last_error ctx @ nl)
      else
        let found = ''Metal device: '' @ device_name h @ nl; (loaded, ctx) = load_kernel h build ''vector_add'' ctx in
        if \<not> loaded then (EXIT_FAILURE, found, ''failed to load kernel: '' @ last_error ctx @ nl)
        else
          case run_vector_add alloc done_ok failure smoke_a smoke_b ctx of
            (None, ctx) \<Rightarrow> (EXIT_FAILURE, found, ''GPU dispatch failed: '' @ last_error ctx @ nl)
          | (Some result, ctx) \<Rightarrow>
              let bad = mismatches result in
              if bad \<noteq> [] then
                (EXIT_FAILURE, found,
                 concat (map (\<lambda>i. ''  mismatch at ['' @ dec_nat i @ '']: got '' @ fixed_dec 6 (result ! i) @ '', expected '' @
                   fixed_dec 6 (smoke_a ! i + smoke_b ! i) @ nl) (take 5 bad)) @
                 ''FAIL: '' @ dec_nat (length bad) @ '' / '' @ dec_nat kCount @ '' results wrong'' @ nl)
              else (EXIT_SUCCESS, found @ ''PASS: '' @ dec_nat kCount @
                      '' GPU-computed results matched CPU-computed expected values'' @ nl, []))"

text \<open>The test passes exactly when the device is there, the kernel loads, and the dispatch gets its buffers and completes.\<close>

lemma smoke_test_passes:
  "fst (smoke_test h build alloc done_ok failure) = EXIT_SUCCESS \<longleftrightarrow>
     is_available h \<and> compile_error build = None \<and> function_found build \<and> pipeline_error build = None \<and>
     alloc 0 4096 \<and> alloc 1 4096 \<and> alloc 2 4096 \<and> done_ok"
proof -
  have len: "length smoke_a = 1024" "length smoke_b = 1024" "smoke_a \<noteq> []"
    by (auto simp: smoke_a_def smoke_b_def kCount_def)
  have "mismatches (map2 (+) smoke_a smoke_b) = []"
    using len by (auto simp: mismatches_def kCount_def filter_empty_conv)
  then show ?thesis
    using len by (auto simp: smoke_test_def load_kernel_def run_vector_add_def find_pipeline_def submit_and_wait_def
        make_buffer_length_def size_mul_exact size_modulus_def Let_def split: option.splits)
qed

end
