(* ===== verification/Bench_Reports.thy ===== *)
theory Bench_Reports
  imports Bench_Capture Bench_Entropy
begin

text \<open>
  The \<open>main\<close> functions of the three benchmark programs: how they start or give up, in which order they
  measure, and the tables and the CSV file they write. What the clocks read is an argument, a positive
  number of seconds per measured run. Shown: every cell of a table rests on its own measurements, all
  medians exist, speed-ups are relative to the one-thread run, and the entropy benchmark writes one row
  per backend, payload size and batch size.
\<close>

section \<open>Output formats\<close>

text \<open>\<open>%14s\<close>, \<open>%+.0f\<close> and \<open>%.ng\<close>.\<close>

definition pad_left :: "nat \<Rightarrow> string \<Rightarrow> string" where
  "pad_left n s = replicate (n - length s) (CHR '' '') @ s"

definition signed_dec :: "real \<Rightarrow> string" where
  "signed_dec x = (if x < 0 then [] else ''+'') @ fixed_dec 0 x"

definition strip_zeros :: "string \<Rightarrow> string" where
  "strip_zeros s =
     (if CHR ''.'' \<in> set s then
        (let r = dropWhile (\<lambda>c. c = CHR ''0'') (rev s) in rev (if r \<noteq> [] \<and> hd r = CHR ''.'' then tl r else r))
      else s)"

definition general_dec :: "nat \<Rightarrow> real \<Rightarrow> string" where
  "general_dec p x =
     (if x = 0 then ''0''
      else
        let e = \<lfloor>log 10 \<bar>x\<bar>\<rfloor>; m = round_half_even (\<bar>x\<bar> * 10 powr real_of_int (int p - 1 - e));
            e = (if m \<ge> 10 ^ p then e + 1 else e)
        in if -4 \<le> e \<and> e < int p then strip_zeros (fixed_dec (nat (int p - 1 - e)) x)
           else strip_zeros (fixed_dec (p - 1) (x * 10 powr real_of_int (- e))) @ ''e'' @
             (if e < 0 then ''-'' else ''+'') @ zero_pad 2 (dec_nat (nat \<bar>e\<bar>)))"

section \<open>The analysis benchmark\<close>

definition kRules :: "(Rule \<times> string) list" where
  "kRules = [(kEntropy, ''entropy''), (kSignature, ''signature''), (kFlow, ''flow''), (kAll, ''all'')]"

definition bench_no_path :: "string \<Rightarrow> exit" where
  "bench_no_path argv0 = (EXIT_FAILURE, [], ''usage: '' @ argv0 @ '' [options] capture.pcap'' @ nl)"

definition analysis_bench_setup :: "'h environment \<Rightarrow> nat \<Rightarrow> string \<Rightarrow> string list \<Rightarrow> exit + analysis_bench_options \<times> 'h Capture" where
  "analysis_bench_setup env cores argv0 args =
     (case analysis_bench_args argv0 args (analysis_bench_defaults cores) of
        Inl message \<Rightarrow> Inl (EXIT_FAILURE, [], message)
      | Inr opts \<Rightarrow>
          if ab_path opts = [] then Inl (bench_no_path argv0)
          else case open_offline (env_open_offline env) (env_datalink env) (ab_path opts) new_Capture of
            (c, Some error) \<Rightarrow> Inl (EXIT_FAILURE, [], ''cannot open '' @ ab_path opts @ '': '' @ error @ nl)
          | (c, None) \<Rightarrow> Inr (opts, c))"

text \<open>The packets kept in memory, from those the capture handed over.\<close>

fun copy_packets :: "(raw_frame \<times> ParsedPacket) list \<Rightarrow> mem_error + QueuedPacket list" where
  "copy_packets [] = Inr []"
| "copy_packets (fp # fps) =
     and_then (queue_handler fp) (\<lambda>q. and_then (copy_packets fps) (\<lambda>qs. Inr (q # qs)))"

definition check_packets :: "string \<Rightarrow> QueuedPacket list \<Rightarrow> exit + QueuedPacket list" where
  "check_packets path packets =
     (if packets = [] then Inl (EXIT_FAILURE, [], path @ '' has no packets this parser understands'' @ nl)
      else Inr packets)"

text \<open>
  Every pair of a rule and a thread count is measured once per repetition. \<open>clock k\<close> are the seconds of
  the \<open>k\<close>-th measured call of \<open>run_rule\<close>; the warm-up calls before are not kept.
\<close>

definition measured_pairs :: "nat \<Rightarrow> nat \<Rightarrow> (nat \<times> nat) list" where
  "measured_pairs rules counts = [(r, t). r \<leftarrow> [0..<rules], t \<leftarrow> [0..<counts]]"

definition add_time :: "real \<Rightarrow> nat \<times> nat \<Rightarrow> real list list list \<Rightarrow> real list list list" where
  "add_time x rt seconds = (case rt of (r, t) \<Rightarrow> seconds[r := (seconds ! r)[t := seconds ! r ! t @ [x]]])"

fun measure_pairs :: "(nat \<Rightarrow> real) \<Rightarrow> nat \<Rightarrow> (nat \<times> nat) list \<Rightarrow> real list list list \<Rightarrow> real list list list" where
  "measure_pairs clock k [] seconds = seconds"
| "measure_pairs clock k (rt # rts) seconds = measure_pairs clock (k + 1) rts (add_time (clock k) rt seconds)"

fun measure_reps :: "(nat \<Rightarrow> real) \<Rightarrow> nat \<Rightarrow> nat \<Rightarrow> nat \<Rightarrow> nat \<Rightarrow> real list list list \<Rightarrow> real list list list" where
  "measure_reps clock k 0 rules counts seconds = seconds"
| "measure_reps clock k (Suc reps) rules counts seconds =
     measure_reps clock (k + rules * counts) reps rules counts
       (measure_pairs clock k (measured_pairs rules counts) seconds)"

definition measure_rules :: "(nat \<Rightarrow> real) \<Rightarrow> int \<Rightarrow> nat \<Rightarrow> real list list list" where
  "measure_rules clock reps counts =
     measure_reps clock 0 (nat reps) (length kRules) counts (replicate (length kRules) (replicate counts []))"

text \<open>The two tables, from the medians of the measurements: one row of medians per rule.\<close>

definition one_thread_line :: "real \<Rightarrow> string \<Rightarrow> real list \<Rightarrow> string" where
  "one_thread_line n name meds =
     (let pps = n / hd meds
      in pad_right 12 name @ '' '' @ pad_left 14 (fixed_dec 0 pps) @ '' '' @ pad_left 12 (fixed_dec 0 (1000000000 / pps)) @ nl)"

definition speedup_cell :: "real \<Rightarrow> real list \<Rightarrow> real \<Rightarrow> string" where
  "speedup_cell n meds m =
     (let one = n / hd meds; pps = n / m
      in snprintf 32 (fixed_dec 2 (pps / 1000000) @ '' ('' @ fixed_dec 1 (pps / one) @ ''x)''))"

definition speedup_line :: "real \<Rightarrow> string \<Rightarrow> real list \<Rightarrow> string" where
  "speedup_line n name meds =
     pad_right 12 name @ concat (map (\<lambda>m. '' '' @ pad_left 13 (speedup_cell n meds m)) meds) @ nl"

definition analysis_report :: "analysis_bench_options \<Rightarrow> nat \<Rightarrow> nat list \<Rightarrow> real list list \<Rightarrow> string" where
  "analysis_report opts n counts meds =
     ''worker side alone: '' @ ab_path opts @ '', '' @ dec_nat n @ '' packets in memory, batch '' @
       dec_nat (ab_batch_size opts) @ '', median of '' @ dec_int (ab_reps opts) @ nl @ nl @
     ''one thread:'' @ nl @ pad_right 12 ''rule'' @ '' '' @ pad_left 14 ''packets/sec'' @ '' '' @ pad_left 12 ''ns/packet'' @ nl @
     concat (map2 (\<lambda>(_, name) ms. one_thread_line (real n) name ms) kRules meds) @
     nl @ ''million packets/sec by thread count (x = speedup over one thread):'' @ nl @ pad_right 12 ''rule'' @
     concat (map (\<lambda>t. '' '' @ pad_left 13 (dec_nat t)) counts) @ nl @
     concat (map2 (\<lambda>(_, name) ms. speedup_line (real n) name ms) kRules meds)"

text \<open>All medians of a table of measurements, unless one of them has none.\<close>

fun all_some :: "'a option list \<Rightarrow> 'a list option" where
  "all_some [] = Some []"
| "all_some (None # xs) = None"
| "all_some (Some x # xs) = map_option (Cons x) (all_some xs)"

definition medians :: "real list list list \<Rightarrow> real list list option" where
  "medians seconds = all_some (map (\<lambda>row. all_some (map median row)) seconds)"

text \<open>\<open>g_sink\<close> is what the runs added up.\<close>

definition bench_exit :: "u64 \<Rightarrow> string \<Rightarrow> exit" where
  "bench_exit g_sink out = (if g_sink = 0xdeadbeef then EXIT_FAILURE else EXIT_SUCCESS, out, [])"

definition analysis_bench_run :: "analysis_bench_options \<Rightarrow> QueuedPacket list \<Rightarrow> (nat \<Rightarrow> real) \<Rightarrow> u64 \<Rightarrow> exit option" where
  "analysis_bench_run opts packets clock g_sink =
     (let counts = thread_counts (ab_max_threads opts)
      in map_option (\<lambda>meds. bench_exit g_sink (analysis_report opts (length packets) counts meds))
           (medians (measure_rules clock (ab_reps opts) (length counts))))"

section \<open>Every cell has its own measurements\<close>

definition table_shape :: "nat \<Rightarrow> nat \<Rightarrow> 'a list list \<Rightarrow> bool" where
  "table_shape rules counts table \<longleftrightarrow> length table = rules \<and> list_all (\<lambda>row. length row = counts) table"

lemma shape_row: "table_shape R C table \<Longrightarrow> r < R \<Longrightarrow> length (table ! r) = C"
  by (simp add: table_shape_def list_all_length)

lemma add_time_shape: "table_shape R C secs \<Longrightarrow> fst rt < R \<Longrightarrow> table_shape R C (add_time x rt secs)"
  by (auto simp: table_shape_def add_time_def list_all_length nth_list_update split: prod.splits)

lemma add_time_cell:
  assumes "table_shape R C secs" "fst rt < R" "snd rt < C" "r < R" "t < C"
  shows "add_time x rt secs ! r ! t = secs ! r ! t @ (if rt = (r, t) then [x] else [])"
  using assms shape_row [OF assms(1)] by (cases rt) (auto simp: add_time_def table_shape_def nth_list_update)

lemma measure_pairs_cell:
  assumes "table_shape R C secs" "list_all (\<lambda>rt. fst rt < R \<and> snd rt < C) rts" "r < R" "t < C"
  shows "table_shape R C (measure_pairs clock k rts secs) \<and>
    measure_pairs clock k rts secs ! r ! t =
      secs ! r ! t @ map (\<lambda>i. clock (k + i)) (filter (\<lambda>i. rts ! i = (r, t)) [0..<length rts])"
  using assms
proof (induction rts arbitrary: k secs)
  case (Cons rt rts)
  have shape: "table_shape R C (add_time (clock k) rt secs)" using Cons.prems by (simp add: add_time_shape)
  have split: "filter (\<lambda>i. (rt # rts) ! i = (r, t)) [0..<length (rt # rts)] =
      (if rt = (r, t) then [0] else []) @ map Suc (filter (\<lambda>i. rts ! i = (r, t)) [0..<length rts])"
    by (simp add: upt_conv_Cons filter_map comp_def del: upt_Suc flip: map_Suc_upt)
  show ?case
    using Cons.IH [OF shape, of "k + 1"] Cons.prems add_time_cell [OF Cons.prems(1) _ _ Cons.prems(3,4), of rt "clock k"]
    unfolding split by (auto simp: comp_def)
qed simp

lemma measured_pairs_eq: "measured_pairs R C = map (\<lambda>i. (i div C, i mod C)) [0..<R * C]"
proof (induction R)
  case (Suc R)
  have "map (\<lambda>i. (i div C, i mod C)) [R * C..<R * C + C] = map (\<lambda>t. (R, t)) [0..<C]"
    by (rule nth_equalityI) auto
  moreover have "[0..<Suc R * C] = [0..<R * C] @ [R * C..<R * C + C]"
    using upt_add_eq_append [of 0 "R * C" C] by (simp add: add.commute)
  ultimately show ?case using Suc by (simp add: measured_pairs_def)
qed (simp add: measured_pairs_def)

lemma filter_single: "a < n \<Longrightarrow> filter (\<lambda>i. i = a) [0..<n] = [a]"
  by (induction n) (auto simp: less_Suc_eq filter_empty_conv)

lemma measured_once:
  assumes "r < R" "t < C"
  shows "filter (\<lambda>i. measured_pairs R C ! i = (r, t)) [0..<length (measured_pairs R C)] = [r * C + t]"
proof -
  have "r * C + t < R * C"
    using assms by (metis add.commute less_eq_Suc_le mult_Suc mult_le_mono1 add_less_cancel_right order_less_le_trans)
  moreover have "(i div C = r \<and> i mod C = t) = (i = r * C + t)" for i
    using assms(2) div_mult_mod_eq [of i C] by auto
  ultimately show ?thesis
    by (subst filter_cong [OF refl, of _ _ "\<lambda>i. i = r * C + t"]) (auto simp: measured_pairs_eq filter_single)
qed

lemma measure_reps_cell:
  assumes "table_shape R C secs" "r < R" "t < C"
  shows "table_shape R C (measure_reps clock k reps R C secs) \<and>
    measure_reps clock k reps R C secs ! r ! t = secs ! r ! t @ map (\<lambda>i. clock (k + i * (R * C) + r * C + t)) [0..<reps]"
  using assms
proof (induction reps arbitrary: k secs)
  case (Suc reps)
  let ?s = "measure_pairs clock k (measured_pairs R C) secs"
  have "list_all (\<lambda>rt. fst rt < R \<and> snd rt < C) (measured_pairs R C)"
    by (auto simp: measured_pairs_def list_all_iff)
  from measure_pairs_cell [OF Suc.prems(1) this Suc.prems(2,3), of clock k]
  have s: "table_shape R C ?s" "?s ! r ! t = secs ! r ! t @ [clock (k + (r * C + t))]"
    by (simp_all add: measured_once [OF Suc.prems(2,3)])
  have upt: "map f [0..<Suc reps] = f 0 # map (\<lambda>i. f (Suc i)) [0..<reps]" for f :: "nat \<Rightarrow> real"
    by (simp add: upt_conv_Cons comp_def del: upt_Suc flip: map_Suc_upt)
  show ?case
    using Suc.IH [OF s(1) Suc.prems(2,3), of "k + R * C"] s(2) by (simp add: upt algebra_simps del: upt_Suc)
qed simp

text \<open>
  The \<open>i\<close>-th time of rule \<open>r\<close> and thread count \<open>t\<close> is that of the run of this pair in repetition \<open>i\<close>, so slow
  drift of the machine hits all cells alike.
\<close>

lemma measure_rules_cell:
  assumes "r < length kRules" "t < counts"
  shows "measure_rules clock reps counts ! r ! t =
    map (\<lambda>i. clock (i * (length kRules * counts) + r * counts + t)) [0..<nat reps]"
proof -
  have "table_shape (length kRules) counts (replicate (length kRules) (replicate counts []))"
    by (simp add: table_shape_def list_all_iff)
  from measure_reps_cell [OF this assms, of clock 0 "nat reps"] assms show ?thesis by (simp add: measure_rules_def)
qed

lemma measure_rules_shape:
  assumes "0 < counts"
  shows "table_shape (length kRules) counts (measure_rules clock reps counts)"
proof -
  have "table_shape (length kRules) counts (replicate (length kRules) (replicate counts []))"
    by (simp add: table_shape_def list_all_iff)
  from measure_reps_cell [OF this _ assms, of 0 clock 0 "nat reps"] show ?thesis
    by (simp add: measure_rules_def kRules_def)
qed

lemma all_some_map: "\<forall>x \<in> set xs. f x \<noteq> None \<Longrightarrow> all_some (map f xs) = Some (map (the \<circ> f) xs)"
  by (induction xs) auto

lemma median_defined: "v \<noteq> [] \<Longrightarrow> median v \<noteq> None"
  using median_halves by fastforce

lemma medians_defined:
  assumes "\<forall>row \<in> set secs. \<forall>v \<in> set row. v \<noteq> []"
  shows "medians secs = Some (map (map (the \<circ> median)) secs)"
proof -
  have row: "all_some (map median row) = Some (map (the \<circ> median) row)" if "row \<in> set secs" for row
    using that assms by (intro all_some_map) (auto dest: median_defined)
  then have "medians secs = Some (map (the \<circ> (\<lambda>row. all_some (map median row))) secs)"
    unfolding medians_def by (intro all_some_map) auto
  then show ?thesis using row by (simp add: comp_def cong: map_cong)
qed

text \<open>With at least one repetition the benchmark always reaches its report.\<close>

lemma analysis_bench_reports:
  assumes "0 < ab_reps opts" "0 < ab_max_threads opts"
  shows "\<exists>meds. analysis_bench_run opts packets clock g_sink =
      Some (bench_exit g_sink (analysis_report opts (length packets) (thread_counts (ab_max_threads opts)) meds)) \<and>
    (\<forall>r < length kRules. \<forall>t < length (thread_counts (ab_max_threads opts)).
       Some (meds ! r ! t) = median (map (\<lambda>i. clock (i * (length kRules * length (thread_counts (ab_max_threads opts))) +
         r * length (thread_counts (ab_max_threads opts)) + t)) [0..<nat (ab_reps opts)]))"
proof -
  let ?c = "length (thread_counts (ab_max_threads opts))"
  let ?s = "measure_rules clock (ab_reps opts) ?c"
  have c: "0 < ?c" using thread_counts_range(3) [OF assms(2)] by (auto dest: length_pos_if_in_set)
  note shape = measure_rules_shape [OF c, of clock "ab_reps opts"]
  have len: "length ?s = length kRules" using shape by (simp add: table_shape_def)
  have filled: "\<forall>row \<in> set ?s. \<forall>v \<in> set row. v \<noteq> []"
    using measure_rules_cell [of _ _ ?c clock "ab_reps opts"] shape_row [OF shape] assms(1)
    by (auto simp: in_set_conv_nth len)
  have "Some (map (map (the \<circ> median)) ?s ! r ! t) = median (?s ! r ! t)" if "r < length kRules" "t < ?c" for r t
  proof -
    have "?s ! r \<in> set ?s" "?s ! r ! t \<in> set (?s ! r)" using that shape_row [OF shape that(1)] by (simp_all add: len)
    then have "median (?s ! r ! t) \<noteq> None" using filled median_defined by blast
    then show ?thesis using that shape_row [OF shape that(1)] by (simp add: len)
  qed
  then show ?thesis
    using measure_rules_cell medians_defined [OF filled]
    by (intro exI [of _ "map (map (the \<circ> median)) ?s"]) (simp add: analysis_bench_run_def Let_def)
qed

text \<open>The first thread count is one, and its speed-up reads 1.0.\<close>

lemma first_thread_count:
  assumes "0 < most"
  shows "hd (thread_counts most) = 1"
proof -
  obtain x xs where t: "thread_counts most = x # xs"
    using thread_counts_range(3) [OF assms] by (cases "thread_counts most") auto
  then show ?thesis using thread_counts_range [OF assms] by (fastforce simp: t)
qed

lemma one_thread_speedup:
  assumes "0 < m" "0 < n"
  shows "speedup_cell n (m # rest) m = snprintf 32 (fixed_dec 2 (n / m / 1000000) @ '' (1.0x)'')"
proof -
  have "char_of (49 :: nat) = CHR ''1''" "char_of (48 :: nat) = CHR ''0''" by code_simp+
  then have "fixed_dec 1 (1 :: real) = ''1.0''"
    by (simp add: fixed_dec_def round_half_even_def zero_pad_def dec_nat.simps digit_char_def)
  then show ?thesis using assms by (simp add: speedup_cell_def)
qed

section \<open>The capture benchmark\<close>

definition capture_bench_setup :: "nat \<Rightarrow> string \<Rightarrow> string list \<Rightarrow> exit + capture_bench_options" where
  "capture_bench_setup cores argv0 args =
     (case capture_bench_args argv0 args (capture_bench_defaults cores) of
        Inl message \<Rightarrow> Inl (EXIT_FAILURE, [], message)
      | Inr opts \<Rightarrow> if cb_path opts = [] then Inl (bench_no_path argv0) else Inr opts)"

definition open_or_die :: "(string \<Rightarrow> string + 'h) \<Rightarrow> string \<Rightarrow> exit + 'h" where
  "open_or_die pcap_open_offline path =
     (case pcap_open_offline path of
        Inl errbuf \<Rightarrow> Inl (EXIT_FAILURE, [], ''cannot open '' @ path @ '': '' @ errbuf @ nl)
      | Inr h \<Rightarrow> Inr h)"

definition stages :: "(Stage \<times> string) list" where
  "stages = [(kRead, ''read''), (kDecode, ''+ decode''), (kCopy, ''+ copy (reused buffer)''),
     (kAllocate, ''+ allocate (heap per packet)''), (kQueue, ''+ queue (to workers)''),
     (kQueueNoPayload, ''queue, payload not copied'')]"

definition kStages :: nat where "kStages = 6"
definition kCumulative :: nat where "kCumulative = kStages - 1"

record stage_figures =
  res_packets :: size_t
  res_seconds :: real
  res_avg_batch :: real

text \<open>
  One call of \<open>run_stage\<close>: the file is opened and read to its end, and in the queue stages the shutdown
  and the join of the workers follow. \<open>consumed\<close> and \<open>batch_number\<close> are what the workers counted by then.
\<close>

definition stage_outcome :: "Stage \<Rightarrow> stage_state \<Rightarrow> u64 \<Rightarrow> u64 \<Rightarrow> real \<Rightarrow> exit + stage_figures" where
  "stage_outcome stage t consumed batch_number seconds =
     (if queued_stage stage then
        (case stage_result (st_packets t) consumed batch_number of
           Inl message \<Rightarrow> Inl (EXIT_FAILURE, [], message)
         | Inr avg \<Rightarrow> Inr \<lparr>res_packets = st_packets t, res_seconds = seconds, res_avg_batch = avg\<rparr>)
      else Inr \<lparr>res_packets = st_packets t, res_seconds = seconds, res_avg_batch = 0\<rparr>)"

definition run_stage :: "(string \<Rightarrow> string + 'h) \<Rightarrow> string \<Rightarrow> Stage \<Rightarrow> next_answer list \<Rightarrow> u64 \<Rightarrow> u64 \<Rightarrow> real
    \<Rightarrow> mem_error + (exit + stage_figures)" where
  "run_stage pcap_open_offline path stage nexts consumed batch_number seconds =
     (case open_or_die pcap_open_offline path of
        Inl e \<Rightarrow> Inr (Inl e)
      | Inr h \<Rightarrow>
          and_then (stage_loop stage nexts stage_start)
            (\<lambda>t. Inr (stage_outcome stage t consumed batch_number seconds)))"

text \<open>The rows of the table: packets and median seconds of each stage; \<open>s\<close> counts the stages.\<close>

definition stage_ns :: "size_t \<times> real \<Rightarrow> real" where
  "stage_ns f = (case f of (packets, sec) \<Rightarrow> 1000000000 / (real packets / sec))"

definition step_text :: "nat \<Rightarrow> real \<Rightarrow> real \<Rightarrow> string" where
  "step_text s ns previous_ns =
     (if 0 < s \<and> s < kCumulative then snprintf 32 (signed_dec (ns - previous_ns) @ '' ns'') else [])"

fun stage_lines :: "nat \<Rightarrow> real \<Rightarrow> (string \<times> size_t \<times> real) list \<Rightarrow> string" where
  "stage_lines s previous_ns [] = []"
| "stage_lines s previous_ns ((name, f) # rest) =
     (let ns = stage_ns f
      in (if s = kCumulative then nl @ ''compare with \"+ queue\":'' @ nl else []) @
         pad_right 30 name @ '' '' @ pad_left 12 (fixed_dec 0 (real (fst f) / snd f)) @ '' '' @
         pad_left 14 (fixed_dec 0 ns) @ '' '' @ pad_left 14 (step_text s ns previous_ns) @ nl @
         stage_lines (s + 1) ns rest)"

definition capture_header :: "capture_bench_options \<Rightarrow> string" where
  "capture_header opts =
     ''capture thread alone: '' @ cb_path opts @ '', '' @ dec_nat (cb_workers opts) @ '' workers, batch '' @
       dec_nat (cb_batch opts) @ '', linger '' @ dec_int (cb_linger_us opts) @ '' us, queue '' @
       dec_nat (cb_capacity opts) @ '', median of '' @ dec_int (cb_reps opts) @ nl @ nl"

definition capture_report :: "(size_t \<times> real) list \<Rightarrow> real \<Rightarrow> string" where
  "capture_report figures avg_batch =
     pad_right 30 ''stage'' @ '' '' @ pad_left 12 ''packets/sec'' @ '' '' @ pad_left 14 ''ns/packet'' @ '' '' @
       pad_left 14 ''step costs'' @ nl @
     stage_lines 0 0 (zip (map snd stages) figures) @
     nl @ ''packets: '' @ dec_nat (fst (figures ! 0)) @ '' read, '' @ dec_nat (fst (figures ! (kCumulative - 1))) @
       '' decoded; avg batch taken by workers: '' @ fixed_dec 1 avg_batch @ nl"

text \<open>
  Every stage runs once per repetition. \<open>runs rep s\<close> is the result of stage \<open>s\<close> in repetition \<open>rep\<close>; the
  first that fails ends the program. The number of packets kept is that of the last repetition.
\<close>

fun stage_column :: "(nat \<Rightarrow> exit + stage_figures) \<Rightarrow> nat \<Rightarrow> exit + stage_figures list" where
  "stage_column run 0 = Inr []"
| "stage_column run (Suc n) =
     and_then (stage_column run n) (\<lambda>rs. and_then (run n) (\<lambda>r. Inr (rs @ [r])))"

fun repetitions :: "(nat \<Rightarrow> nat \<Rightarrow> exit + stage_figures) \<Rightarrow> nat \<Rightarrow> exit + stage_figures list list" where
  "repetitions runs 0 = Inr []"
| "repetitions runs (Suc rep) =
     and_then (repetitions runs rep) (\<lambda>rows. and_then (stage_column (runs rep) kStages) (\<lambda>row. Inr (rows @ [row])))"

definition capture_figures :: "stage_figures list list \<Rightarrow> ((size_t \<times> real) list \<times> real) option" where
  "capture_figures rows =
     (case (all_some (map (\<lambda>s. median (map (\<lambda>row. res_seconds (row ! s)) rows)) [0..<kStages]),
            median (map (\<lambda>row. res_avg_batch (row ! 4)) rows)) of
        (Some secs, Some avg) \<Rightarrow> Some (map2 (\<lambda>s sec. (res_packets (last rows ! s), sec)) [0..<kStages] secs, avg)
      | _ \<Rightarrow> None)"

text \<open>After a warm-up of the read stage the heading is printed, then all stages are measured.\<close>

definition capture_bench_run :: "capture_bench_options \<Rightarrow> exit + stage_figures \<Rightarrow> (nat \<Rightarrow> nat \<Rightarrow> exit + stage_figures)
    \<Rightarrow> u64 \<Rightarrow> exit option" where
  "capture_bench_run opts warm_up runs g_sink =
     (case warm_up of
        Inl e \<Rightarrow> Some e
      | Inr _ \<Rightarrow>
          (case repetitions runs (nat (cb_reps opts)) of
             Inl (code, out, err) \<Rightarrow> Some (code, capture_header opts @ out, err)
           | Inr rows \<Rightarrow>
               map_option (\<lambda>(figures, avg). bench_exit g_sink (capture_header opts @ capture_report figures avg))
                 (capture_figures rows)))"

text \<open>
  A file that can be opened never makes a stage fail, whatever the schedule of the workers: the packets
  they count are those pushed.
\<close>

lemma run_stage_succeeds:
  assumes "list_all raw_frame_ok fs" "0 < batch" "length fs < 2 ^ 64" "pcap_open_offline path = Inr h"
    and "\<And>t. stage_loop stage (map NextFrame fs @ [NextEnd]) stage_start = Inr t \<Longrightarrow>
      pipeline_reachable batch linger (pipeline_start cap pool (st_pushed t)) s \<and> main_pc s = MDone"
  shows "\<exists>figs. run_stage pcap_open_offline path stage (map NextFrame fs @ [NextEnd]) (processed s) (batches s) seconds =
      Inr (Inr figs) \<and> res_avg_batch figs \<le> real batch \<and>
    res_packets figs = (if stage = kRead then length fs else length (parsed_frames fs))"
proof -
  obtain t where t: "stage_loop stage (map NextFrame fs @ [NextEnd]) stage_start = Inr t"
    "st_packets t = (if stage = kRead then length fs else length (parsed_frames fs))"
    and q: "queued_stage stage \<Longrightarrow> \<exists>avg. stage_result (st_packets t) (processed s) (batches s) = Inr avg \<and> 0 \<le> avg \<and> avg \<le> real batch"
    using stage_run_sound [OF assms(1-3), of stage] assms(5) by blast
  then show ?thesis
    using assms(4) by (cases "queued_stage stage") (auto simp: run_stage_def open_or_die_def stage_outcome_def)
qed

text \<open>The failure of a stage is the program's; otherwise it reports, each stage with its own median.\<close>

lemma stage_column_length: "stage_column run n = Inr rs \<Longrightarrow> length rs = n \<and> (\<forall>s < n. run s = Inr (rs ! s))"
  by (induction n arbitrary: rs) (auto simp: and_then_Inr_iff nth_append less_Suc_eq)

lemma repetitions_rows:
  "repetitions runs n = Inr rows \<Longrightarrow> length rows = n \<and> (\<forall>i < n. \<forall>s < kStages. runs i s = Inr (rows ! i ! s))"
  by (induction n arbitrary: rows) (auto simp: and_then_Inr_iff nth_append less_Suc_eq dest: stage_column_length)

lemma capture_bench_reports:
  assumes "0 < cb_reps opts" "\<And>rep s. rep < nat (cb_reps opts) \<Longrightarrow> s < kStages \<Longrightarrow> runs rep s = Inr (figs rep s)"
  shows "\<exists>figures avg. capture_bench_run opts (Inr warm) runs g_sink =
      Some (bench_exit g_sink (capture_header opts @ capture_report figures avg)) \<and>
    length figures = kStages \<and>
    (\<forall>s < kStages. fst (figures ! s) = res_packets (figs (nat (cb_reps opts) - 1) s) \<and>
       Some (snd (figures ! s)) = median (map (\<lambda>rep. res_seconds (figs rep s)) [0..<nat (cb_reps opts)]))"
proof -
  let ?n = "nat (cb_reps opts)"
  have col: "stage_column (runs rep) k = Inr (map (figs rep) [0..<k])" if "rep < ?n" "k \<le> kStages" for rep k
    using that by (induction k) (simp_all add: assms(2))
  have rows: "repetitions runs k = Inr (map (\<lambda>rep. map (figs rep) [0..<kStages]) [0..<k])" if "k \<le> ?n" for k
    using that by (induction k) (simp_all add: col)
  let ?rows = "map (\<lambda>rep. map (figs rep) [0..<kStages]) [0..<?n]"
  have ne: "?rows \<noteq> []" using assms(1) by simp
  let ?sec = "\<lambda>s. median (map (\<lambda>row. res_seconds (row ! s)) ?rows)"
  have secs: "all_some (map ?sec [0..<kStages]) = Some (map (the \<circ> ?sec) [0..<kStages])"
    by (intro all_some_map ballI median_defined) (use ne in simp)
  obtain avg where avg: "median (map (\<lambda>row. res_avg_batch (row ! 4)) ?rows) = Some avg"
    using median_defined [of "map (\<lambda>row. res_avg_batch (row ! 4)) ?rows"] ne by auto
  have sec: "Some (the (?sec s)) = median (map (\<lambda>rep. res_seconds (figs rep s)) [0..<?n])" if "s < kStages" for s
  proof -
    have eq: "map (\<lambda>row. res_seconds (row ! s)) ?rows = map (\<lambda>rep. res_seconds (figs rep s)) [0..<?n]"
      using that by simp
    show ?thesis unfolding eq
      using median_defined [of "map (\<lambda>rep. res_seconds (figs rep s)) [0..<?n]"] assms(1) by auto
  qed
  let ?f = "map2 (\<lambda>s sec. (res_packets (last ?rows ! s), sec)) [0..<kStages] (map (the \<circ> ?sec) [0..<kStages])"
  have "capture_figures ?rows = Some (?f, avg)" unfolding capture_figures_def by (simp only: secs avg option.case prod.case)
  then have run: "capture_bench_run opts (Inr warm) runs g_sink =
      Some (bench_exit g_sink (capture_header opts @ capture_report ?f avg))"
    unfolding capture_bench_run_def by (simp add: rows)
  have last: "last ?rows = map (figs (?n - 1)) [0..<kStages]" using assms(1) by (simp add: last_map)
  show ?thesis
    by (rule exI [of _ ?f], rule exI [of _ avg]) (use run sec last in simp)
qed

section \<open>The entropy benchmark\<close>

fun entropy_bench_args :: "string \<Rightarrow> string list \<Rightarrow> string option \<Rightarrow> string + string option" where
  "entropy_bench_args argv0 [] csv_path = Inr csv_path"
| "entropy_bench_args argv0 [arg] csv_path = Inl (''usage: '' @ argv0 @ '' [--csv path]'' @ nl)"
| "entropy_bench_args argv0 (arg # path # rest) csv_path =
     (if arg = ''--csv'' then entropy_bench_args argv0 rest (Some path)
      else Inl (''usage: '' @ argv0 @ '' [--csv path]'' @ nl))"

text \<open>The names of the backends, and what is written before the table; or the error text.\<close>

definition entropy_bench_backends :: "'h environment \<Rightarrow> string + string list \<times> string" where
  "entropy_bench_backends env =
     (if env_metal env then
        (let (ok, ctx) = new_GpuEntropyBackend (env_handles env) (env_build env) in
         if \<not> ok then Inl (''GPU unavailable: '' @ last_error ctx @ nl)
         else Inr ([''cpu'', ''gpu ('' @ device_name (env_handles env) @ '')''], []))
      else Inr ([''cpu''], ''(no Metal in this build: CPU rows only)'' @ nl))"

text \<open>
  A backend at work: its name and \<open>time_backend\<close> for a payload size, a batch size and packets. The
  first failure ends the program after what was measured so far.
\<close>

type_synonym timed_backend = "string \<times> (size_t \<Rightarrow> size_t \<Rightarrow> QueuedPacket list \<Rightarrow> (real \<times> real list) option)"

fun time_all :: "size_t \<Rightarrow> size_t \<Rightarrow> QueuedPacket list \<Rightarrow> timed_backend list
    \<Rightarrow> (string \<times> real \<times> real list) list \<times> string option" where
  "time_all bytes batch packets [] = ([], None)"
| "time_all bytes batch packets ((name, timed) # backends) =
     (case timed bytes batch packets of
        None \<Rightarrow> ([], Some (name @ '' backend failed'' @ nl))
      | Some (seconds, results) \<Rightarrow>
          let (rest, failure) = time_all bytes batch packets backends in ((name, seconds, results) # rest, failure))"

definition bench_points :: "(size_t \<times> size_t) list" where
  "bench_points = [(bytes, batch). bytes \<leftarrow> [64, 512, 1460], batch \<leftarrow> [1, 16, 64, 256, 1024, 4096]]"

definition point_rows :: "(nat \<Rightarrow> u32) \<Rightarrow> timed_backend list \<Rightarrow> size_t \<times> size_t \<Rightarrow> Row list \<times> string option" where
  "point_rows rng backends point =
     (case point of (bytes, batch) \<Rightarrow>
        let packets = take (packets_for batch) (make_packets rng kMaxPackets bytes);
            (runs, failure) = time_all bytes batch packets backends
        in (bench_rows bytes batch [] runs, failure))"

fun entropy_rows :: "(nat \<Rightarrow> u32) \<Rightarrow> timed_backend list \<Rightarrow> (size_t \<times> size_t) list \<Rightarrow> Row list list \<times> string option" where
  "entropy_rows rng backends [] = ([], None)"
| "entropy_rows rng backends (point # points) =
     (case point_rows rng backends point of
        (rows, Some failure) \<Rightarrow> ([rows], Some failure)
      | (rows, None) \<Rightarrow> (case entropy_rows rng backends points of (rest, failure) \<Rightarrow> (rows # rest, failure)))"

text \<open>The lines of one point of the table; \<open>cpu_pps\<close> is set by the row of the CPU backend.\<close>

fun table_lines :: "real \<Rightarrow> Row list \<Rightarrow> string" where
  "table_lines cpu_pps [] = []"
| "table_lines cpu_pps (r # rows) =
     (let pps = packets_per_sec r; cpu_pps = (if row_backend r = ''cpu'' then pps else cpu_pps)
      in pad_right 22 (row_backend r) @ '' '' @ pad_left 8 (dec_nat (row_payload_bytes r)) @ '' '' @
         pad_left 6 (dec_nat (row_batch_size r)) @ '' '' @ pad_left 14 (fixed_dec 0 pps) @ '' '' @
         pad_left 10 (fixed_dec 1 (pps * real (row_payload_bytes r) / 1000000)) @ '' '' @
         pad_left 7 (fixed_dec 2 (if cpu_pps > 0 then pps / cpu_pps else 0)) @ ''x '' @
         pad_left 10 (general_dec 2 (max_abs_error r)) @ nl @ table_lines cpu_pps rows)"

definition table_header :: string where
  "table_header = pad_right 22 ''backend'' @ '' '' @ pad_left 8 ''payload'' @ '' '' @ pad_left 6 ''batch'' @ '' '' @
     pad_left 14 ''packets/sec'' @ '' '' @ pad_left 10 ''MB/s'' @ '' '' @ pad_left 8 ''vs cpu'' @ '' '' @
     pad_left 10 ''max err'' @ nl"

definition csv_line :: "Row \<Rightarrow> string" where
  "csv_line r = row_backend r @ '','' @ dec_nat (row_payload_bytes r) @ '','' @ dec_nat (row_batch_size r) @ '','' @
     fixed_dec 0 (packets_per_sec r) @ '','' @ fixed_dec 2 (megabytes_per_sec r) @ '','' @
     general_dec 3 (max_abs_error r) @ nl"

definition csv_file :: "Row list \<Rightarrow> string" where
  "csv_file rows =
     ''backend,payload_bytes,batch_size,packets_per_sec,megabytes_per_sec,max_abs_error'' @ nl @ concat (map csv_line rows)"

text \<open>
  The program: exit, and the CSV file it wrote, if any. \<open>fopen\<close> is the answer for the path; the text of
  \<open>perror\<close> is that answer.
\<close>

definition entropy_bench_main :: "'h environment \<Rightarrow> (nat \<Rightarrow> u32) \<Rightarrow> (string \<Rightarrow> timed_backend) \<Rightarrow> (string \<Rightarrow> string option)
    \<Rightarrow> string \<Rightarrow> string list \<Rightarrow> exit \<times> string option" where
  "entropy_bench_main env rng timed fopen_error argv0 args =
     (case entropy_bench_args argv0 args None of
        Inl message \<Rightarrow> ((EXIT_FAILURE, [], message), None)
      | Inr csv_path \<Rightarrow>
          (case entropy_bench_backends env of
             Inl message \<Rightarrow> ((EXIT_FAILURE, [], message), None)
           | Inr (names, note) \<Rightarrow>
               (let (rows, failure) = entropy_rows rng (map timed names) bench_points;
                    out = note @ table_header @ concat (map (table_lines 0) rows)
                in case failure of
                     Some message \<Rightarrow> ((EXIT_FAILURE, out, message), None)
                   | None \<Rightarrow>
                       (case csv_path of
                          None \<Rightarrow> ((EXIT_SUCCESS, out, []), None)
                        | Some path \<Rightarrow>
                            (case fopen_error path of
                               Some reason \<Rightarrow> ((EXIT_FAILURE, out, path @ '': '' @ reason @ nl), None)
                             | None \<Rightarrow> ((EXIT_SUCCESS, out, []), Some (csv_file (concat rows))))))))"

text \<open>One row per backend and point, in order.\<close>

lemma bench_rows_keys:
  "map (\<lambda>r. (row_backend r, row_payload_bytes r, row_batch_size r)) (bench_rows bytes batch cpu runs) =
     map (\<lambda>(name, _). (name, bytes, batch)) runs"
  by (induction runs arbitrary: cpu) (auto simp: Let_def)

lemma time_all_names:
  "time_all bytes batch packets backends = (runs, None) \<Longrightarrow> map fst runs = map fst backends"
  by (induction backends arbitrary: runs) (auto split: option.splits prod.splits)

lemma names_only: "map (\<lambda>(name, _). (name, bytes, batch)) xs = map (\<lambda>name. (name, bytes, batch)) (map fst xs)"
  by (induction xs) auto

lemma point_rows_keys:
  assumes "point_rows rng backends (bytes, batch) = (rs, None)"
  shows "map (\<lambda>r. (row_backend r, row_payload_bytes r, row_batch_size r)) rs = map (\<lambda>(name, _). (name, bytes, batch)) backends"
proof -
  obtain runs where t: "time_all bytes batch (take (packets_for batch) (make_packets rng kMaxPackets bytes)) backends = (runs, None)"
    "rs = bench_rows bytes batch [] runs" using assms by (auto simp: point_rows_def Let_def split: prod.splits)
  show ?thesis by (simp only: t(2) bench_rows_keys names_only time_all_names [OF t(1)])
qed

lemma entropy_rows_keys:
  "entropy_rows rng backends points = (rows, None) \<Longrightarrow>
     map (map (\<lambda>r. (row_backend r, row_payload_bytes r, row_batch_size r))) rows =
     map (\<lambda>(bytes, batch). map (\<lambda>(name, _). (name, bytes, batch)) backends) points"
  by (induction points arbitrary: rows) (auto dest: point_rows_keys split: prod.splits option.splits)

text \<open>On the CPU alone the benchmark does not fail, and its error column is zero.\<close>

definition cpu_timed :: "(size_t \<Rightarrow> size_t \<Rightarrow> real list) \<Rightarrow> timed_backend" where
  "cpu_timed clock = (''cpu'', \<lambda>bytes batch packets.
     time_backend (replicate (kReps + 2) CpuEntropyBackend) (clock bytes batch) batch packets)"

lemma max_error_self: "max_error rs rs = 0"
proof -
  have "map2 (\<lambda>r c. \<bar>r - c\<bar>) rs rs = map (\<lambda>_. 0) rs" by (induction rs) simp_all
  moreover have "foldl max (0 :: real) (map (\<lambda>_. 0) rs) = 0" by (induction rs) simp_all
  ultimately show ?thesis by (simp add: max_error_def)
qed

lemma cpu_point:
  assumes "0 < batch"
  shows "\<exists>r. point_rows rng [cpu_timed clock] (bytes, batch) = ([r], None) \<and> max_abs_error r = 0"
  using assms
  by (auto simp: point_rows_def cpu_timed_def time_backend_def one_pass_cpu kReps_def Let_def max_error_self)

lemma cpu_rows:
  "list_all (\<lambda>p. 0 < snd p) points \<Longrightarrow>
     \<exists>rows. entropy_rows rng [cpu_timed clock] points = (rows, None) \<and> (\<forall>r \<in> set (concat rows). max_abs_error r = 0)"
proof (induction points)
  case (Cons p points)
  then obtain r where "point_rows rng [cpu_timed clock] p = ([r], None)" "max_abs_error r = 0"
    using cpu_point [of "snd p" rng clock "fst p"] by auto
  then show ?case using Cons by auto
qed simp

end
