(* ===== verification/Test_Frames.thy ===== *)
theory Test_Frames
  imports Wire_Spec Signature_DB
begin

text \<open>
  The frame builders of \<open>tests/test_support.hpp\<close>, proved to be instances of the wire specification, and
  the test program \<open>tests/test_parser.cpp\<close>. A test is the list of the outcomes of its checks in order,
  or \<open>Inl OutOfBounds\<close> where it would follow a null pointer, take the value of an empty optional or leave
  a buffer. The last lemma says that the program reports no failure when it runs on the model of the
  parser.
\<close>

unbundle bit_operations_syntax

section \<open>Building frames\<close>

text \<open>The bytes of a \<open>uint16_t\<close> in memory, and \<open>memcpy\<close> of such bytes into a vector.\<close>

definition store16 :: "u16 \<Rightarrow> u8 list" where
  "store16 w = [ucast w, ucast (drop_bit 8 w)]"

definition poke :: "nat \<Rightarrow> u8 list \<Rightarrow> u8 list \<Rightarrow> u8 list" where
  "poke off bs frame = take off frame @ bs @ drop (off + length bs) frame"

text \<open>\<open>htons\<close> is \<open>ntohs\<close>. \<open>inet_pton\<close> writes the octets of the text in the order they stand there.\<close>

fun split_dots :: "string \<Rightarrow> string \<Rightarrow> string list" where
  "split_dots part [] = [part]"
| "split_dots part (c # text) = (if c = CHR ''.'' then part # split_dots [] text else split_dots (part @ [c]) text)"

definition inet_pton :: "string \<Rightarrow> u8 list" where
  "inet_pton text = map (\<lambda>part. of_nat (dec_value part)) (split_dots [] text)"

definition build_eth :: "u16 \<Rightarrow> u8 list \<Rightarrow> u8 list" where
  "build_eth ethertype body =
     poke 12 (store16 (ntohs ethertype)) (replicate 6 0xbb @ replicate 6 0xaa @ replicate 2 0) @ body"

definition build_ipv4 :: "string \<Rightarrow> string \<Rightarrow> u8 \<Rightarrow> u8 list \<Rightarrow> u8 \<Rightarrow> u8 list" where
  "build_ipv4 src dst proto body ihl =
     (let header_bytes = unat ihl * 4;
          header = replicate header_bytes 0;
          header = header[0 := push_bit 4 4 OR ihl];
          header = poke 2 (store16 (ntohs (of_nat (header_bytes + length body)))) header;
          header = header[8 := 64, 9 := proto];
          header = poke 12 (inet_pton src) header;
          header = poke 16 (inet_pton dst) header
      in header @ body)"

definition build_tcp :: "u16 \<Rightarrow> u16 \<Rightarrow> u8 \<Rightarrow> u8 list \<Rightarrow> u8 \<Rightarrow> u8 list" where
  "build_tcp sport dport flags body words =
     (let header = replicate (unat words * 4) 0;
          header = poke 0 (store16 (ntohs sport)) header;
          header = poke 2 (store16 (ntohs dport)) header;
          header = header[12 := push_bit 4 words, 13 := flags]
      in header @ body)"

definition build_udp :: "u16 \<Rightarrow> u16 \<Rightarrow> u8 list \<Rightarrow> u8 list" where
  "build_udp sport dport body =
     (let header = replicate 8 0;
          header = poke 0 (store16 (ntohs sport)) header;
          header = poke 2 (store16 (ntohs dport)) header;
          header = poke 4 (store16 (ntohs (of_nat (8 + length body)))) header
      in header @ body)"

section \<open>The builders follow the wire specification\<close>

lemma store16_ntohs [simp]: "store16 (ntohs w) = enc16 w"
proof -
  have "ucast (be16 a b) = b" "ucast (drop_bit 8 (be16 a b)) = a" for a b
    by (rule bit_eqI; auto simp: be16_def bit_simps bit_u8_beyond)+
  then show ?thesis by (simp add: store16_def ntohs_def enc16_def)
qed

lemma build_eth_enc: "build_eth et body = enc_ethernet (replicate 6 0xbb) (replicate 6 0xaa) et body"
  by (simp add: build_eth_def enc_ethernet_def poke_def enc16_def numeral_eq_Suc)

lemma build_udp_enc: "build_udp sp dp body = enc_udp sp dp 0 body"
  by (simp add: build_udp_def enc_udp_def poke_def enc16_def numeral_eq_Suc)

lemma header_bytes:
  fixes words :: u8
  assumes "n \<le> 10" "words = of_nat (5 + n)"
  shows "unat words * 4 = 20 + 4 * n"
    "replicate (unat words * 4) 0 = map (\<lambda>_. 0) [2..<22] @ replicate (4 * n) 0"
proof -
  have "unat words = 5 + n"
    using assms(1) by (simp add: assms(2) unsigned_of_nat take_bit_nat_eq_self del: of_nat_add)
  then show "unat words * 4 = 20 + 4 * n" by simp
  then show "replicate (unat words * 4) 0 = map (\<lambda>_. 0) [2..<22] @ replicate (4 * n) 0"
    unfolding map_replicate_const length_upt by (simp add: replicate_add)
qed

definition zero_tcp_misc :: tcp_misc where
  "zero_tcp_misc = \<lparr>tm_seq = 0, tm_ack = 0, tm_reserved = 0, tm_window = 0, tm_checksum = 0, tm_urgent = 0\<rparr>"

definition zero_ip_misc :: ip_misc where
  "zero_ip_misc = \<lparr>im_dscp = 0, im_ident = 0, im_frag = 0, im_checksum = 0\<rparr>"

lemma header_words: "(5 :: u8) = of_nat (5 + 0)" "(7 :: u8) = of_nat (5 + 2)" "(8 :: u8) = of_nat (5 + 3)"
  by simp_all

lemma build_tcp_enc:
  assumes "n \<le> 10" "words = of_nat (5 + n)"
  shows "build_tcp sp dp fl body words = enc_tcp zero_tcp_misc (replicate (4 * n) 0) sp dp fl body"
proof -
  have "push_bit 4 words = nibbles (5 + n) 0"
    by (simp add: assms(2) nibbles_def push_bit_eq_mult algebra_simps)
  then show ?thesis
    by (simp add: build_tcp_def enc_tcp_def zero_tcp_misc_def header_bytes(2) [OF assms] poke_def enc16_def enc32_def)
qed

lemma build_ipv4_enc:
  assumes "n \<le> 10" "words = of_nat (5 + n)" "inet_pton src = enc32 s" "inet_pton dst = enc32 d"
  shows "build_ipv4 src dst proto body words = enc_ipv4 zero_ip_misc (replicate (4 * n) 0) 64 proto s d body"
proof -
  have "list_all (\<lambda>m. push_bit 4 4 OR (of_nat m :: u8) = 64 + of_nat m) [5..<16]" by simp
  then have "\<forall>m \<in> {5..<16}. push_bit 4 4 OR (of_nat m :: u8) = 64 + of_nat m" by (simp only: list_all_iff set_upt)
  moreover have "5 + n \<in> {5..<16}" using assms(1) by simp
  ultimately have "push_bit 4 4 OR words = 64 + words" unfolding assms(2) by (rule bspec)
  then have "push_bit 4 4 OR words = nibbles 4 (5 + n)"
    by (simp add: assms(2) nibbles_def)
  then show ?thesis
    unfolding build_ipv4_def Let_def header_bytes(2) [OF assms(1,2)] assms(3,4)
    by (simp add: enc_ipv4_def zero_ip_misc_def header_bytes(1) [OF assms(1,2)] poke_def enc16_def enc32_def)
qed

lemma build_ip_frame:
  assumes "n \<le> 10" "words = of_nat (5 + n)" "inet_pton src = enc32 s" "inet_pton dst = enc32 d"
  shows "build_eth ETHERTYPE_IPV4 (build_ipv4 src dst proto body words) =
    ip_frame (replicate 6 0xbb) (replicate 6 0xaa) zero_ip_misc (replicate (4 * n) 0) 64 proto s d body []"
  by (simp add: build_eth_enc ip_frame_def build_ipv4_enc [OF assms])

lemma test_frame_ok:
  "n \<le> 10 \<Longrightarrow> length body < 65000 \<Longrightarrow> frame_ok (replicate 6 0xbb) (replicate 6 0xaa) (replicate (4 * n) 0) body []"
  by (simp add: frame_ok_def options_ok_def)

section \<open>The tests\<close>

type_synonym checks = "mem_error + bool list"

definition kTs :: timeval where
  "kTs = \<lparr>tv_sec = 1700000000, tv_usec = 0\<rparr>"

definition parse :: "u8 list \<Rightarrow> mem_error + ParsedPacket option" where
  "parse frame = parse_packet (Some frame) (of_nat (length frame)) (of_nat (length frame)) kTs"

definition deref :: "'a option \<Rightarrow> mem_error + 'a" where
  "deref r = (case r of None \<Rightarrow> Inl OutOfBounds | Some p \<Rightarrow> Inr p)"

text \<open>\<open>CHECK(pkt.has_value())\<close> and the checks on \<open>pkt->\<close> after it.\<close>

definition check_packet :: "mem_error + ParsedPacket option \<Rightarrow> (ParsedPacket \<Rightarrow> checks) \<Rightarrow> checks" where
  "check_packet parsed rest =
     and_then parsed (\<lambda>r. and_then (deref r) (\<lambda>p. and_then (rest p) (\<lambda>cs. Inr ((r \<noteq> None) # cs))))"

definition payload_is :: "u8 list \<Rightarrow> u8 list \<Rightarrow> ParsedPacket \<Rightarrow> mem_error + bool" where
  "payload_is frame expected p =
     and_then (deref (payload p)) (\<lambda>off. and_then (overlay frame off (length expected)) (\<lambda>bs. Inr (bs = expected)))"

definition test_well_formed_tcp :: checks where
  "test_well_formed_tcp =
     (let body = bytes_of_string ''hello world'';
          frame = build_eth ETHERTYPE_IPV4 (build_ipv4 ''10.0.0.1'' ''10.0.0.2'' IPPROTO_TCP
                    (build_tcp 1234 80 (kTcpFlagSyn OR kTcpFlagAck) body 5) 5)
      in check_packet (parse frame) (\<lambda>p.
           and_then (payload_is frame body p) (\<lambda>same.
             Inr [has_ip p, transport p = kTCP, src_port p = 1234, dst_port p = 80,
                  tcp_flags p = kTcpFlagSyn OR kTcpFlagAck, ttl p = 64, payload_length p = length body, same,
                  src_ip p = 0x0A000001, dst_ip p = 0x0A000002])))"

definition test_udp :: checks where
  "test_udp =
     (let body = bytes_of_string ''dns query'';
          frame = build_eth ETHERTYPE_IPV4 (build_ipv4 ''192.168.1.5'' ''8.8.8.8'' IPPROTO_UDP (build_udp 5353 53 body) 5)
      in check_packet (parse frame) (\<lambda>p.
           Inr [transport p = kUDP, src_port p = 5353, dst_port p = 53, payload_length p = length body]))"

definition test_ipv4_options_are_skipped :: checks where
  "test_ipv4_options_are_skipped =
     (let body = bytes_of_string ''after options'';
          frame = build_eth ETHERTYPE_IPV4 (build_ipv4 ''10.1.1.1'' ''10.1.1.2'' IPPROTO_TCP
                    (build_tcp 999 8080 kTcpFlagPsh body 5) 7)
      in check_packet (parse frame) (\<lambda>p.
           Inr [transport p = kTCP, src_port p = 999, dst_port p = 8080, payload_length p = length body]))"

definition test_tcp_options_are_skipped :: checks where
  "test_tcp_options_are_skipped =
     (let body = bytes_of_string ''payload past tcp options'';
          frame = build_eth ETHERTYPE_IPV4 (build_ipv4 ''10.2.2.1'' ''10.2.2.2'' IPPROTO_TCP
                    (build_tcp 1111 443 kTcpFlagAck body 8) 5)
      in check_packet (parse frame) (\<lambda>p.
           and_then (payload_is frame body p) (\<lambda>same. Inr [payload_length p = length body, same])))"

definition test_non_ipv4_is_not_decoded_further :: checks where
  "test_non_ipv4_is_not_decoded_further =
     check_packet (parse (build_eth ETHERTYPE_ARP (replicate 28 0))) (\<lambda>p. Inr [\<not> has_ip p, transport p = kUnknown])"

definition test_runt_frame_rejected :: checks where
  "test_runt_frame_rejected = and_then (parse (replicate 10 0xff)) (\<lambda>r. Inr [r = None])"

definition test_truncated_ip_header :: checks where
  "test_truncated_ip_header =
     check_packet (parse (build_eth ETHERTYPE_IPV4 (replicate 12 0x45))) (\<lambda>p. Inr [\<not> has_ip p])"

definition test_truncated_tcp_header :: checks where
  "test_truncated_tcp_header =
     check_packet (parse (build_eth ETHERTYPE_IPV4 (build_ipv4 ''10.0.0.3'' ''10.0.0.4'' IPPROTO_TCP (replicate 10 0) 5)))
       (\<lambda>p. Inr [has_ip p, transport p = kUnknown, payload_length p = 0])"

definition test_bogus_ihl_rejected :: checks where
  "test_bogus_ihl_rejected =
     (let frame = build_eth ETHERTYPE_IPV4 (build_ipv4 ''10.0.0.5'' ''10.0.0.6'' IPPROTO_TCP
                    (build_tcp 1 2 kTcpFlagSyn [] 5) 5);
          frame = frame[14 := push_bit 4 4 OR 3]
      in check_packet (parse frame) (\<lambda>p. Inr [\<not> has_ip p]))"

definition test_lying_total_length_does_not_overrun :: checks where
  "test_lying_total_length_does_not_overrun =
     (let body = bytes_of_string ''short'';
          frame = build_eth ETHERTYPE_IPV4 (build_ipv4 ''10.0.0.7'' ''10.0.0.8'' IPPROTO_TCP
                    (build_tcp 1 2 kTcpFlagPsh body 5) 5);
          frame = poke (14 + 2) (store16 (ntohs 60000)) frame
      in check_packet (parse frame) (\<lambda>p.
           Inr [payload_length p \<le> length frame, payload_length p = length body]))"

definition test_snaplen_truncated_payload_is_clamped :: checks where
  "test_snaplen_truncated_payload_is_clamped =
     (let body = bytes_of_string ''0123456789abcdef'';
          frame = build_eth ETHERTYPE_IPV4 (build_ipv4 ''10.0.0.9'' ''10.0.0.10'' IPPROTO_TCP
                    (build_tcp 1 2 kTcpFlagPsh body 5) 5);
          caplen = of_nat (length frame - 8)
      in check_packet (parse_packet (Some frame) caplen (of_nat (length frame)) kTs) (\<lambda>p.
           Inr [payload_length p = length body - 8]))"

text \<open>\<open>main\<close> runs the tests in order; \<open>report\<close> prints the counters \<open>g_checks\<close> and \<open>g_failures\<close>.\<close>

fun run_tests :: "checks list \<Rightarrow> checks" where
  "run_tests [] = Inr []"
| "run_tests (t # ts) = and_then t (\<lambda>cs. and_then (run_tests ts) (\<lambda>cs'. Inr (cs @ cs')))"

definition report :: "string \<Rightarrow> bool list \<Rightarrow> string \<times> int" where
  "report suite cs =
     (let g_checks = length cs; g_failures = length (filter Not cs)
      in (suite @ '': '' @ dec_nat g_checks @ '' checks, '' @ dec_nat g_failures @ '' failure(s)'' @ [CHR 0x0A],
          if g_failures = 0 then 0 else 1))"

definition parser_tests :: "checks list" where
  "parser_tests = [test_well_formed_tcp, test_udp, test_ipv4_options_are_skipped, test_tcp_options_are_skipped,
     test_non_ipv4_is_not_decoded_further, test_runt_frame_rejected, test_truncated_ip_header,
     test_truncated_tcp_header, test_bogus_ihl_rejected, test_lying_total_length_does_not_overrun,
     test_snaplen_truncated_payload_is_clamped]"

section \<open>The parser passes them\<close>

definition passes :: "nat \<Rightarrow> checks \<Rightarrow> bool" where
  "passes n t \<longleftrightarrow> (\<exists>cs. t = Inr cs \<and> length cs = n \<and> list_all (\<lambda>c. c) cs)"

lemma parse_built_tcp:
  assumes hdr: "n \<le> 10" "ihl = of_nat (5 + n)" "k \<le> 10" "words = of_nat (5 + k)"
    and addr: "inet_pton src = enc32 s" "inet_pton dst = enc32 d" and body: "length body < 1000"
    and fr: "fr = build_eth ETHERTYPE_IPV4 (build_ipv4 src dst IPPROTO_TCP (build_tcp sp dp fl body words) ihl)"
  shows "\<exists>p. parse fr = Inr (Some p) \<and> has_ip p \<and> transport p = kTCP \<and> src_ip p = s \<and> dst_ip p = d \<and>
    src_port p = sp \<and> dst_port p = dp \<and> tcp_flags p = fl \<and> ttl p = 64 \<and> payload_length p = length body \<and>
    payload_is fr body p = Inr True"
proof -
  let ?opts = "replicate (4 * n) 0" and ?seg = "enc_tcp zero_tcp_misc (replicate (4 * k) 0) sp dp fl body"
  have ok: "frame_ok (replicate 6 0xbb) (replicate 6 0xaa) ?opts ?seg []"
      "options_ok (replicate (4 * k) 0)" "tm_reserved zero_tcp_misc < 16"
    using hdr(1,3) body by (simp_all add: test_frame_ok options_ok_def enc_tcp_shape zero_tcp_misc_def)
  have eq: "fr = ip_frame (replicate 6 0xbb) (replicate 6 0xaa) zero_ip_misc ?opts 64 IPPROTO_TCP s d ?seg []"
    by (simp add: fr build_ip_frame [OF hdr(1,2) addr] build_tcp_enc [OF hdr(3,4)])
  have "length body \<le> length fr - (54 + 4 * n + 4 * k)" "54 + 4 * n + 4 * k \<le> length fr"
    using ip_frame_shape(1) [OF ok(1) eq] by (simp_all add: enc_tcp_shape)
  then have "overlay fr (54 + 4 * n + 4 * k) (length body) = Inr body"
    using parse_tcp_frame(2) [OF ok eq] by (simp add: overlay_def)
  then show ?thesis
    by (simp add: parse_def parse_tcp_frame(1) [OF ok eq] payload_is_def deref_def ip_summary_def)
qed

lemma parse_built_udp:
  assumes hdr: "n \<le> 10" "ihl = of_nat (5 + n)"
    and addr: "inet_pton src = enc32 s" "inet_pton dst = enc32 d" and body: "length body < 1000"
    and fr: "fr = build_eth ETHERTYPE_IPV4 (build_ipv4 src dst IPPROTO_UDP (build_udp sp dp body) ihl)"
  shows "\<exists>p. parse fr = Inr (Some p) \<and> has_ip p \<and> transport p = kUDP \<and> src_ip p = s \<and> dst_ip p = d \<and>
    src_port p = sp \<and> dst_port p = dp \<and> payload_length p = length body"
proof -
  let ?opts = "replicate (4 * n) 0" and ?dgram = "enc_udp sp dp 0 body"
  have ok: "frame_ok (replicate 6 0xbb) (replicate 6 0xaa) ?opts ?dgram []"
    using hdr(1) body by (simp add: test_frame_ok enc_udp_shape)
  have eq: "fr = ip_frame (replicate 6 0xbb) (replicate 6 0xaa) zero_ip_misc ?opts 64 IPPROTO_UDP s d ?dgram []"
    by (simp add: fr build_ip_frame [OF hdr addr] build_udp_enc)
  show ?thesis
    by (simp add: parse_def parse_udp_frame(1) [OF ok eq] ip_summary_def)
qed

text \<open>
  Any frame whose ethertype is IPv4, with the header guards as one condition; and what the TCP branch
  then takes as the payload: the bytes behind both headers that were captured and that the IPv4 header
  claims, whatever the two lengths are.
\<close>

definition ethernet_summary :: "u8 list \<Rightarrow> u32 \<Rightarrow> u32 \<Rightarrow> timeval \<Rightarrow> ParsedPacket" where
  "ethernet_summary data caplen wl ts = default_packet\<lparr>timestamp := ts, capture_length := caplen, wire_length := wl,
     src_mac := take 6 (drop 6 data), dst_mac := take 6 data\<rparr>"

lemma parse_packet_ipv4:
  assumes "unat caplen \<le> length data" "14 \<le> unat caplen" "be16 (data ! 12) (data ! 13) = ETHERTYPE_IPV4"
    and ip: "ip = ipv4_at (take 20 (drop 14 data))"
  shows "parse_packet (Some data) caplen wl ts =
    (if ipv4_ok ip (unat caplen)
     then and_then (dispatch (protocol ip) data (unat caplen) (14 + ip_header_bytes ip)
       (ip_payload_len (unat caplen) 14 (ip_header_bytes ip) (unat (ntohs (total_length ip))))
       (with_ip ip (ethernet_summary data caplen wl ts))) (\<lambda>p. Inr (Some p))
     else Inr (Some (ethernet_summary data caplen wl ts)))"
proof -
  have "ethernet_at (take 14 data) = \<lparr>eth_dst_mac = take 6 data, eth_src_mac = take 6 (drop 6 data),
      eth_ethertype = load16 (data ! 12) (data ! 13)\<rparr>"
    using assms(1,2) by (simp add: ethernet_at_def take_drop)
  moreover have "unat caplen < 4294967296" by simp
  ultimately show ?thesis
    using assms parse_ipv4_unfold [OF assms(1) _ ip]
    by (simp add: parse_packet_def sizeof_defs Let_def flip: ethernet_summary_def)
qed

lemma parse_tcp_exact:
  assumes "caplen \<le> length data" "caplen < 4294967296" "off + 20 \<le> caplen" "pl \<le> caplen - off"
    and "tcp = tcp_at (take 20 (drop off data))" "20 \<le> tcp_header_bytes tcp" "off + tcp_header_bytes tcp \<le> caplen"
  shows "\<exists>p. parse_tcp data caplen off pl pkt = Inr p \<and> transport p = kTCP \<and>
    payload p = Some (off + tcp_header_bytes tcp) \<and> payload_length p = pl - tcp_header_bytes tcp"
  using assms tcp_header_bytes_le [of tcp]
  by (auto simp: parse_tcp_def size_arith size_modulus_def sizeof_defs Let_def)

lemma parse_packet_tcp_exact:
  assumes cap: "unat caplen \<le> length data" "54 \<le> unat caplen" "be16 (data ! 12) (data ! 13) = ETHERTYPE_IPV4"
    and ip: "ip = ipv4_at (take 20 (drop 14 data))" "ip_version ip = 4" "ip_header_bytes ip = 20" "protocol ip = IPPROTO_TCP"
    and tcp: "tcp_header_bytes (tcp_at (take 20 (drop 34 data))) = 20"
  shows "\<exists>p. parse_packet (Some data) caplen wl ts = Inr (Some p) \<and> transport p = kTCP \<and> payload p = Some 54 \<and>
    payload_length p = min (unat caplen - 34) (unat (ntohs (total_length ip)) - 20) - 20"
proof -
  have ok: "ipv4_ok ip (unat caplen)" using cap ip by (simp add: ipv4_ok_def)
  have big: "unat caplen < 4294967296" by simp
  have pl: "ip_payload_len (unat caplen) 14 20 (unat (ntohs (total_length ip))) =
      min (unat caplen - 34) (unat (ntohs (total_length ip)) - 20)"
    using ip_payload_len_eq [of 14 20 "unat caplen" "unat (ntohs (total_length ip))"] cap(2) by simp
  let ?pl = "min (unat caplen - 34) (unat (ntohs (total_length ip)) - 20)"
  have bounds: "34 + 20 \<le> unat caplen" "?pl \<le> unat caplen - 34" using cap(2) by simp_all
  obtain p where "parse_tcp data (unat caplen) 34 ?pl (with_ip ip (ethernet_summary data caplen wl ts)) = Inr p"
      "transport p = kTCP" "payload p = Some 54" "payload_length p = ?pl - 20"
    using parse_tcp_exact [OF cap(1) big bounds refl, of "with_ip ip (ethernet_summary data caplen wl ts)"] tcp cap(2) by auto
  then show ?thesis
    using cap(2) parse_packet_ipv4 [OF cap(1) _ cap(3) ip(1), of wl ts] ok ip(2-4) pl by (simp add: dispatch_def)
qed

text \<open>The fields of a built frame with no options.\<close>

lemma built_tcp_bytes:
  assumes "inet_pton src = enc32 s" "inet_pton dst = enc32 d" and body: "length body < 1000"
    and fr: "fr = build_eth ETHERTYPE_IPV4 (build_ipv4 src dst IPPROTO_TCP (build_tcp sp dp fl body 5) 5)"
  shows "length fr = 54 + length body" "be16 (fr ! 12) (fr ! 13) = ETHERTYPE_IPV4"
    "ip_version (ipv4_at (take 20 (drop 14 fr))) = 4" "ip_header_bytes (ipv4_at (take 20 (drop 14 fr))) = 20"
    "protocol (ipv4_at (take 20 (drop 14 fr))) = IPPROTO_TCP"
    "unat (ntohs (total_length (ipv4_at (take 20 (drop 14 fr))))) = 40 + length body"
    "tcp_header_bytes (tcp_at (take 20 (drop 34 fr))) = 20"
proof -
  let ?seg = "enc_tcp zero_tcp_misc [] sp dp fl body"
  have ok: "frame_ok (replicate 6 0xbb) (replicate 6 0xaa) [] ?seg []"
    using test_frame_ok [of 0 ?seg] body by (simp add: enc_tcp_shape)
  have eq: "fr = ip_frame (replicate 6 0xbb) (replicate 6 0xaa) zero_ip_misc [] 64 IPPROTO_TCP s d ?seg []"
    using build_ip_frame [OF le0 header_words(1) assms(1,2), of IPPROTO_TCP] build_tcp_enc [OF le0 header_words(1)]
    by (simp add: fr)
  note sh = ip_frame_shape [OF ok eq]
  have "options_ok ([] :: u8 list)" "20 + length ([] :: u8 list) + length ?seg < 65536"
    using body by (simp_all add: options_ok_def enc_tcp_shape)
  note ip = ipv4_at_enc [OF this refl, of zero_ip_misc 64 IPPROTO_TCP s d]
  show "length fr = 54 + length body" using sh(1) by (simp add: enc_tcp_shape)
  show "be16 (fr ! 12) (fr ! 13) = ETHERTYPE_IPV4"
    by (simp add: eq ip_frame_def enc_ethernet_def nth_append enc16_def)
  show "ip_version (ipv4_at (take 20 (drop 14 fr))) = 4" "ip_header_bytes (ipv4_at (take 20 (drop 14 fr))) = 20"
    "protocol (ipv4_at (take 20 (drop 14 fr))) = IPPROTO_TCP"
    "unat (ntohs (total_length (ipv4_at (take 20 (drop 14 fr))))) = 40 + length body"
    using ip by (simp_all add: sh(2) enc_tcp_shape)
  have "take 20 (drop 34 fr) = take 20 ?seg" using sh(3) by (simp add: enc_tcp_shape)
  then show "tcp_header_bytes (tcp_at (take 20 (drop 34 fr))) = 20"
    using tcp_at_enc(1) [of "[]" zero_tcp_misc, OF _ _ refl, of sp dp fl body]
    by (simp add: options_ok_def zero_tcp_misc_def)
qed

lemma test_addresses:
  "inet_pton ''10.0.0.1'' = enc32 0x0A000001" "inet_pton ''10.0.0.2'' = enc32 0x0A000002"
  "inet_pton ''192.168.1.5'' = enc32 0xC0A80105" "inet_pton ''8.8.8.8'' = enc32 0x08080808"
  "inet_pton ''10.1.1.1'' = enc32 0x0A010101" "inet_pton ''10.1.1.2'' = enc32 0x0A010102"
  "inet_pton ''10.2.2.1'' = enc32 0x0A020201" "inet_pton ''10.2.2.2'' = enc32 0x0A020202"
  "inet_pton ''10.0.0.3'' = enc32 0x0A000003" "inet_pton ''10.0.0.4'' = enc32 0x0A000004"
  "inet_pton ''10.0.0.5'' = enc32 0x0A000005" "inet_pton ''10.0.0.6'' = enc32 0x0A000006"
  "inet_pton ''10.0.0.7'' = enc32 0x0A000007" "inet_pton ''10.0.0.8'' = enc32 0x0A000008"
  "inet_pton ''10.0.0.9'' = enc32 0x0A000009" "inet_pton ''10.0.0.10'' = enc32 0x0A00000A"
  by (simp_all add: inet_pton_def dec_value_def digit_value_def enc32_def)

lemma check_packet_pass:
  "\<exists>p. parsed = Inr (Some p) \<and> passes n (rest p) \<Longrightarrow> passes (Suc n) (check_packet parsed rest)"
  by (auto simp: check_packet_def deref_def passes_def)

lemma passes_checks: "passes n (Inr cs) \<longleftrightarrow> length cs = n \<and> list_all (\<lambda>c. c) cs"
  by (simp add: passes_def)

lemma length_bytes [simp]: "length (bytes_of_string s) = length s"
  by (simp add: bytes_of_string_def)

text \<open>The tests on whole TCP and UDP frames, each with the headers and the body of its own.\<close>

lemma tcp_test_passes:
  assumes "n \<le> 10" "ihl = of_nat (5 + n)" "k \<le> 10" "words = of_nat (5 + k)"
    and "inet_pton src = enc32 s" "inet_pton dst = enc32 d" "length body < 1000"
    and fr: "fr = build_eth ETHERTYPE_IPV4 (build_ipv4 src dst IPPROTO_TCP (build_tcp sp dp fl body words) ihl)"
    and checks: "\<And>p. has_ip p \<Longrightarrow> transport p = kTCP \<Longrightarrow> src_ip p = s \<Longrightarrow> dst_ip p = d \<Longrightarrow> src_port p = sp \<Longrightarrow>
      dst_port p = dp \<Longrightarrow> tcp_flags p = fl \<Longrightarrow> ttl p = 64 \<Longrightarrow> payload_length p = length body \<Longrightarrow>
      payload_is fr body p = Inr True \<Longrightarrow> passes m (rest p)"
  shows "passes (Suc m) (check_packet (parse fr) rest)"
  using parse_built_tcp [OF assms(1-8)] checks by (intro check_packet_pass) blast

lemma udp_test_passes:
  assumes "n \<le> 10" "ihl = of_nat (5 + n)" "inet_pton src = enc32 s" "inet_pton dst = enc32 d" "length body < 1000"
    and fr: "fr = build_eth ETHERTYPE_IPV4 (build_ipv4 src dst IPPROTO_UDP (build_udp sp dp body) ihl)"
    and checks: "\<And>p. transport p = kUDP \<Longrightarrow> src_port p = sp \<Longrightarrow> dst_port p = dp \<Longrightarrow>
      payload_length p = length body \<Longrightarrow> passes m (rest p)"
  shows "passes (Suc m) (check_packet (parse fr) rest)"
  using parse_built_udp [OF assms(1-6)] checks by (intro check_packet_pass) blast

lemma whole_frame_tests_pass:
  "passes (Suc 10) test_well_formed_tcp"
  "passes (Suc 4) test_udp"
  "passes (Suc 4) test_ipv4_options_are_skipped"
  "passes (Suc 2) test_tcp_options_are_skipped"
  unfolding test_well_formed_tcp_def test_udp_def test_ipv4_options_are_skipped_def test_tcp_options_are_skipped_def Let_def
  by (rule tcp_test_passes [OF le0 header_words(1) le0 header_words(1) test_addresses(1,2) _ refl]; simp add: passes_checks)
    (rule udp_test_passes [OF le0 header_words(1) test_addresses(3,4) _ refl]
      tcp_test_passes [OF _ header_words(2) le0 header_words(1) test_addresses(5,6) _ refl]
      tcp_test_passes [OF le0 header_words(1) _ header_words(3) test_addresses(7,8) _ refl]; simp add: passes_checks)+

text \<open>Frames whose IP part is refused.\<close>

lemma refused_frame:
  assumes "14 \<le> length fr" "length fr < 4294967296"
    and "be16 (fr ! 12) (fr ! 13) \<noteq> ETHERTYPE_IPV4 \<or> \<not> ipv4_ok (ipv4_at (take 20 (drop 14 fr))) (length fr)"
  shows "\<exists>p. parse fr = Inr (Some p) \<and> \<not> has_ip p \<and> transport p = kUnknown"
proof -
  let ?n = "of_nat (length fr) :: u32"
  have n: "unat ?n = length fr" using assms(2) by (simp add: unsigned_of_nat take_bit_nat_eq_self)
  have "ethernet_at (take 14 fr) = \<lparr>eth_dst_mac = take 6 fr, eth_src_mac = take 6 (drop 6 fr),
      eth_ethertype = load16 (fr ! 12) (fr ! 13)\<rparr>"
    using assms(1) by (simp add: ethernet_at_def take_drop)
  then have "parse fr = Inr (Some (ethernet_summary fr ?n ?n kTs))"
    using assms n parse_packet_ipv4 [of ?n fr, OF _ _ _ refl, of ?n kTs]
    by (auto simp: parse_def parse_packet_def sizeof_defs Let_def ethernet_summary_def)
  then show ?thesis by (simp add: ethernet_summary_def default_packet_def)
qed

lemma refused_test_passes:
  "14 \<le> length fr \<Longrightarrow> length fr < 4294967296 \<Longrightarrow>
   be16 (fr ! 12) (fr ! 13) \<noteq> ETHERTYPE_IPV4 \<or> \<not> ipv4_ok (ipv4_at (take 20 (drop 14 fr))) (length fr) \<Longrightarrow>
   (\<And>p. \<not> has_ip p \<Longrightarrow> transport p = kUnknown \<Longrightarrow> passes m (rest p)) \<Longrightarrow> passes (Suc m) (check_packet (parse fr) rest)"
  using refused_frame [of fr] by (intro check_packet_pass) blast

lemma built_eth_ethertype:
  "be16 (build_eth et body ! 12) (build_eth et body ! 13) = et" "length (build_eth et body) = 14 + length body"
  by (simp_all add: build_eth_enc enc_ethernet_def enc16_def nth_append)

lemma refused_tests_pass:
  "passes (Suc 2) test_non_ipv4_is_not_decoded_further"
  "passes 1 test_runt_frame_rejected"
  "passes (Suc 1) test_truncated_ip_header"
proof -
  show "passes (Suc 2) test_non_ipv4_is_not_decoded_further"
    unfolding test_non_ipv4_is_not_decoded_further_def
    by (rule refused_test_passes) (simp_all add: built_eth_ethertype passes_checks ETHERTYPE_ARP_def ETHERTYPE_IPV4_def)
  show "passes 1 test_runt_frame_rejected"
    by (simp add: test_runt_frame_rejected_def parse_def parse_packet_def sizeof_defs passes_checks)
  show "passes (Suc 1) test_truncated_ip_header"
    unfolding test_truncated_ip_header_def
    by (rule refused_test_passes) (simp_all add: built_eth_ethertype passes_checks ipv4_ok_def)
qed

text \<open>Headers that are cut off or wrong.\<close>

lemma test_bogus_ihl_passes: "passes (Suc 1) test_bogus_ihl_rejected"
proof -
  define fr where "fr = build_eth ETHERTYPE_IPV4 (build_ipv4 ''10.0.0.5'' ''10.0.0.6'' IPPROTO_TCP
    (build_tcp 1 2 kTcpFlagSyn [] 5) 5)"
  have "length ([] :: u8 list) < 1000" by simp
  note bytes = built_tcp_bytes [OF test_addresses(11,12) this fr_def]
  define fr' where "fr' = fr[14 := push_bit 4 4 OR 3]"
  have "version_ihl (ipv4_at (take 20 (drop 14 fr'))) = 67"
    using bytes(1) by (simp add: fr'_def ipv4_at_def)
  then have "\<not> ipv4_ok (ipv4_at (take 20 (drop 14 fr'))) (length fr')"
    by (simp add: ipv4_ok_def ip_header_bytes_eq ihl_words_def)
  then show ?thesis
    unfolding test_bogus_ihl_rejected_def Let_def fr_def [symmetric] fr'_def [symmetric]
    using bytes(1,2) by (intro refused_test_passes) (simp_all add: fr'_def passes_checks)
qed

lemma test_truncated_tcp_passes: "passes (Suc 3) test_truncated_tcp_header"
proof -
  define fr where "fr = build_eth ETHERTYPE_IPV4 (build_ipv4 ''10.0.0.3'' ''10.0.0.4'' IPPROTO_TCP (replicate 10 0) 5)"
  have eq: "fr = ip_frame (replicate 6 0xbb) (replicate 6 0xaa) zero_ip_misc [] 64 IPPROTO_TCP
      0x0A000003 0x0A000004 (replicate 10 0) []"
    using build_ip_frame [OF le0 header_words(1) test_addresses(9,10)] by (simp add: fr_def)
  have ok: "frame_ok (replicate 6 0xbb) (replicate 6 0xaa) [] (replicate 10 0) []"
    using test_frame_ok [of 0 "replicate 10 0"] by simp
  have "parse_tcp fr (length fr) 34 10 pkt = Inr pkt" for pkt
    using ip_frame_shape(1) [OF ok eq] by (simp add: parse_tcp_def sizeof_defs size_arith size_modulus_def)
  then have "\<exists>p. parse fr = Inr (Some p) \<and> has_ip p \<and> transport p = kUnknown \<and> payload_length p = 0"
    using parse_packet_ip_frame [OF ok eq]
    by (simp add: parse_def dispatch_def ip_summary_def default_packet_def)
  then show ?thesis
    unfolding test_truncated_tcp_header_def fr_def [symmetric]
    by (intro check_packet_pass) (auto simp: passes_checks)
qed

text \<open>Lengths that do not agree: the smaller one counts.\<close>

lemma test_lying_total_length_passes: "passes (Suc 2) test_lying_total_length_does_not_overrun"
proof -
  define body where "body = bytes_of_string ''short''"
  define fr where "fr = build_eth ETHERTYPE_IPV4 (build_ipv4 ''10.0.0.7'' ''10.0.0.8'' IPPROTO_TCP
    (build_tcp 1 2 kTcpFlagPsh body 5) 5)"
  have body: "length body = 5" by (simp add: body_def)
  then have "length body < 1000" by simp
  note bytes = built_tcp_bytes [OF test_addresses(13,14) this fr_def]
  define fr' where "fr' = poke (14 + 2) (store16 (ntohs 60000)) fr"
  define ip where "ip = ipv4_at (take 20 (drop 14 fr'))"
  have len: "length fr' = 59" "unat (of_nat (length fr') :: u32) = 59"
    using bytes(1) body by (simp_all add: fr'_def poke_def)
  have nth: "fr' ! i = (if i = 16 then 234 else if i = 17 then 96 else fr ! i)" if "i < 59" for i
    using that bytes(1) body by (auto simp: fr'_def poke_def enc16_def nth_append nth_Cons')
  have "take 20 (drop 34 fr') = take 20 (drop 34 fr)"
    using len bytes(1) body by (intro nth_equalityI) (simp_all add: nth)
  moreover have "ip = ipv4_at (take 20 (drop 14 fr))\<lparr>total_length := load16 234 96\<rparr>"
    using len(1) bytes(1) body by (simp add: ip_def ipv4_at_def nth)
  moreover have "unat (be16 234 96) = 60000" by (simp add: be16_def)
  ultimately have "\<exists>p. parse fr' = Inr (Some p) \<and> transport p = kTCP \<and> payload p = Some 54 \<and> payload_length p = 5"
    using parse_packet_tcp_exact [of "of_nat (length fr')" fr', OF _ _ _ ip_def] len bytes nth
    by (simp add: parse_def ip_version_def ip_header_bytes_def ihl_words_def)
  then show ?thesis
    unfolding test_lying_total_length_does_not_overrun_def Let_def body_def [symmetric] fr_def [symmetric] fr'_def [symmetric]
    using len(1) body by (intro check_packet_pass) (auto simp: passes_checks)
qed

lemma test_snaplen_passes: "passes (Suc 1) test_snaplen_truncated_payload_is_clamped"
proof -
  define body where "body = bytes_of_string ''0123456789abcdef''"
  define fr where "fr = build_eth ETHERTYPE_IPV4 (build_ipv4 ''10.0.0.9'' ''10.0.0.10'' IPPROTO_TCP
    (build_tcp 1 2 kTcpFlagPsh body 5) 5)"
  have body: "length body = 16" by (simp add: body_def)
  then have "length body < 1000" by simp
  note bytes = built_tcp_bytes [OF test_addresses(15,16) this fr_def]
  have cap: "unat (of_nat (length fr - 8) :: u32) = 62" using bytes(1) body by simp
  have "\<exists>p. parse_packet (Some fr) (of_nat (length fr - 8)) (of_nat (length fr)) kTs = Inr (Some p) \<and> payload_length p = 8"
    using parse_packet_tcp_exact [of "of_nat (length fr - 8)" fr, OF _ _ _ refl] cap bytes body by auto
  then show ?thesis
    unfolding test_snaplen_truncated_payload_is_clamped_def Let_def body_def [symmetric] fr_def [symmetric]
    using body by (intro check_packet_pass) (auto simp: passes_checks)
qed

text \<open>The whole program: 41 checks and no failure.\<close>

lemma run_tests_Cons: "passes n t \<Longrightarrow> passes m (run_tests ts) \<Longrightarrow> passes (n + m) (run_tests (t # ts))"
  by (auto simp: passes_def)

lemma run_tests_Nil: "passes 0 (run_tests [])"
  by (simp add: passes_def)

theorem parser_tests_pass:
  "\<exists>cs. run_tests parser_tests = Inr cs \<and> report ''parser'' cs = (''parser: 41 checks, 0 failure(s)'' @ [CHR 0x0A], 0)"
proof -
  have "passes (Suc 10 + (Suc 4 + (Suc 4 + (Suc 2 + (Suc 2 + (1 + (Suc 1 + (Suc 3 + (Suc 1 + (Suc 2 + (Suc 1 + 0)))))))))))
      (run_tests parser_tests)"
    unfolding parser_tests_def
    by (intro run_tests_Cons run_tests_Nil whole_frame_tests_pass refused_tests_pass test_truncated_tcp_passes
        test_bogus_ihl_passes test_lying_total_length_passes test_snaplen_passes)
  then obtain cs where "run_tests parser_tests = Inr cs" "length cs = 41" "list_all (\<lambda>c. c) cs"
    by (auto simp: passes_def)
  moreover from this(3) have "filter Not cs = []" by (auto simp: list_all_iff filter_empty_conv)
  moreover have "dec_nat 41 = ''41''" "dec_nat 0 = ''0''" by code_simp+
  ultimately show ?thesis by (simp add: report_def)
qed

end
