(* ===== verification/Spec2Isabelle.thy ===== *)
theory Spec2Isabelle
  imports Main_Program Wakeup_Progress Fair_System Gpu_Pool Bench_Reports Test_Frames
begin

text \<open>
  NetSentinel reads packets from an interface or a capture file, decodes them, hands them through a
  bounded queue to a pool of workers, and reports port scans, SYN floods, high-entropy payloads and
  known-bad payloads. This development models the C++ sources under \<open>src/\<close> of the repository
  (\<open>include/netsentinel\<close>, \<open>src\<close>) and the compute kernel of \<open>shaders/payload_entropy.metal\<close>.

  \<^bold>\<open>How the program is put together.\<close> \<open>main.cpp\<close> parses the command line, opens a \<open>Capture\<close>, builds an
  \<open>AnalysisEngine\<close> with a CPU or GPU \<open>EntropyBackend\<close>, a \<open>PacketQueue\<close> and a \<open>WorkerPool\<close>. The capture thread
  runs \<open>Capture::run\<close>, whose handler copies each parsed packet and pushes it. Each worker pops batches and
  calls \<open>analyze_batch\<close>, which starts the entropy computation, runs the signature and flow rules packet by
  packet, waits for the entropies and reports alerts to \<open>print_alert\<close>. After the capture the main thread
  shuts the queue down, joins the pool and prints a summary.

  \<^bold>\<open>Theories and what they model.\<close>

  \<^item> \<open>Prelude\<close>: words, \<open>size_t\<close> arithmetic with its wrap-around, reads outside a buffer as the value
    \<open>Inl OutOfBounds\<close>, \<open>snprintf\<close> and decimal printing, the locale of hash maps with its interpretation on
    association lists, sums over slots, runs of a step relation (\<open>reaches\<close>) with the locale \<open>step_invariant\<close> that
    the step relations below interpret, time-ordered windows.

  \<^item> \<open>Headers\<close>, \<open>Packet\<close>, \<open>Parser\<close>: \<open>headers.hpp\<close>, \<open>packet.hpp/.cpp\<close>, \<open>parser.cpp\<close>. \<open>Wire_Spec\<close> states the wire
    format as an encoder. Shown: no header is read outside the captured bytes; when a packet has IP
    fields; encoded TCP and UDP frames decode to their own fields. \<open>Test_Frames\<close> holds the frame builders of
    \<open>tests/test_support.hpp\<close>, shown to follow that format, and \<open>tests/test_parser.cpp\<close>, whose 41 checks all succeed.

  \<^item> \<open>Packet_Queue\<close>, \<open>Worker_Pool\<close>, \<open>Pipeline_Progress\<close>: \<open>packet_queue.cpp\<close>, \<open>worker_pool.cpp\<close> and the threads of
    \<open>main\<close> as the step relation \<open>pipeline_step\<close>, a step being one region under the mutex, one notification or
    one action outside. Shown for every schedule: nothing is lost, duplicated or reordered in the queue, the
    capacity is kept, a sleeping capture thread is never forgotten, and after the shutdown every schedule ends.
    \<open>Consumer_Wakeup\<close> refines the timed waits of \<open>pop_batch\<close>: sleeping workers and every call of \<open>notify_one\<close> and
    \<open>notify_all\<close> are explicit. Shown: its runs are runs of \<open>pipeline_step\<close>, and queued packets are never left to
    the timeout of a sleeping worker although \<open>push\<close> notifies only at sizes 1 and \<open>wanted_\<close>.

  \<^item> \<open>Signature_DB\<close>, \<open>Alert\<close>, \<open>Entropy\<close>: \<open>signature_db.cpp\<close>, \<open>alert.cpp\<close>, \<open>entropy.cpp\<close>. FNV-1a on 64-bit words; the
    histogram with 32-bit counters and the sum in real arithmetic, shown equal to the Shannon entropy.

  \<^item> \<open>Flow_Tracker\<close>: \<open>flow_tracker.cpp\<close>, with \<open>std::hash\<close> and the iteration order of the tables as arguments.
    \<open>Flow_Window\<close> and \<open>Flow_Refinement\<close> show that on packets in time order the incremental windows, counters,
    sharding and sweeps give exactly the alerts of a recount over the whole history; \<open>Flow_Detection\<close> what
    that means for detection and debouncing; \<open>Flow_Bounds\<close> the bounds on memory and on 64-bit times.

  \<^item> \<open>Analysis_Engine\<close>, \<open>Engine_Correct\<close>: \<open>analysis_engine.cpp\<close>, \<open>entropy_backend.cpp\<close>. The locales \<open>entropy_backend\<close> and
    \<open>exact_backend\<close> state what a backend promises; they are interpreted on the CPU backend here and on the GPU
    backend in \<open>Gpu_Backend\<close>. Shown: the alerts of a run of batches, the fallback, independence of batching.

  \<^item> \<open>Concurrent_Engine\<close>: several calls of \<open>analyze_batch\<close> at once, interleaved packet by packet; an uninterrupted
    call is shown to be \<open>analyze_batch\<close>. \<open>Whole_System\<close> joins it to the pipeline: every execution of the whole
    projects to both parts. Shown: entropy and signature alerts do not depend on the schedule; with one worker
    all alerts are exact; the program can always finish.

  \<^item> \<open>Fairness\<close>, \<open>Fair_Pipeline\<close>, \<open>Fair_System\<close>: infinite runs under weak fairness, with the leads-to rules in the
    locale \<open>fair_steps\<close>, interpreted on the pipeline and on the whole. Shown: every fair run ends with all packets
    analysed. A worker in a timed wait counts as able to move; a capture thread asleep in \<open>push\<close> does not.
    \<open>Wakeup_Progress\<close> shows the same of \<open>Consumer_Wakeup\<close> with no thread asleep on a condition variable counted as
    able to move: the program does not depend on the timeout of \<open>pop_batch\<close>.

  \<^item> \<open>Capture\<close>: \<open>capture.cpp\<close>. A run is given the answers of \<open>libpcap\<close>, \<open>poll\<close> and the stop flag as lists and is
    structurally recursive on the reads of the stop flag; a run that would need more answers is \<open>Running\<close>.

  \<^item> \<open>Gpu_Kernel\<close>, \<open>Gpu_Context\<close>, \<open>Gpu_Backend\<close>, \<open>Gpu_Pool\<close>: the kernel, \<open>metal_context.cpp\<close> and
    \<open>gpu_entropy_backend.cpp\<close>. Allocations, the thread limit, the order of atomic increments and the completion
    of commands are arguments. Shown: no access leaves a buffer, completed dispatches give the CPU's values,
    buffer sets are neither lost nor shared, for every interleaving of the workers.

  \<^item> \<open>Command_Line\<close>, \<open>Main_Program\<close>: \<open>main.cpp\<close>. Option parsing, checks, printers, counters, choice of source and
    backend, summary. The last theorem of this theory goes from the command line to the report.

  \<^item> \<open>Bench_Analysis\<close>, \<open>Bench_Capture\<close>, \<open>Bench_Entropy\<close>: the programs under \<open>src/bench\<close> and the smoke test
    \<open>src/gpu/vector_add_smoke_test.cpp\<close>: their work sharing, stages, self-checks and option parsers.
    \<open>Bench_Reports\<close> holds their \<open>main\<close> functions: the order of the measurements, medians, tables, the CSV file.

  \<^bold>\<open>Bounds and termination.\<close> No definition uses fuel: every loop is structurally recursive or has a measure
  (the arguments left, the entries left, the halved thread count, the packets left). Loops that wait for other
  threads are steps of a relation; that they end is shown by a measure that every step after the shutdown
  decreases. Hypotheses on sizes are those of the types: fewer than \<open>2 ^ 32\<close> payload bytes per GPU dispatch or
  histogram, fewer than \<open>2 ^ 64\<close> packets, timestamps in the range of \<open>int64_t\<close> milliseconds.

  \<^bold>\<open>What modelling showed.\<close> The signed packet counter overflows after 2147483647 packets; \<open>-e nan\<close> passes the
  range check and turns the entropy rule off; 32-bit offsets wrap in GPU batches of \<open>2 ^ 32\<close> bytes; the cap on
  tracked sources holds at sweeps only; packets of one source delivered out of time order by several workers can
  keep an expired attempt counted; frames without IPv4 do reach the handler. Each is a theorem of its component.

  \<^bold>\<open>Not modelled.\<close> Rounding of floating-point numbers (a backend with a bounded error is covered by a theorem);
  \<open>libpcap\<close>, Metal, \<open>std::hash\<close>, \<open>strtod\<close> and the clocks, which are arguments; reference counting of Metal
  objects and closing of handles; installation of the signal handler, whose effect is an answer of the stop
  flag; the other tests, scripts and build files.
\<close>

section \<open>From the command line to the report\<close>

lemma copied_packets:
  assumes "list_all (\<lambda>fp. \<exists>q. queue_handler fp = Inr q) handled"
  shows "map queue_handler handled = map Inr (map (projr \<circ> queue_handler) handled)"
  using assms by (induction handled) auto

text \<open>
  C1. End to end: when the command line is accepted and the source opens, whatever \<open>libpcap\<close>, \<open>poll\<close>,
  the stop flag and the scheduler do, every packet the capture thread counts is copied inside its
  frame, analysed once and counted as processed, and the summary's counters of high-entropy and
  signature alerts are the numbers of captured packets with such payloads.
\<close>

theorem run_end_to_end:
  assumes "main_setup env strtod cores argv0 args = Runs opts c name"
    and "list_all raw_frame_ok (frames_of nexts)"
    and "run_capture c fd (opt_max_packets opts) stops polls nexts = Finished delivered handled"
    and "packets = map (projr \<circ> queue_handler) handled" and "cfg = engine_config (engine_for opts)"
    and "system_reachable (opt_batch_size opts) (opt_linger_us opts) hash32
      (system_start cfg (opt_queue_capacity opts) (opt_num_workers opts) packets) s"
    and "main_pc (pipe s) = MDone" and "\<forall>bb \<in> set (begun (eng s)). trusted cfg bb" and "mset alerts = sink (eng s)"
    and "ty = kSignatureMatch \<or> ty = kHighEntropyPayload"
  shows "map queue_handler handled = map Inr packets \<and> delivered = int (length packets) \<and>
    (0 < opt_max_packets opts \<longrightarrow> delivered \<le> opt_max_packets opts) \<and>
    mset (map snd (observed (eng s))) = mset packets \<and> processed (pipe s) = of_int delivered \<and>
    g_alerts_by_type (fst (print_alerts (opt_quiet opts) alerts zero_counters)) ! type_index ty =
      of_nat (length (filter (flagged cfg new_SignatureDatabase ty) packets))"
proof -
  have start: "command_line strtod cores args = Inr (Start opts)"
    using assms(1) by (auto simp: main_setup_def split: sum.splits startup.splits prod.splits option.splits)
  have opts: "0 \<le> opt_max_packets opts" "opt_max_packets opts \<le> INT_MAX" "0 < opt_batch_size opts"
    using command_line_start [OF start] by (auto simp: options_ok_def check_options_def split: if_splits)
  have cap: "delivered = int (length handled)" "0 < opt_max_packets opts \<longrightarrow> delivered \<le> opt_max_packets opts"
    "list_all (\<lambda>fp. \<exists>q. queue_handler fp = Inr q) handled"
    using run_capture_result [OF assms(2) opts(1,2), of c fd stops polls] assms(3) by auto
  note run = whole_run_alerts [OF assms(6) opts(3) assms(7,8)]
  have "processed (pipe s) = of_nat (length packets)"
    using done_state(4) [OF start_reachable_inv [OF _ opts(3)] assms(7)] system_projects [OF assms(6)] by blast
  moreover have "size {#a \<in># sink (eng s). atype a = ty#} = length (filter (flagged cfg new_SignatureDatabase ty) packets)"
    using flow_alerts_other_types [OF assms(10)] count_flagged [OF assms(10)] by (simp add: run(1) del: mset_concat)
  then have "length (filter (\<lambda>a. atype a = ty) alerts) = length (filter (flagged cfg new_SignatureDatabase ty) packets)"
    by (metis assms(9) mset_filter size_mset)
  ultimately show ?thesis
    using cap run(2) copied_packets [OF cap(3)] print_alerts_counts [of zero_counters "opt_quiet opts" alerts ty]
      type_index_less [of ty] assms(4) by (simp add: zero_counters_def)
qed

definition file_environment :: "nat environment" where
  "file_environment = \<lparr>env_devices = Inr [], env_open_live = (\<lambda>_. Inl ''no device''), env_open_offline = (\<lambda>_. Inr 3),
     env_datalink = (\<lambda>_. DLT_EN10MB), env_metal = False,
     env_handles = \<lparr>has_device = False, has_queue = False, found_name = None\<rparr>,
     env_build = \<lparr>compile_error = None, function_found = False, pipeline_error = None\<rparr>\<rparr>"

theorem run_end_to_end_witness:
  "\<exists>s :: ReadyEntropy system. main_pc (pipe s) = MDone \<and> processed (pipe s) = 1"
proof -
  define opts where "opts = (initial_options 4)\<lparr>opt_pcap_file := ''a.pcap''\<rparr>"
  have ready: "main_setup file_environment (\<lambda>_. None) 4 ''netsentinel'' [''-r'', ''a.pcap''] =
      Runs opts sample_capture ''cpu''"
    by (simp add: main_setup_def command_line_def one_option_def check_options_def initial_options_def opts_def
        open_source_def open_offline_def file_environment_def new_Capture_def sample_capture_def choose_backend_def)
  have len: "length (parsed_frames [sample_frame]) = 1" using sample_frame_ok(2) by auto
  have cap: "run_capture sample_capture (\<lambda>_. 0) (opt_max_packets opts) [False, False, False] []
      (map NextFrame [sample_frame] @ [NextEnd]) = Finished 1 (parsed_frames [sample_frame])"
    using inner_loop_frames [of "[sample_frame]" "[False, False]" 0 False "[]" "[]"] sample_frame_ok(1) len
    by (simp add: run_capture_def sample_capture_def opts_def initial_options_def INT_MAX_def)
  have frames: "list_all raw_frame_ok (frames_of (map NextFrame [sample_frame] @ [NextEnd]))"
    using sample_frame_ok(1) by simp
  obtain s :: "ReadyEntropy system" where
    s: "system_reachable (opt_batch_size opts) (opt_linger_us opts) (\<lambda>_. 0) (system_start (engine_config (engine_for opts))
        (opt_queue_capacity opts) (opt_num_workers opts) (map (projr \<circ> queue_handler) (parsed_frames [sample_frame]))) s"
      "main_pc (pipe s) = MDone" "\<forall>bb \<in> set (begun (eng s)). trusted (engine_config (engine_for opts)) bb"
    by (rule finished_run [of "opt_batch_size opts" "opt_queue_capacity opts"]) (auto simp: opts_def initial_options_def)
  obtain alerts where "mset alerts = sink (eng s)" by (metis ex_mset)
  from run_end_to_end [OF ready frames cap refl refl s this, of kSignatureMatch] s(2)
  show ?thesis by (intro exI [of _ s]) simp
qed

end
